(* ===== verification/Prelude.thy ===== *)
theory Prelude
  imports Main "HOL-Library.Word" "HOL-Library.Multiset"
begin

unbundle bit_operations_syntax

text \<open>
  What every component of the development shares: the machine integer types, the
  \<^verbatim>\<open>switch_status_t\<close> codes, the 64-bit \<^verbatim>\<open>switch_size_t\<close> arithmetic written out on
  naturals, and bounds-checked memory blocks.  A memory block is the list of its bytes;
  an access outside of it has the value \<open>None\<close>, so that "the code never leaves its
  buffer" is a statement that can be proved, and is not assumed.
\<close>

section \<open>Machine types\<close>

type_synonym u8 = "8 word"
type_synonym u16 = "16 word"
type_synonym u32 = "32 word"
type_synonym u64 = "64 word"
type_synonym byte = "8 word"

text \<open>\<^verbatim>\<open>switch_status_t\<close>, in the order of \<^verbatim>\<open>switch_types.h\<close>.\<close>

datatype switch_status =
    SWITCH_STATUS_SUCCESS
  | SWITCH_STATUS_FALSE
  | SWITCH_STATUS_TIMEOUT
  | SWITCH_STATUS_RESTART
  | SWITCH_STATUS_INTR
  | SWITCH_STATUS_NOTIMPL
  | SWITCH_STATUS_MEMERR
  | SWITCH_STATUS_NOOP
  | SWITCH_STATUS_RESAMPLE
  | SWITCH_STATUS_GENERR
  | SWITCH_STATUS_INUSE
  | SWITCH_STATUS_BREAK
  | SWITCH_STATUS_SOCKERR
  | SWITCH_STATUS_MORE_DATA
  | SWITCH_STATUS_NOTFOUND
  | SWITCH_STATUS_UNLOAD
  | SWITCH_STATUS_NOUNLOAD
  | SWITCH_STATUS_IGNORE
  | SWITCH_STATUS_TOO_SMALL
  | SWITCH_STATUS_FOUND
  | SWITCH_STATUS_CONTINUE
  | SWITCH_STATUS_TERM
  | SWITCH_STATUS_NOT_INITALIZED
  | SWITCH_STATUS_TOO_LATE
  | SWITCH_STATUS_XBREAK
  | SWITCH_STATUS_WINBREAK

section \<open>Sizes: 64-bit unsigned arithmetic on naturals\<close>

named_theorems sz_simps "size arithmetic that does not wrap"

type_synonym switch_size = nat

definition sz_add :: "switch_size \<Rightarrow> switch_size \<Rightarrow> switch_size" where
  "sz_add a b = (a + b) mod 2 ^ 64"

definition sz_sub :: "switch_size \<Rightarrow> switch_size \<Rightarrow> switch_size" where
  "sz_sub a b = (a + (2 ^ 64 - b mod 2 ^ 64)) mod 2 ^ 64"

lemma sz_add_exact [sz_simps]: "a + b < 2 ^ 64 \<Longrightarrow> sz_add a b = a + b"
  by (simp add: sz_add_def)

lemma sz_sub_exact [sz_simps]:
  assumes "b \<le> a" and "a < 2 ^ 64"
  shows "sz_sub a b = a - b"
proof -
  have "b < 2 ^ 64" using assms by linarith
  then have "a + (2 ^ 64 - b mod 2 ^ 64) = (a - b) + 2 ^ 64"
    using assms by simp
  moreover have "a - b < 2 ^ 64" using assms by linarith
  ultimately show ?thesis
    by (simp add: sz_sub_def)
qed

lemma sz_sub_wraps:
  assumes "a < b" and "b < 2 ^ 64"
  shows "sz_sub a b = 2 ^ 64 - (b - a)"
proof -
  have "a + (2 ^ 64 - b mod 2 ^ 64) = 2 ^ 64 - (b - a)" using assms by simp
  moreover have "2 ^ 64 - (b - a) < (2 :: nat) ^ 64" using assms by simp
  ultimately show ?thesis by (simp add: sz_sub_def)
qed

section \<open>Flag words\<close>

text \<open>\<^verbatim>\<open>switch_test_flag(obj, flag)\<close>, \<^verbatim>\<open>switch_set_flag\<close> and \<^verbatim>\<open>switch_clear_flag\<close> on
  the object's 32-bit flag word.\<close>

definition switch_test_flag :: "u32 \<Rightarrow> u32 \<Rightarrow> bool" where
  "switch_test_flag flags flag \<longleftrightarrow> flags AND flag \<noteq> 0"

definition switch_set_flag :: "u32 \<Rightarrow> u32 \<Rightarrow> u32" where
  "switch_set_flag flags flag = flags OR flag"

definition switch_clear_flag :: "u32 \<Rightarrow> u32 \<Rightarrow> u32" where
  "switch_clear_flag flags flag = flags AND NOT flag"

lemma test_set_flag [simp]: "flag \<noteq> 0 \<Longrightarrow> switch_test_flag (switch_set_flag fl flag) flag"
  by (simp add: switch_test_flag_def switch_set_flag_def word_bw_assocs word_oa_dist)

lemma test_clear_flag [simp]: "\<not> switch_test_flag (switch_clear_flag fl flag) flag"
  by (simp add: switch_test_flag_def switch_clear_flag_def word_bw_assocs)

section \<open>Memory blocks\<close>

named_theorems mem_simps "bounds-checked memory accesses that are in range"

definition mem_read :: "byte list \<Rightarrow> nat \<Rightarrow> nat \<Rightarrow> byte list option" where
  "mem_read blk off n = (if off + n \<le> length blk then Some (take n (drop off blk)) else None)"

definition mem_write :: "byte list \<Rightarrow> nat \<Rightarrow> byte list \<Rightarrow> byte list option" where
  "mem_write blk off src =
     (if off + length src \<le> length blk
      then Some (take off blk @ src @ drop (off + length src) blk) else None)"

text \<open>\<^verbatim>\<open>memmove(blk, blk + off, n)\<close>: the regions may overlap.\<close>

definition mem_move_front :: "byte list \<Rightarrow> nat \<Rightarrow> nat \<Rightarrow> byte list option" where
  "mem_move_front blk off n =
     (case mem_read blk off n of None \<Rightarrow> None | Some src \<Rightarrow> mem_write blk 0 src)"

text \<open>
  The C allocator: \<open>m n\<close> is \<open>None\<close> where an allocation of \<open>n\<close> bytes fails, and
  otherwise gives the indeterminate contents of the fresh bytes.
\<close>

type_synonym allocator = "nat \<Rightarrow> (nat \<Rightarrow> byte) option"

definition malloc :: "allocator \<Rightarrow> nat \<Rightarrow> byte list option" where
  "malloc m n = map_option (\<lambda>junk. map junk [0..<n]) (m n)"

definition realloc :: "allocator \<Rightarrow> byte list \<Rightarrow> nat \<Rightarrow> byte list option" where
  "realloc m blk n = map_option (\<lambda>junk. take n blk @ map junk [length blk..<n]) (m n)"

lemma mem_read_in_range [mem_simps]:
  "off + n \<le> length blk \<Longrightarrow> mem_read blk off n = Some (take n (drop off blk))"
  by (simp add: mem_read_def)

lemma mem_write_in_range [mem_simps]:
  "off + length src \<le> length blk \<Longrightarrow>
   mem_write blk off src = Some (take off blk @ src @ drop (off + length src) blk)"
  by (simp add: mem_write_def)

lemma mem_move_front_in_range [mem_simps]:
  "off + n \<le> length blk \<Longrightarrow>
   mem_move_front blk off n = Some (take n (drop off blk) @ drop n blk)"
  by (simp add: mem_move_front_def mem_read_def mem_write_def)

lemma realloc_length: "realloc m blk n = Some blk' \<Longrightarrow> length blk \<le> n \<Longrightarrow> length blk' = n"
  by (auto simp: realloc_def)

lemma realloc_prefix:
  "realloc m blk n = Some blk' \<Longrightarrow> length blk \<le> n \<Longrightarrow> take (length blk) blk' = blk"
  by (auto simp: realloc_def)

text \<open>
  No C object is larger than \<^verbatim>\<open>PTRDIFF_MAX\<close>: \<^verbatim>\<open>malloc\<close> and \<^verbatim>\<open>realloc\<close> refuse such sizes.
\<close>

definition bounded_allocator :: "allocator \<Rightarrow> bool" where
  "bounded_allocator m \<longleftrightarrow> (\<forall>n. m n \<noteq> None \<longrightarrow> n < 2 ^ 63)"

lemma realloc_bounded: "bounded_allocator m \<Longrightarrow> realloc m blk n = Some blk' \<Longrightarrow> n < 2 ^ 63"
  by (auto simp: bounded_allocator_def realloc_def)

lemma take_drop_overwrite:
  assumes "h + u \<le> length blk"
  shows "take (u + length xs) (drop h (take (h + u) blk @ xs @ ys)) = take u (drop h blk) @ xs"
  using assms by (simp add: drop_take)

section \<open>Rings\<close>

text \<open>Less than a full turn apart, two positions of a ring differ.\<close>

lemma ring_distinct:
  fixes i b :: nat
  assumes "i < n" "n < b"
  shows "(p + i) mod b \<noteq> (p + n) mod b"
proof
  assume "(p + i) mod b = (p + n) mod b"
  then have "(p + i) mod b = ((p + i) + (n - i)) mod b" using assms by simp
  then have "b dvd (n - i)" using mod_eq_dvd_iff_nat [of "p + i" "(p + i) + (n - i)" b]
    by (metis add_diff_cancel_left' le_add1 mod_eq_dvd_iff_nat)
  then show False using assms by (auto dest: dvd_imp_le)
qed

end
