(* ===== verification/Buffer.thy ===== *)
theory Buffer
  imports Prelude
begin

text \<open>
  The byte buffer of \<^verbatim>\<open>src/src/switch_buffer.c\<close>.  The pointer \<^verbatim>\<open>head\<close> is modelled as its
  offset from \<^verbatim>\<open>data\<close>; every copy goes through the bounds-checked accesses of the
  prelude, so an operation has the value \<open>None\<close> exactly where the C code would leave the
  block or fail an assertion.  Results pair the returned \<^verbatim>\<open>switch_size_t\<close> (or status) with
  the updated buffer.
\<close>

section \<open>State and operations\<close>

abbreviation SWITCH_BUFFER_FLAG_DYNAMIC :: u32 where "SWITCH_BUFFER_FLAG_DYNAMIC \<equiv> 1"
abbreviation SWITCH_BUFFER_FLAG_PARTITION :: u32 where "SWITCH_BUFFER_FLAG_PARTITION \<equiv> 2"

record switch_buffer =
  b_data :: "byte list option"
  b_head :: nat
  b_used :: switch_size
  b_actually_used :: switch_size
  b_datalen :: switch_size
  b_max_len :: switch_size
  b_blocksize :: switch_size
  b_mutex :: "nat option"
  b_flags :: u32
  b_id :: u32
  b_loops :: int

definition zero_buffer :: switch_buffer where
  "zero_buffer = \<lparr>b_data = None, b_head = 0, b_used = 0, b_actually_used = 0, b_datalen = 0,
     b_max_len = 0, b_blocksize = 0, b_mutex = None, b_flags = 0, b_id = 0, b_loops = 0\<rparr>"

abbreviation is_dynamic :: "switch_buffer \<Rightarrow> bool" where
  "is_dynamic b \<equiv> switch_test_flag (b_flags b) SWITCH_BUFFER_FLAG_DYNAMIC"

abbreviation is_partition :: "switch_buffer \<Rightarrow> bool" where
  "is_partition b \<equiv> switch_test_flag (b_flags b) SWITCH_BUFFER_FLAG_PARTITION"

definition switch_buffer_reset_partition_data :: "switch_buffer \<Rightarrow> switch_status \<times> switch_buffer" where
  "switch_buffer_reset_partition_data b =
     (if \<not> is_partition b then (SWITCH_STATUS_FALSE, b)
      else (SWITCH_STATUS_SUCCESS,
            b\<lparr>b_head := 0, b_used := b_datalen b, b_actually_used := b_datalen b\<rparr>))"

definition switch_buffer_set_partition_data ::
  "switch_buffer \<Rightarrow> byte list option \<Rightarrow> switch_size \<Rightarrow> switch_status \<times> switch_buffer" where
  "switch_buffer_set_partition_data b data datalen =
     (if \<not> is_partition b then (SWITCH_STATUS_FALSE, b)
      else switch_buffer_reset_partition_data (b\<lparr>b_data := data, b_datalen := datalen\<rparr>))"

text \<open>
  The three constructors take the allocator and the file-level counter \<^verbatim>\<open>buffer_id\<close> and
  return the new counter.  \<^verbatim>\<open>switch_core_alloc\<close> hands out zeroed pool memory.
\<close>

definition switch_buffer_create_partition ::
  "allocator \<Rightarrow> u32 \<Rightarrow> nat \<Rightarrow> byte list option \<Rightarrow> switch_size
   \<Rightarrow> switch_status \<times> switch_buffer option \<times> u32" where
  "switch_buffer_create_partition m buffer_id objsize data datalen =
     (case m objsize of
        None \<Rightarrow> (SWITCH_STATUS_MEMERR, None, buffer_id)
      | Some _ \<Rightarrow>
          let nb = zero_buffer\<lparr>b_id := buffer_id,
                     b_flags := switch_set_flag 0 SWITCH_BUFFER_FLAG_PARTITION\<rparr>
          in (SWITCH_STATUS_SUCCESS, Some (snd (switch_buffer_set_partition_data nb data datalen)),
              buffer_id + 1))"

definition switch_buffer_create ::
  "allocator \<Rightarrow> u32 \<Rightarrow> nat \<Rightarrow> switch_size \<Rightarrow> switch_status \<times> switch_buffer option \<times> u32" where
  "switch_buffer_create m buffer_id objsize max_len =
     (if m objsize \<noteq> None \<and> m max_len \<noteq> None
      then (SWITCH_STATUS_SUCCESS,
            Some (zero_buffer\<lparr>b_data := Some (replicate max_len 0), b_datalen := max_len,
                              b_id := buffer_id, b_head := 0\<rparr>),
            buffer_id + 1)
      else (SWITCH_STATUS_MEMERR, None, buffer_id))"

definition switch_buffer_create_dynamic ::
  "allocator \<Rightarrow> u32 \<Rightarrow> nat \<Rightarrow> switch_size \<Rightarrow> switch_size \<Rightarrow> switch_size
   \<Rightarrow> switch_status \<times> switch_buffer option \<times> u32" where
  "switch_buffer_create_dynamic m buffer_id objsize blocksize0 start_len0 max_len =
     (case m objsize of
        None \<Rightarrow> (SWITCH_STATUS_MEMERR, None, buffer_id)
      | Some _ \<Rightarrow>
          (let start_len = (if start_len0 = 0 then 250 else start_len0);
               blocksize = (if blocksize0 = 0 then start_len else blocksize0)
           in case malloc m start_len of
                None \<Rightarrow> (SWITCH_STATUS_MEMERR, None, buffer_id)
              | Some _ \<Rightarrow>
                  (SWITCH_STATUS_SUCCESS,
                   Some (zero_buffer\<lparr>b_data := Some (replicate start_len 0), b_max_len := max_len,
                       b_datalen := start_len, b_id := buffer_id, b_blocksize := blocksize,
                       b_head := 0,
                       b_flags := switch_set_flag 0 SWITCH_BUFFER_FLAG_DYNAMIC\<rparr>),
                   buffer_id + 1)))"

definition switch_buffer_add_mutex :: "switch_buffer \<Rightarrow> nat option \<Rightarrow> switch_buffer" where
  "switch_buffer_add_mutex b mutex = b\<lparr>b_mutex := mutex\<rparr>"

definition switch_buffer_len :: "switch_buffer \<Rightarrow> switch_size" where
  "switch_buffer_len b = b_datalen b"

definition switch_buffer_freespace :: "switch_buffer \<Rightarrow> switch_size" where
  "switch_buffer_freespace b =
     (if is_dynamic b
      then (if b_max_len b \<noteq> 0 then sz_sub (b_max_len b) (b_used b) else 1000000)
      else sz_sub (b_datalen b) (b_used b))"

definition switch_buffer_inuse :: "switch_buffer \<Rightarrow> switch_size" where
  "switch_buffer_inuse b = b_used b"

definition switch_buffer_toss :: "switch_buffer \<Rightarrow> switch_size \<Rightarrow> switch_size \<times> switch_buffer" where
  "switch_buffer_toss b datalen =
     (if b_used b < 1 then (0, b\<lparr>b_used := 0\<rparr>)
      else
        let reading = (if b_used b \<ge> datalen then datalen else b_used b);
            b' = b\<lparr>b_used := sz_sub (b_used b) reading, b_head := b_head b + reading\<rparr>
        in (b_used b', b'))"

definition switch_buffer_set_loops :: "switch_buffer \<Rightarrow> int \<Rightarrow> switch_buffer" where
  "switch_buffer_set_loops b loops = b\<lparr>b_loops := loops\<rparr>"

text \<open>Reading operations also return the bytes copied out.\<close>

definition switch_buffer_read ::
  "switch_buffer \<Rightarrow> switch_size \<Rightarrow> (switch_size \<times> byte list \<times> switch_buffer) option" where
  "switch_buffer_read b datalen =
     (if b_used b < 1 then Some (0, [], b\<lparr>b_used := 0\<rparr>)
      else
        let reading = (if b_used b \<ge> datalen then datalen else b_used b)
        in case b_data b of None \<Rightarrow> None | Some blk \<Rightarrow>
           (case mem_read blk (b_head b) reading of None \<Rightarrow> None | Some out \<Rightarrow>
              Some (reading, out,
                    b\<lparr>b_used := sz_sub (b_used b) reading, b_head := b_head b + reading\<rparr>)))"

definition switch_buffer_read_loop ::
  "switch_buffer \<Rightarrow> switch_size \<Rightarrow> (switch_size \<times> byte list \<times> switch_buffer) option" where
  "switch_buffer_read_loop b datalen =
     (case switch_buffer_read b datalen of None \<Rightarrow> None | Some (len, out, b1) \<Rightarrow>
        if len = 0 then
          let b2 = (if b_loops b1 > 0 then b1\<lparr>b_loops := b_loops b1 - 1\<rparr> else b1)
          in if b_loops b2 = 0 then Some (0, out, b2)
             else switch_buffer_read (b2\<lparr>b_head := 0, b_used := b_actually_used b2\<rparr>) datalen
        else Some (len, out, b1))"

definition switch_buffer_peek ::
  "switch_buffer \<Rightarrow> switch_size \<Rightarrow> (switch_size \<times> byte list \<times> switch_buffer) option" where
  "switch_buffer_peek b datalen =
     (if b_used b < 1 then Some (0, [], b\<lparr>b_used := 0\<rparr>)
      else
        let reading = (if b_used b \<ge> datalen then datalen else b_used b)
        in case b_data b of None \<Rightarrow> None | Some blk \<Rightarrow>
           (case mem_read blk (b_head b) reading of None \<Rightarrow> None | Some out \<Rightarrow>
              Some (reading, out, b)))"

text \<open>The pointer handed out by \<^verbatim>\<open>peek_zerocopy\<close> is the offset of \<^verbatim>\<open>head\<close>.\<close>

definition switch_buffer_peek_zerocopy ::
  "switch_buffer \<Rightarrow> switch_size \<times> nat option \<times> switch_buffer" where
  "switch_buffer_peek_zerocopy b =
     (if b_used b < 1 then (0, None, b\<lparr>b_used := 0\<rparr>)
      else (b_used b, Some (b_head b), b))"

text \<open>
  \<^verbatim>\<open>switch_buffer_write\<close> in its three stages: move the unread bytes to the front of the
  block where the tail has no room, grow a dynamic block, copy.
\<close>

definition write_compact :: "switch_buffer \<Rightarrow> byte list \<Rightarrow> switch_size \<Rightarrow> switch_buffer option" where
  "write_compact b blk datalen =
     (if sz_sub (b_datalen b) (b_actually_used b) < datalen
      then (case mem_move_front blk (b_head b) (b_used b) of None \<Rightarrow> None | Some blk' \<Rightarrow>
              Some (b\<lparr>b_data := Some blk', b_head := 0, b_actually_used := b_used b\<rparr>))
      else Some b)"

definition wants_growth :: "switch_buffer \<Rightarrow> switch_size \<Rightarrow> bool" where
  "wants_growth b datalen \<longleftrightarrow>
     is_dynamic b \<and> sz_sub (b_datalen b) (b_used b) < datalen \<and>
     (b_max_len b = 0 \<or> sz_add (b_used b) datalen \<le> b_max_len b)"

definition grown_size :: "switch_buffer \<Rightarrow> switch_size \<Rightarrow> switch_size" where
  "grown_size b datalen =
     (let new_size = sz_add (b_datalen b) datalen;
          new_block_size = sz_add (b_datalen b) (b_blocksize b)
      in if new_block_size > new_size then new_block_size else new_size)"

text \<open>The bytes to store: the caller's, or zeros for a null pointer.\<close>

definition payload :: "byte list option \<Rightarrow> switch_size \<Rightarrow> byte list option" where
  "payload data datalen =
     (case data of None \<Rightarrow> Some (replicate datalen 0) | Some src \<Rightarrow> mem_read src 0 datalen)"

definition write_copy ::
  "switch_buffer \<Rightarrow> byte list \<Rightarrow> byte list option \<Rightarrow> switch_size \<Rightarrow> (switch_size \<times> switch_buffer) option" where
  "write_copy b blk data datalen =
     (if sz_sub (b_datalen b) (b_used b) < datalen then Some (0, b)
      else
        case payload data datalen of
          None \<Rightarrow> None
        | Some bytes \<Rightarrow>
            (case mem_write blk (b_head b + b_used b) bytes of None \<Rightarrow> None | Some blk' \<Rightarrow>
               let b' = b\<lparr>b_data := Some blk', b_used := sz_add (b_used b) datalen,
                          b_actually_used := sz_add (b_actually_used b) datalen\<rparr>
               in Some (b_used b', b')))"

definition switch_buffer_write ::
  "allocator \<Rightarrow> switch_buffer \<Rightarrow> byte list option \<Rightarrow> switch_size \<Rightarrow> (switch_size \<times> switch_buffer) option" where
  "switch_buffer_write m b data datalen =
     (if is_partition b then Some (0, b)
      else case b_data b of None \<Rightarrow> None | Some blk \<Rightarrow>
        if datalen = 0 then Some (b_used b, b)
        else case write_compact b blk datalen of None \<Rightarrow> None | Some b1 \<Rightarrow>
          (case b_data b1 of None \<Rightarrow> None | Some blk1 \<Rightarrow>
             if wants_growth b1 datalen then
               (case realloc m blk1 (grown_size b1 datalen) of
                  None \<Rightarrow> Some (0, b1\<lparr>b_head := 0\<rparr>)
                | Some tmp \<Rightarrow>
                    write_copy (b1\<lparr>b_data := Some tmp, b_head := 0, b_datalen := grown_size b1 datalen\<rparr>)
                      tmp data datalen)
             else write_copy b1 blk1 data datalen))"

definition switch_buffer_zero :: "switch_buffer \<Rightarrow> switch_buffer option" where
  "switch_buffer_zero b =
     (if b_data b = None then None
      else Some (b\<lparr>b_used := 0, b_actually_used := 0, b_head := 0\<rparr>))"

definition switch_buffer_zwrite ::
  "allocator \<Rightarrow> switch_buffer \<Rightarrow> byte list option \<Rightarrow> switch_size \<Rightarrow> (switch_size \<times> switch_buffer) option" where
  "switch_buffer_zwrite m b data datalen =
     (if is_partition b then Some (0, b)
      else case switch_buffer_write m b data datalen of None \<Rightarrow> None | Some (w, b1) \<Rightarrow>
        if w = 0 then
          (case switch_buffer_zero b1 of None \<Rightarrow> None | Some b2 \<Rightarrow> switch_buffer_write m b2 data datalen)
        else Some (w, b1))"

definition switch_buffer_slide_write ::
  "allocator \<Rightarrow> switch_buffer \<Rightarrow> byte list option \<Rightarrow> switch_size \<Rightarrow> (switch_size \<times> switch_buffer) option" where
  "switch_buffer_slide_write m b data datalen =
     (if is_partition b then Some (0, b)
      else case switch_buffer_write m b data datalen of None \<Rightarrow> None | Some (w, b1) \<Rightarrow>
        if w = 0 then switch_buffer_write m (snd (switch_buffer_toss b1 datalen)) data datalen
        else Some (w, b1))"

section \<open>Invariant and abstraction\<close>

text \<open>
  The invariant ties \<^verbatim>\<open>actually_used\<close> to the read position: the block holds
  \<open>head\<close> consumed bytes, then \<open>used\<close> unread ones, and \<^verbatim>\<open>actually_used\<close> is where the unread
  bytes end.  The contents of a buffer are its unread bytes.
\<close>

definition buf_inv :: "switch_buffer \<Rightarrow> bool" where
  "buf_inv b \<longleftrightarrow>
     (case b_data b of None \<Rightarrow> False | Some blk \<Rightarrow> length blk = b_datalen b) \<and>
     b_head b + b_used b = b_actually_used b \<and>
     b_actually_used b \<le> b_datalen b \<and> b_datalen b < 2 ^ 63 \<and> b_blocksize b < 2 ^ 63"

definition contents :: "switch_buffer \<Rightarrow> byte list" where
  "contents b = take (b_used b) (drop (b_head b) (case b_data b of None \<Rightarrow> [] | Some blk \<Rightarrow> blk))"

text \<open>Whether a write of \<open>n\<close> bytes has room: in the block, or by growing it.\<close>

definition write_fits :: "allocator \<Rightarrow> switch_buffer \<Rightarrow> switch_size \<Rightarrow> bool" where
  "write_fits m b n \<longleftrightarrow>
     b_used b + n \<le> b_datalen b \<or>
     is_dynamic b \<and> (b_max_len b = 0 \<or> b_used b + n \<le> b_max_len b) \<and>
     m (max (b_datalen b + n) (b_datalen b + b_blocksize b)) \<noteq> None"

lemma buf_invE:
  assumes "buf_inv b"
  obtains blk where "b_data b = Some blk" "length blk = b_datalen b"
    "b_head b + b_used b = b_actually_used b" "b_head b + b_used b \<le> b_datalen b"
    "b_datalen b < 2 ^ 63" "b_blocksize b < 2 ^ 63"
  using assms by (auto simp: buf_inv_def split: option.splits)

lemma length_contents [simp]: "buf_inv b \<Longrightarrow> length (contents b) = b_used b"
  by (elim buf_invE) (simp add: contents_def)

lemma lt63_lt64: "n < 2 ^ 63 \<Longrightarrow> n < (2 :: nat) ^ 64"
  by simp

lemma buf_inv_no_wrap:
  assumes "buf_inv b" and "n < 2 ^ 63"
  shows "sz_sub (b_datalen b) (b_used b) = b_datalen b - b_used b"
    and "sz_sub (b_datalen b) (b_actually_used b) = b_datalen b - b_actually_used b"
    and "sz_add (b_datalen b) n = b_datalen b + n"
    and "sz_add (b_used b) n = b_used b + n"
    and "sz_add (b_actually_used b) n = b_actually_used b + n"
  using assms by (auto elim!: buf_invE simp: sz_simps)

section \<open>Reading, tossing, zeroing\<close>

lemma read_spec:
  assumes "buf_inv b"
  shows "\<exists>b'. switch_buffer_read b n = Some (min n (b_used b), take n (contents b), b') \<and>
              buf_inv b' \<and> contents b' = drop n (contents b) \<and>
              b_flags b' = b_flags b \<and> b_loops b' = b_loops b \<and>
              b_actually_used b' = b_actually_used b \<and> b_data b' = b_data b"
proof -
  from assms obtain blk where blk: "b_data b = Some blk" "length blk = b_datalen b"
      "b_head b + b_used b = b_actually_used b" "b_head b + b_used b \<le> b_datalen b"
      "b_datalen b < 2 ^ 63" "b_blocksize b < 2 ^ 63"
    by (rule buf_invE)
  show ?thesis
  proof (cases "b_used b < 1")
    case True
    with blk show ?thesis
      by (auto simp: switch_buffer_read_def contents_def buf_inv_def)
  next
    case False
    with blk show ?thesis
      by (auto simp: switch_buffer_read_def contents_def buf_inv_def Let_def mem_simps sz_simps
            min_def drop_take add.commute)
  qed
qed

lemma peek_spec:
  assumes "buf_inv b"
  shows "\<exists>b'. switch_buffer_peek b n = Some (min n (b_used b), take n (contents b), b') \<and>
              buf_inv b' \<and> contents b' = contents b"
  using assms
  by (elim buf_invE)
     (auto simp: switch_buffer_peek_def contents_def buf_inv_def Let_def mem_simps min_def)

lemma toss_spec:
  assumes "buf_inv b"
  shows "buf_inv (snd (switch_buffer_toss b n))"
    and "contents (snd (switch_buffer_toss b n)) = drop n (contents b)"
    and "fst (switch_buffer_toss b n) = b_used b - n"
    and "b_flags (snd (switch_buffer_toss b n)) = b_flags b"
    and "b_datalen (snd (switch_buffer_toss b n)) = b_datalen b"
  by ((rule buf_invE [OF assms],
       auto simp: switch_buffer_toss_def contents_def buf_inv_def Let_def sz_simps drop_take
         add.commute)+)

lemma zero_spec:
  assumes "buf_inv b"
  shows "\<exists>b'. switch_buffer_zero b = Some b' \<and> buf_inv b' \<and> contents b' = [] \<and>
              b_flags b' = b_flags b \<and> b_datalen b' = b_datalen b \<and>
              b_max_len b' = b_max_len b \<and> b_blocksize b' = b_blocksize b"
  using assms
  by (elim buf_invE) (simp add: switch_buffer_zero_def contents_def buf_inv_def)

section \<open>Writing\<close>

lemma payload_length: "payload data n = Some xs \<Longrightarrow> length xs = n"
  by (auto simp: payload_def mem_read_def split: option.splits if_splits)

lemma write_compact_spec:
  assumes "buf_inv b" and "b_data b = Some blk"
  shows "\<exists>b1. write_compact b blk n = Some b1 \<and> buf_inv b1 \<and> contents b1 = contents b \<and>
           b_used b1 = b_used b \<and> b_datalen b1 = b_datalen b \<and> b_max_len b1 = b_max_len b \<and>
           b_blocksize b1 = b_blocksize b \<and> b_flags b1 = b_flags b \<and>
           (b_datalen b - b_used b \<ge> n \<longrightarrow> b_head b1 + b_used b1 + n \<le> b_datalen b1) \<and>
           (b_datalen b - b_used b < n \<longrightarrow> b_head b1 = 0)"
proof -
  from assms obtain h: "length blk = b_datalen b"
      "b_head b + b_used b = b_actually_used b" "b_head b + b_used b \<le> b_datalen b"
      "b_datalen b < 2 ^ 63"
    by (auto elim!: buf_invE)
  have sub: "sz_sub (b_datalen b) (b_actually_used b) = b_datalen b - b_actually_used b"
    using h by (intro sz_sub_exact) simp_all
  show ?thesis
  proof (cases "b_datalen b - b_actually_used b < n")
    case True
    with h sub assms show ?thesis
      by (auto simp: write_compact_def contents_def buf_inv_def mem_simps)
  next
    case False
    with h sub assms show ?thesis
      by (auto simp: write_compact_def)
  qed
qed

lemma write_copy_full:
  assumes "buf_inv b" and "b_datalen b - b_used b < n"
  shows "write_copy b blk data n = Some (0, b)"
  using assms by (auto elim!: buf_invE simp: write_copy_def sz_simps)

lemma write_copy_room:
  assumes "buf_inv b" and "b_data b = Some blk" and "payload data n = Some xs"
    and "b_head b + b_used b + n \<le> b_datalen b"
  shows "\<exists>b'. write_copy b blk data n = Some (b_used b + n, b') \<and> buf_inv b' \<and>
              contents b' = contents b @ xs \<and> b_flags b' = b_flags b \<and>
              b_max_len b' = b_max_len b \<and> b_datalen b' = b_datalen b"
proof -
  note len = payload_length [OF assms(3)]
  from assms(1,2) obtain h: "length blk = b_datalen b"
      "b_head b + b_used b = b_actually_used b" "b_datalen b < 2 ^ 63"
    by (auto elim!: buf_invE)
  have nw: "sz_sub (b_datalen b) (b_used b) = b_datalen b - b_used b"
      "sz_add (b_used b) n = b_used b + n" "sz_add (b_actually_used b) n = b_actually_used b + n"
    using h assms(4) by (simp_all add: sz_simps)
  show ?thesis
    using h nw len assms take_drop_overwrite [of "b_head b" "b_used b" blk xs]
    by (simp add: write_copy_def mem_simps Let_def buf_inv_def contents_def)
qed

lemma grown_size_eq:
  assumes "buf_inv b" and "n < 2 ^ 63"
  shows "grown_size b n = max (b_datalen b + n) (b_datalen b + b_blocksize b)"
  using assms by (auto elim!: buf_invE simp: grown_size_def Let_def sz_simps max_def)

text \<open>
  The grown buffer: reallocation keeps the unread bytes, which \<^verbatim>\<open>write_compact\<close> has moved to
  the front of the block.
\<close>

lemma grown_buffer:
  assumes "buf_inv b" and "b_data b = Some blk" and "b_head b = 0"
    and "realloc m blk sz = Some tmp" and "b_datalen b \<le> sz" and "sz < 2 ^ 63"
  shows "buf_inv (b\<lparr>b_data := Some tmp, b_head := 0, b_datalen := sz\<rparr>)"
    and "contents (b\<lparr>b_data := Some tmp, b_head := 0, b_datalen := sz\<rparr>) = contents b"
proof -
  from assms(1,2) obtain h: "length blk = b_datalen b"
      "b_head b + b_used b = b_actually_used b" "b_head b + b_used b \<le> b_datalen b"
    by (auto elim!: buf_invE)
  have tmp: "length tmp = sz" "take (length blk) tmp = blk"
    using realloc_length [OF assms(4)] realloc_prefix [OF assms(4)] assms(5) h by simp_all
  show "buf_inv (b\<lparr>b_data := Some tmp, b_head := 0, b_datalen := sz\<rparr>)"
    using assms h tmp by (simp add: buf_inv_def)
  have "take (b_used b) (take (length blk) tmp) = take (b_used b) tmp"
    using h by (simp add: min_def)
  then have "take (b_used b) blk = take (b_used b) tmp"
    by (simp only: tmp(2))
  then show "contents (b\<lparr>b_data := Some tmp, b_head := 0, b_datalen := sz\<rparr>) = contents b"
    using assms h tmp by (simp add: contents_def)
qed

text \<open>
  \<open>write_result m b xs r b'\<close> is the contract of every write of the bytes \<open>xs\<close>: stored at the
  end of the contents, or refused with the contents unchanged and 0 returned.
\<close>

definition write_result :: "bool \<Rightarrow> switch_buffer \<Rightarrow> byte list \<Rightarrow> switch_size \<Rightarrow> switch_buffer \<Rightarrow> bool" where
  "write_result fits b xs r b' \<longleftrightarrow>
     buf_inv b' \<and> b_flags b' = b_flags b \<and> b_max_len b' = b_max_len b \<and> (\<not> is_dynamic b \<longrightarrow> b_datalen b' = b_datalen b) \<and>
     (if fits then r = b_used b + length xs \<and> contents b' = contents b @ xs
      else r = 0 \<and> contents b' = contents b)"

lemma write_in_place:
  assumes "buf_inv b" and "b_data b = Some blk" and "payload data n = Some xs"
    and "b_datalen b - b_used b \<ge> n \<longrightarrow> b_head b + b_used b + n \<le> b_datalen b"
  shows "\<exists>r b'. write_copy b blk data n = Some (r, b') \<and>
           write_result (b_used b + n \<le> b_datalen b) b xs r b'"
proof (cases "b_used b + n \<le> b_datalen b")
  case True
  then have "b_head b + b_used b + n \<le> b_datalen b" using assms(4) by simp
  from write_copy_room [OF assms(1-3) this] show ?thesis
    using True payload_length [OF assms(3)] by (auto simp: write_result_def)
next
  case False
  moreover have "b_used b \<le> b_datalen b" using assms(1) by (auto elim: buf_invE)
  ultimately have "b_datalen b - b_used b < n" by simp
  from write_copy_full [OF assms(1) this] show ?thesis
    using False assms(1) by (auto simp: write_result_def)
qed

lemma write_grow:
  assumes inv: "buf_inv b" and data: "b_data b = Some blk" and pay: "payload data n = Some xs"
    and head: "b_head b = 0" and dyn: "is_dynamic b" and n: "n < 2 ^ 63" and m: "bounded_allocator m"
  shows "\<exists>r b'. (case realloc m blk (grown_size b n) of
            None \<Rightarrow> Some (0, b\<lparr>b_head := 0\<rparr>)
          | Some tmp \<Rightarrow> write_copy (b\<lparr>b_data := Some tmp, b_head := 0, b_datalen := grown_size b n\<rparr>)
                         tmp data n) = Some (r, b') \<and>
          write_result (m (grown_size b n) \<noteq> None) b xs r b'"
proof (cases "realloc m blk (grown_size b n)")
  case None
  then have "m (grown_size b n) = None" by (simp add: realloc_def)
  moreover have "b\<lparr>b_head := 0\<rparr> = b" using head by simp
  ultimately show ?thesis using None inv by (auto simp: write_result_def)
next
  case (Some tmp)
  let ?b = "b\<lparr>b_data := Some tmp, b_head := 0, b_datalen := grown_size b n\<rparr>"
  have sz: "b_datalen b + n \<le> grown_size b n" "grown_size b n < 2 ^ 63"
    using grown_size_eq [OF inv n] realloc_bounded [OF m Some] by simp_all
  have b: "buf_inv ?b" "contents ?b = contents b"
    using grown_buffer [OF inv data head Some] sz by simp_all
  have room: "b_used b \<le> b_datalen b" using inv by (auto elim: buf_invE)
  have "m (grown_size b n) \<noteq> None" using Some by (auto simp: realloc_def)
  then show ?thesis
    using write_copy_room [of ?b tmp data n xs] b sz pay room Some payload_length [OF pay] dyn
    by (auto simp: write_result_def)
qed

lemma write_spec:
  assumes inv: "buf_inv b" and part: "\<not> is_partition b" and pay: "payload data n = Some xs"
    and n: "n < 2 ^ 63" and m: "bounded_allocator m"
  shows "\<exists>r b'. switch_buffer_write m b data n = Some (r, b') \<and>
           write_result (write_fits m b n) b xs r b'"
proof (cases "n = 0")
  case True
  then have "xs = []" using payload_length [OF pay] by simp
  moreover from inv obtain blk where "b_data b = Some blk" "b_used b \<le> b_datalen b"
    by (auto elim!: buf_invE)
  ultimately show ?thesis
    using True inv part by (simp add: switch_buffer_write_def write_result_def write_fits_def)
next
  case False
  from inv obtain blk where blk: "b_data b = Some blk" by (rule buf_invE)
  from write_compact_spec [OF inv blk, of n] obtain b1 where b1:
    "write_compact b blk n = Some b1" "buf_inv b1" "contents b1 = contents b"
    "b_used b1 = b_used b" "b_datalen b1 = b_datalen b" "b_max_len b1 = b_max_len b"
    "b_blocksize b1 = b_blocksize b" "b_flags b1 = b_flags b"
    "b_datalen b - b_used b \<ge> n \<longrightarrow> b_head b1 + b_used b1 + n \<le> b_datalen b1"
    "b_datalen b - b_used b < n \<longrightarrow> b_head b1 = 0"
    by blast
  from b1(2) obtain blk1 where blk1: "b_data b1 = Some blk1" by (rule buf_invE)
  have used: "b_used b \<le> b_datalen b" using inv by (auto elim: buf_invE)
  have grow: "wants_growth b1 n \<longleftrightarrow> is_dynamic b \<and> \<not> b_used b + n \<le> b_datalen b \<and>
      (b_max_len b = 0 \<or> b_used b + n \<le> b_max_len b)"
    using buf_inv_no_wrap [OF b1(2) n] b1 used by (auto simp: wants_growth_def)
  have res: "write_result fits b1 xs r b' \<longleftrightarrow> write_result fits b xs r b'" for fits r b'
    using b1 by (simp add: write_result_def)
  show ?thesis
  proof (cases "wants_growth b1 n")
    case True
    then have "write_fits m b n \<longleftrightarrow> m (grown_size b1 n) \<noteq> None" and "b_head b1 = 0" and "is_dynamic b1"
      using grow grown_size_eq [OF b1(2) n] b1 used by (auto simp: write_fits_def)
    then show ?thesis
      using write_grow [OF b1(2) blk1 pay _ _ n m] True False part blk b1(1) blk1
      by (simp add: switch_buffer_write_def res)
  next
    case no: False
    then have "write_fits m b n \<longleftrightarrow> b_used b1 + n \<le> b_datalen b1"
      using grow b1 by (auto simp: write_fits_def)
    then show ?thesis
      using write_in_place [OF b1(2) blk1 pay] no False part blk b1 blk1
      by (simp add: switch_buffer_write_def res)
  qed
qed

lemma write_static:
  assumes "buf_inv b" and "\<not> is_partition b" and "\<not> is_dynamic b"
    and "payload data n = Some xs" and "n < 2 ^ 63" and "bounded_allocator m"
  obtains r b' where "switch_buffer_write m b data n = Some (r, b')" "buf_inv b'"
    "b_flags b' = b_flags b" "b_datalen b' = b_datalen b"
    "r = (if b_used b + n \<le> b_datalen b then b_used b + n else 0)"
    "contents b' = (if b_used b + n \<le> b_datalen b then contents b @ xs else contents b)"
proof -
  from write_spec [OF assms(1,2,4-6)] obtain r b' where
    "switch_buffer_write m b data n = Some (r, b')" "write_result (write_fits m b n) b xs r b'"
    by blast
  moreover have "write_fits m b n \<longleftrightarrow> b_used b + n \<le> b_datalen b"
    using assms(3) by (simp add: write_fits_def)
  ultimately show thesis
    using that [of r b'] assms(3) payload_length [OF assms(4)] by (simp add: write_result_def)
qed

lemma slide_write_spec:
  assumes "buf_inv b" and "\<not> is_partition b" and "\<not> is_dynamic b"
    and "payload data n = Some xs" and "n \<le> b_datalen b" and "bounded_allocator m"
  shows "\<exists>b'. switch_buffer_slide_write m b data n = Some (length (contents b'), b') \<and> buf_inv b' \<and>
           contents b' = (if b_used b + n \<le> b_datalen b then contents b else drop n (contents b)) @ xs"
proof -
  have n: "n < 2 ^ 63" using assms(1,5) by (auto elim: buf_invE)
  from write_static [OF assms(1-4) n assms(6)] obtain r b1 where b1:
    "switch_buffer_write m b data n = Some (r, b1)" "buf_inv b1"
    "b_flags b1 = b_flags b" "b_datalen b1 = b_datalen b"
    "r = (if b_used b + n \<le> b_datalen b then b_used b + n else 0)"
    "contents b1 = (if b_used b + n \<le> b_datalen b then contents b @ xs else contents b)"
    by blast
  show ?thesis
  proof (cases "r = 0")
    case False
    with b1 assms payload_length [OF assms(4)] show ?thesis
      by (auto simp: switch_buffer_slide_write_def split: if_splits)
  next
    case True
    let ?t = "snd (switch_buffer_toss b1 n)"
    have t: "buf_inv ?t" "\<not> is_partition ?t" "\<not> is_dynamic ?t" "b_datalen ?t = b_datalen b"
        "contents ?t = drop n (contents b1)"
      using toss_spec [OF b1(2), of n] b1 assms by simp_all
    have used: "b_used ?t = b_used b1 - n" "b_used b1 = length (contents b1)"
      using t(5) length_contents [OF t(1)] length_contents [OF b1(2)] by simp_all
    have "length (contents b1) \<le> b_datalen b"
      using b1(2,4) by (auto elim!: buf_invE)
    then have fits: "b_used ?t + n \<le> b_datalen ?t"
      using used t(4) assms(5) by linarith
    from write_static [OF t(1-3) assms(4) n assms(6)] obtain r2 b2 where w2:
      "switch_buffer_write m ?t data n = Some (r2, b2)" "buf_inv b2"
      "r2 = (if b_used ?t + n \<le> b_datalen ?t then b_used ?t + n else 0)"
      "contents b2 = (if b_used ?t + n \<le> b_datalen ?t then contents ?t @ xs else contents ?t)"
      by blast
    with fits True b1 t used payload_length [OF assms(4)] assms show ?thesis
      by (auto simp: switch_buffer_slide_write_def split: if_splits)
  qed
qed

lemma read_loop_spec:
  assumes "buf_inv b" and "b_data b = Some blk" and "b_used b = 0"
  shows "\<exists>b'. switch_buffer_read_loop b n =
            (if b_loops b = 0 \<or> b_loops b = 1 then Some (0, [], b')
             else Some (min n (b_actually_used b), take n (take (b_actually_used b) blk), b')) \<and>
           buf_inv b' \<and> b_loops b' = (if b_loops b > 0 then b_loops b - 1 else b_loops b)"
proof -
  let ?l = "if b_loops b > 0 then b_loops b - 1 else b_loops b"
  let ?b = "b\<lparr>b_loops := ?l, b_head := 0, b_used := b_actually_used b\<rparr>"
  have rd: "switch_buffer_read b n = Some (0, [], b)"
    using assms by (simp add: switch_buffer_read_def)
  have inv: "buf_inv ?b" "buf_inv (b\<lparr>b_loops := ?l\<rparr>)"
    and cont: "contents ?b = take (b_actually_used b) blk"
    using assms by (auto elim!: buf_invE simp: buf_inv_def contents_def)
  from read_spec [OF inv(1), of n] cont obtain b' where b':
    "switch_buffer_read ?b n = Some (min n (b_actually_used b), take n (take (b_actually_used b) blk), b')"
    "buf_inv b'" "b_loops b' = ?l"
    by auto
  show ?thesis
  proof (cases "b_loops b = 0 \<or> b_loops b = 1")
    case True
    then show ?thesis
      using rd inv(2) assms(1) by (auto simp: switch_buffer_read_loop_def Let_def)
  next
    case False
    then show ?thesis
      using rd b' by (cases "b_loops b > 0") (auto simp: switch_buffer_read_loop_def Let_def)
  qed
qed

section \<open>The byte stream interface\<close>

text \<open>
  What users of a buffer rely on: a write stores all of its bytes or none, a read removes a
  prefix.  Under these two laws any sequence of writes and reads is a byte stream.
\<close>

datatype buffer_op = Put "byte list" | Get nat

fun run_ops ::
  "('b \<Rightarrow> byte list \<Rightarrow> (switch_size \<times> 'b) option)
   \<Rightarrow> ('b \<Rightarrow> switch_size \<Rightarrow> (switch_size \<times> byte list \<times> 'b) option)
   \<Rightarrow> 'b \<Rightarrow> buffer_op list \<Rightarrow> (byte list \<times> byte list \<times> 'b) option" where
  "run_ops put get b [] = Some ([], [], b)"
| "run_ops put get b (Put xs # ops) =
     (case put b xs of None \<Rightarrow> None | Some (r, b1) \<Rightarrow>
        (case run_ops put get b1 ops of None \<Rightarrow> None | Some (acc, out, b2) \<Rightarrow>
           Some ((if r = 0 then [] else xs) @ acc, out, b2)))"
| "run_ops put get b (Get n # ops) =
     (case get b n of None \<Rightarrow> None | Some (_, bytes, b1) \<Rightarrow>
        (case run_ops put get b1 ops of None \<Rightarrow> None | Some (acc, out, b2) \<Rightarrow>
           Some (acc, bytes @ out, b2)))"

definition op_size_ok :: "buffer_op \<Rightarrow> bool" where
  "op_size_ok op = (case op of Put xs \<Rightarrow> length xs < 2 ^ 63 | Get _ \<Rightarrow> True)"

locale byte_fifo =
  fixes inv :: "'b \<Rightarrow> bool"
    and unread :: "'b \<Rightarrow> byte list"
    and put :: "'b \<Rightarrow> byte list \<Rightarrow> (switch_size \<times> 'b) option"
    and get :: "'b \<Rightarrow> switch_size \<Rightarrow> (switch_size \<times> byte list \<times> 'b) option"
  assumes put_law: "inv b \<Longrightarrow> length xs < 2 ^ 63 \<Longrightarrow>
      \<exists>r b'. put b xs = Some (r, b') \<and> inv b' \<and> unread b' = unread b @ (if r = 0 then [] else xs)"
    and get_law: "inv b \<Longrightarrow>
      \<exists>b'. get b n = Some (min n (length (unread b)), take n (unread b), b') \<and> inv b' \<and>
           unread b' = drop n (unread b)"
begin

lemma stream:
  "inv b \<Longrightarrow> list_all op_size_ok ops \<Longrightarrow>
   \<exists>acc out b'. run_ops put get b ops = Some (acc, out, b') \<and> inv b' \<and>
     out @ unread b' = unread b @ acc"
proof (induction ops arbitrary: b)
  case Nil
  then show ?case by simp
next
  case (Cons op ops)
  show ?case
  proof (cases op)
    case (Put xs)
    with Cons.prems obtain r b1 where b1: "put b xs = Some (r, b1)" "inv b1"
        "unread b1 = unread b @ (if r = 0 then [] else xs)"
      using put_law [of b xs] by (auto simp: op_size_ok_def)
    with Cons.IH [of b1] Cons.prems Put show ?thesis by auto
  next
    case (Get n)
    from Cons.prems obtain b1 where b1: "get b n = Some (min n (length (unread b)), take n (unread b), b1)"
        "inv b1" "unread b1 = drop n (unread b)"
      using get_law [of b n] by auto
    from Cons.IH [OF b1(2)] Cons.prems obtain acc out b' where
      "run_ops put get b1 ops = Some (acc, out, b')" "inv b'" "out @ unread b' = unread b1 @ acc"
      by auto
    moreover from this b1(3) have "(take n (unread b) @ out) @ unread b' = unread b @ acc"
      by (metis append.assoc append_take_drop_id)
    ultimately show ?thesis using Get b1 by auto
  qed
qed

end

text \<open>The buffer is such a stream for every allocator that obeys \<^verbatim>\<open>PTRDIFF_MAX\<close>.\<close>

definition stream_inv :: "switch_buffer \<Rightarrow> bool" where
  "stream_inv b \<longleftrightarrow> buf_inv b \<and> \<not> is_partition b"

definition buffer_put :: "allocator \<Rightarrow> switch_buffer \<Rightarrow> byte list \<Rightarrow> (switch_size \<times> switch_buffer) option" where
  "buffer_put m b xs = switch_buffer_write m b (Some xs) (length xs)"

locale c_heap =
  fixes m :: allocator
  assumes bounded: "bounded_allocator m"

lemma buffer_byte_fifo:
  assumes bounded: "bounded_allocator m"
  shows "byte_fifo stream_inv contents (buffer_put m) switch_buffer_read"
proof
  fix b :: switch_buffer and xs :: "byte list"
  assume "stream_inv b" and "length xs < 2 ^ 63"
  moreover have "payload (Some xs) (length xs) = Some xs"
    by (simp add: payload_def mem_simps)
  ultimately obtain r b' where "buffer_put m b xs = Some (r, b')"
      "write_result (write_fits m b (length xs)) b xs r b'"
    using write_spec [of b "Some xs" "length xs" xs m] bounded
    by (auto simp: stream_inv_def buffer_put_def)
  with \<open>stream_inv b\<close> show "\<exists>r b'. buffer_put m b xs = Some (r, b') \<and> stream_inv b' \<and>
      contents b' = contents b @ (if r = 0 then [] else xs)"
    by (auto simp: write_result_def stream_inv_def split: if_splits)
next
  fix b :: switch_buffer and n :: switch_size
  assume "stream_inv b"
  then show "\<exists>b'. switch_buffer_read b n = Some (min n (length (contents b)), take n (contents b), b') \<and>
      stream_inv b' \<and> contents b' = drop n (contents b)"
    using read_spec [of b n] by (auto simp: stream_inv_def)
qed

sublocale c_heap \<subseteq> heap: byte_fifo stream_inv contents "buffer_put m" switch_buffer_read
  by (rule buffer_byte_fifo [OF bounded])

text \<open>A heap that serves every request below \<^verbatim>\<open>PTRDIFF_MAX\<close> and hands out zero bytes.\<close>

definition zero_heap :: allocator where
  "zero_heap n = (if n < 2 ^ 63 then Some (\<lambda>_. 0) else None)"

interpretation zh: c_heap zero_heap
  by unfold_locales (simp add: bounded_allocator_def zero_heap_def)

section \<open>Construction\<close>

lemma create_dynamic_spec:
  assumes "bounded_allocator m" and "blocksize < 2 ^ 63"
    and "switch_buffer_create_dynamic m i sz blocksize start_len max_len = (st, Some b, i')"
  shows "buf_inv b" and "contents b = []" and "is_dynamic b" and "\<not> is_partition b"
    and "b_max_len b = max_len" and "b_datalen b = (if start_len = 0 then 250 else start_len)"
  using assms
  by (auto simp: switch_buffer_create_dynamic_def Let_def buf_inv_def contents_def zero_buffer_def
        switch_set_flag_def switch_test_flag_def bounded_allocator_def malloc_def
      split: option.splits if_splits)

lemma buffer_create_spec:
  assumes "bounded_allocator m" and "switch_buffer_create m i sz max_len = (st, Some b, i')"
  shows "buf_inv b" and "contents b = []" and "\<not> is_dynamic b" and "\<not> is_partition b"
    and "b_datalen b = max_len"
  using assms
  by (auto simp: switch_buffer_create_def buf_inv_def contents_def zero_buffer_def
        switch_test_flag_def bounded_allocator_def split: if_splits)

section \<open>Properties\<close>

text \<open>The buffer of the witnesses: six bytes, two consumed, two unread, growing in steps of two.\<close>

definition sample_buffer :: switch_buffer where
  "sample_buffer = zero_buffer\<lparr>b_data := Some [1, 2, 3, 4, 5, 6], b_head := 2, b_used := 2,
     b_actually_used := 4, b_datalen := 6, b_blocksize := 2, b_flags := SWITCH_BUFFER_FLAG_DYNAMIC\<rparr>"

lemmas sample_buffer_simps = sample_buffer_def zero_buffer_def switch_test_flag_def

text \<open>
  C8: \<^verbatim>\<open>switch_buffer_write\<close> never leaves its block, keeps the buffer well formed, and either
  appends the whole payload to the unread bytes and returns their new number, or, where the
  payload has no room and the block cannot grow, returns 0 and changes no unread byte.
\<close>
theorem buffer_write_appends:
  assumes "bounded_allocator m" and "buf_inv b" and "\<not> is_partition b"
    and "n \<le> length src" and "n < 2 ^ 63"
  shows "\<exists>r b'. switch_buffer_write m b (Some src) n = Some (r, b') \<and> buf_inv b' \<and>
           (if write_fits m b n then r = b_used b + n \<and> contents b' = contents b @ take n src
            else r = 0 \<and> contents b' = contents b)"
proof -
  have "payload (Some src) n = Some (take n src)"
    using assms(4) by (simp add: payload_def mem_simps)
  from write_spec [OF assms(2,3) this assms(5,1)] show ?thesis
    using assms(4) by (cases "write_fits m b n") (auto simp: write_result_def min_def)
qed

theorem buffer_write_appends_witness:
  "\<exists>b'. switch_buffer_write zero_heap sample_buffer (Some [7, 8, 9, 10, 11]) 5 = Some (7, b') \<and>
        contents b' = [3, 4, 7, 8, 9, 10, 11]"
  using buffer_write_appends [of zero_heap sample_buffer 5 "[7, 8, 9, 10, 11]"] zh.bounded
  by (auto simp: sample_buffer_simps buf_inv_def write_fits_def zero_heap_def contents_def)

text \<open>
  C9: Any sequence of writes and reads on a buffer is a byte stream: it never fails, and what
  was read followed by what is still unread is what was unread at the start followed by the
  bytes of the writes that were accepted, in order, with no byte lost, repeated or reordered.
\<close>
theorem buffer_stream:
  assumes "bounded_allocator m" and "stream_inv b" and "list_all op_size_ok ops"
  shows "\<exists>acc out b'. run_ops (buffer_put m) switch_buffer_read b ops = Some (acc, out, b') \<and>
           stream_inv b' \<and> out @ contents b' = contents b @ acc"
  using byte_fifo.stream [OF buffer_byte_fifo [OF assms(1)] assms(2,3)] .

theorem buffer_stream_witness:
  "\<exists>acc out b'. run_ops (buffer_put zero_heap) switch_buffer_read sample_buffer
        [Put [7, 8, 9], Get 4, Put [10], Get 9] = Some (acc, out, b') \<and>
      stream_inv b' \<and> out @ contents b' = contents sample_buffer @ acc"
  using buffer_stream [of zero_heap sample_buffer "[Put [7, 8, 9], Get 4, Put [10], Get 9]"] zh.bounded
  by (auto simp: sample_buffer_simps buf_inv_def stream_inv_def op_size_ok_def)

text \<open>
  On a fixed-size buffer \<^verbatim>\<open>switch_buffer_slide_write\<close> of a payload no larger than the block
  always succeeds: the payload ends up last, after all older bytes where they fit, and
  otherwise after the older bytes less the first \<open>n\<close> of them.
\<close>
theorem buffer_slide_write_keeps_newest:
  assumes "bounded_allocator m" and "buf_inv b" and "\<not> is_partition b" and "\<not> is_dynamic b"
    and "n \<le> b_datalen b" and "n \<le> length src"
  shows "\<exists>b'. switch_buffer_slide_write m b (Some src) n = Some (length (contents b'), b') \<and>
           buf_inv b' \<and>
           contents b' = (if b_used b + n \<le> b_datalen b then contents b else drop n (contents b))
                         @ take n src"
  using slide_write_spec [OF assms(2-4) _ assms(5,1), of "Some src" "take n src"] assms(6)
  by (simp add: payload_def mem_simps)

theorem buffer_slide_write_keeps_newest_witness:
  "\<exists>b'. switch_buffer_slide_write zero_heap (sample_buffer\<lparr>b_flags := 0\<rparr>) (Some [7, 8, 9, 10, 11]) 5
          = Some (5, b') \<and> contents b' = [7, 8, 9, 10, 11]"
proof -
  let ?s = "sample_buffer\<lparr>b_flags := 0\<rparr>"
  have "buf_inv ?s" "\<not> is_partition ?s" "\<not> is_dynamic ?s" "b_datalen ?s = 6" "b_used ?s = 2"
    "contents ?s = [3, 4]"
    by (simp_all add: sample_buffer_simps buf_inv_def contents_def)
  then show ?thesis
    using buffer_slide_write_keeps_newest [of zero_heap ?s 5 "[7, 8, 9, 10, 11]"] zh.bounded
    by auto
qed

text \<open>
  \<^verbatim>\<open>switch_buffer_freespace\<close> wraps around on a dynamic buffer that was created with a
  \<^verbatim>\<open>start_len\<close> above its \<^verbatim>\<open>max_len\<close>: such a buffer accepts more than \<^verbatim>\<open>max_len\<close> bytes without
  growing, and then reports almost \<open>2 ^ 64\<close> bytes of free space.
\<close>
theorem buffer_freespace_wraps:
  assumes "bounded_allocator m" and "blocksize < 2 ^ 63"
    and "switch_buffer_create_dynamic m i sz blocksize start_len max_len = (st, Some b, i')"
    and "0 < max_len" and "max_len < length xs" and "length xs \<le> start_len" and "length xs < 2 ^ 63"
  shows "\<exists>b'. switch_buffer_write m b (Some xs) (length xs) = Some (length xs, b') \<and>
              switch_buffer_freespace b' = 2 ^ 64 - (length xs - max_len)"
proof -
  note b = create_dynamic_spec [OF assms(1-3)]
  have used: "b_used b = 0" using b(2) length_contents [OF b(1)] by simp
  then have fits: "write_fits m b (length xs)"
    using b(6) assms(5,6) by (auto simp: write_fits_def split: if_splits)
  have "payload (Some xs) (length xs) = Some xs" by (simp add: payload_def mem_simps)
  from write_spec [OF b(1,4) this assms(7,1)] obtain b' where b':
    "switch_buffer_write m b (Some xs) (length xs) = Some (length xs, b')" "buf_inv b'"
    "contents b' = contents b @ xs" "b_flags b' = b_flags b" "b_max_len b' = max_len"
    using fits used b(5) by (auto simp: write_result_def)
  have "b_used b' = length xs" using length_contents [OF b'(2)] b(2) b'(3) by simp
  with b' b(3) assms(4,5,7) show ?thesis
    by (simp add: switch_buffer_freespace_def sz_sub_wraps)
qed

theorem buffer_freespace_wraps_witness:
  "\<exists>b'. switch_buffer_write zero_heap
          (the (fst (snd (switch_buffer_create_dynamic zero_heap 0 88 1 8 4)))) (Some [1, 2, 3, 4, 5, 6]) 6
        = Some (6, b') \<and> switch_buffer_freespace b' = 2 ^ 64 - 2"
proof -
  have "switch_buffer_create_dynamic zero_heap 0 88 1 8 4 =
      (SWITCH_STATUS_SUCCESS, Some (the (fst (snd (switch_buffer_create_dynamic zero_heap 0 88 1 8 4)))), 1)"
    by (simp add: switch_buffer_create_dynamic_def zero_heap_def malloc_def Let_def)
  moreover have len: "length [1, 2, 3, 4, 5, 6 :: byte] = 6" by simp
  ultimately show ?thesis
    using buffer_freespace_wraps [OF zh.bounded, of 1 0 88 8 4 SWITCH_STATUS_SUCCESS _ 1
        "[1, 2, 3, 4, 5, 6]", unfolded len]
    by simp
qed

end
