(* ===== verification/Queue.thy ===== *)
theory Queue
  imports Prelude
begin

text \<open>
  The bounded thread-safe queue of \<^verbatim>\<open>src/switch_apr_queue.c\<close>: a ring of pointers under one
  mutex with two condition variables.  The ring refines a bounded first-in first-out list.
  Threads that call the queue concurrently are a step relation in which each stretch of code between
  taking and giving up the mutex is one step; the invariants hold for all interleavings.
  The mutex and condition calls of the runtime library are taken to succeed.
\<close>

section \<open>The ring\<close>

datatype apr_status = APR_SUCCESS | APR_EOF | APR_EAGAIN | APR_EINTR | APR_TIMEUP

record 'a switch_apr_queue =
  data :: "'a option list"
  nelts :: nat
  q_in :: nat
  q_out :: nat
  bounds :: nat
  full_waiters :: nat
  empty_waiters :: nat
  terminated :: bool

definition apr_queue_full :: "'a switch_apr_queue \<Rightarrow> bool" where
  "apr_queue_full q \<longleftrightarrow> nelts q = bounds q"

definition apr_queue_empty :: "'a switch_apr_queue \<Rightarrow> bool" where
  "apr_queue_empty q \<longleftrightarrow> nelts q = 0"

definition switch_apr_queue_create :: "nat \<Rightarrow> 'a switch_apr_queue" where
  "switch_apr_queue_create queue_capacity =
     \<lparr>data = replicate queue_capacity None, nelts = 0, q_in = 0, q_out = 0, bounds = queue_capacity,
      full_waiters = 0, empty_waiters = 0, terminated = False\<rparr>"

text \<open>Lines common to the pushing and to the popping functions.\<close>

definition put_data :: "'a \<Rightarrow> 'a switch_apr_queue \<Rightarrow> 'a switch_apr_queue" where
  "put_data x q =
     q\<lparr>data := (data q)[q_in q := Some x], q_in := (q_in q + 1) mod bounds q, nelts := nelts q + 1\<rparr>"

definition get_data :: "'a switch_apr_queue \<Rightarrow> 'a option \<times> 'a switch_apr_queue" where
  "get_data q = (data q ! q_out q, q\<lparr>nelts := nelts q - 1, q_out := (q_out q + 1) mod bounds q\<rparr>)"

definition switch_apr_queue_size :: "'a switch_apr_queue \<Rightarrow> nat" where
  "switch_apr_queue_size q = nelts q"

text \<open>The functions that do not block, for a caller that is alone.\<close>

definition switch_apr_queue_trypush ::
  "'a switch_apr_queue \<Rightarrow> 'a \<Rightarrow> apr_status \<times> 'a switch_apr_queue" where
  "switch_apr_queue_trypush q x =
     (if terminated q then (APR_EOF, q)
      else if apr_queue_full q then (APR_EAGAIN, q)
      else (APR_SUCCESS, put_data x q))"

definition switch_apr_queue_trypop ::
  "'a switch_apr_queue \<Rightarrow> apr_status \<times> 'a option \<times> 'a switch_apr_queue" where
  "switch_apr_queue_trypop q =
     (if terminated q then (APR_EOF, None, q)
      else if apr_queue_empty q then (APR_EAGAIN, None, q)
      else (let (x, q') = get_data q in (APR_SUCCESS, x, q')))"

section \<open>The ring is a bounded list\<close>

definition contents :: "'a switch_apr_queue \<Rightarrow> 'a list" where
  "contents q = map (\<lambda>i. the (data q ! ((q_out q + i) mod bounds q))) [0..<nelts q]"

definition q_inv :: "'a switch_apr_queue \<Rightarrow> bool" where
  "q_inv q \<longleftrightarrow> length (data q) = bounds q \<and> nelts q \<le> bounds q \<and>
     (0 < bounds q \<longrightarrow> q_out q < bounds q \<and> q_in q = (q_out q + nelts q) mod bounds q) \<and>
     (\<forall>i < nelts q. data q ! ((q_out q + i) mod bounds q) \<noteq> None)"

lemma ring_length [simp]: "length (contents q) = nelts q"
  by (simp add: contents_def)

lemma create_queue: "q_inv (switch_apr_queue_create n)" "contents (switch_apr_queue_create n) = []"
  "bounds (switch_apr_queue_create n) = n"
  by (simp_all add: q_inv_def contents_def switch_apr_queue_create_def)

lemma contents_updates [simp]:
  "contents (q\<lparr>full_waiters := n\<rparr>) = contents q" "contents (q\<lparr>empty_waiters := n\<rparr>) = contents q"
  "contents (q\<lparr>terminated := b\<rparr>) = contents q"
  "q_inv (q\<lparr>full_waiters := n\<rparr>) = q_inv q" "q_inv (q\<lparr>empty_waiters := n\<rparr>) = q_inv q"
  "q_inv (q\<lparr>terminated := b\<rparr>) = q_inv q"
  by (simp_all add: contents_def q_inv_def)

lemma put_contents:
  assumes "q_inv q" "\<not> apr_queue_full q"
  shows "q_inv (put_data x q)" "contents (put_data x q) = contents q @ [x]" "bounds (put_data x q) = bounds q"
proof -
  have b: "nelts q < bounds q" using assms by (simp add: q_inv_def apr_queue_full_def)
  have len: "length (data q) = bounds q" and out: "q_in q = (q_out q + nelts q) mod bounds q"
    "q_out q < bounds q"
    using assms(1) b by (auto simp: q_inv_def)
  have old: "(data q)[q_in q := Some x] ! ((q_out q + i) mod bounds q) = data q ! ((q_out q + i) mod bounds q)"
    if "i < nelts q" for i
    using ring_distinct [OF that b, of "q_out q"] out by simp
  have new: "(data q)[q_in q := Some x] ! ((q_out q + nelts q) mod bounds q) = Some x"
    using out b len by simp
  show "contents (put_data x q) = contents q @ [x]"
    using old new by (simp add: contents_def put_data_def)
  have "(data q)[q_in q := Some x] ! ((q_out q + i) mod bounds q) \<noteq> None" if "i < Suc (nelts q)" for i
    using that old [of i] new assms(1) by (cases "i = nelts q") (auto simp: q_inv_def)
  moreover have "(q_in q + 1) mod bounds q = (q_out q + Suc (nelts q)) mod bounds q"
    using out by (simp add: mod_Suc_eq)
  ultimately show "q_inv (put_data x q)"
    using len out b by (simp add: q_inv_def put_data_def)
qed (simp add: put_data_def)

lemma get_contents:
  assumes "q_inv q" "\<not> apr_queue_empty q"
  obtains x q' where "get_data q = (Some x, q')" "q_inv q'" "contents q = x # contents q'"
    "bounds q' = bounds q" "full_waiters q' = full_waiters q" "empty_waiters q' = empty_waiters q"
    "terminated q' = terminated q" "nelts q' = nelts q - 1"
proof -
  have n: "0 < nelts q" using assms(2) by (simp add: apr_queue_empty_def)
  then have b: "0 < bounds q" "q_out q < bounds q" using assms(1) by (auto simp: q_inv_def)
  have "data q ! q_out q \<noteq> None" using assms(1) n b by (auto simp: q_inv_def dest!: spec [of _ 0])
  then obtain x where x: "data q ! q_out q = Some x" by auto
  let ?q = "q\<lparr>nelts := nelts q - 1, q_out := (q_out q + 1) mod bounds q\<rparr>"
  have shift: "((q_out q + 1) mod bounds q + i) mod bounds q = (q_out q + Suc i) mod bounds q" for i
    by (simp add: mod_simps)
  have ups: "[0..<nelts q] = 0 # map Suc [0..<nelts q - 1]"
    using n by (metis Suc_pred' map_Suc_upt upt_conv_Cons)
  have "contents q = x # contents ?q"
    unfolding contents_def ups using shift b x by (simp add: comp_def)
  moreover have "q_inv ?q"
  proof -
    obtain m where m: "nelts q = Suc m" using n by (cases "nelts q") auto
    have all: "data q ! ((q_out q + i) mod bounds q) \<noteq> None" if "i < Suc m" for i
      using assms(1) that unfolding q_inv_def m by blast
    have "data q ! (((q_out q + 1) mod bounds q + i) mod bounds q) \<noteq> None" if "i < m" for i
      unfolding shift using all [of "Suc i"] that by simp
    moreover have "q_in q = ((q_out q + 1) mod bounds q + m) mod bounds q"
      unfolding shift using assms(1) b by (simp add: q_inv_def m)
    ultimately show ?thesis
      using assms(1) b by (simp add: q_inv_def m)
  qed
  moreover have "get_data q = (Some x, ?q)" by (simp add: get_data_def x)
  ultimately show ?thesis by (intro that [of x ?q]) simp_all
qed

section \<open>Threads\<close>

datatype 'a op = Push 'a | TryPush 'a | Pop | PopTimeout | TryPop | InterruptAll | Term

text \<open>
  Where a thread is.  \<open>Called\<close>: the unlocked test of \<^verbatim>\<open>terminated\<close> is next.  \<open>Locking\<close>: waiting
  for the mutex.  \<open>Waiting\<close>: in \<^verbatim>\<open>fspr_thread_cond_wait\<close>.  \<open>Woken\<close>: signalled, waiting for the mutex again.
  \<open>TimedOut\<close>: the timed wait ran out, waiting for the mutex.  \<open>Interrupted\<close>: mutex released, the
  second unlocked test of \<^verbatim>\<open>terminated\<close> is next.  \<open>Terminating\<close>: \<^verbatim>\<open>terminated\<close> is set, \<^verbatim>\<open>interrupt_all\<close> is next.
\<close>

datatype 'a pc =
    Idle
  | Called "'a op"
  | Locking "'a op"
  | Waiting "'a op"
  | Woken "'a op"
  | TimedOut
  | Interrupted
  | Terminating
  | Returned apr_status "'a option"

text \<open>How a stretch under the mutex of a pushing or popping function ends, and the signals it sends.\<close>

datatype 'a outcome =
    Blocks "'a switch_apr_queue"
  | Intr "'a switch_apr_queue"
  | Ends "'a switch_apr_queue" apr_status "'a option" bool bool

text \<open>The ends of the functions: store or fetch, signal the other side if it has waiters, unlock.\<close>

definition push_end :: "'a \<Rightarrow> 'a switch_apr_queue \<Rightarrow> 'a outcome" where
  "push_end x q = Ends (put_data x q) APR_SUCCESS None (empty_waiters q \<noteq> 0) False"

definition pop_end :: "'a switch_apr_queue \<Rightarrow> 'a outcome" where
  "pop_end q = (let (x, q') = get_data q in Ends q' APR_SUCCESS x False (full_waiters q \<noteq> 0))"

definition push_locked :: "'a \<Rightarrow> 'a switch_apr_queue \<Rightarrow> 'a outcome" where
  "push_locked x q =
     (if apr_queue_full q
      then (if \<not> terminated q then Blocks (q\<lparr>full_waiters := full_waiters q + 1\<rparr>) else Intr q)
      else push_end x q)"

definition push_woken :: "'a \<Rightarrow> 'a switch_apr_queue \<Rightarrow> 'a outcome" where
  "push_woken x q =
     (let q = q\<lparr>full_waiters := full_waiters q - 1\<rparr> in
      if apr_queue_full q then Intr q else push_end x q)"

definition pop_locked :: "'a switch_apr_queue \<Rightarrow> 'a outcome" where
  "pop_locked q =
     (if apr_queue_empty q
      then (if \<not> terminated q then Blocks (q\<lparr>empty_waiters := empty_waiters q + 1\<rparr>) else Intr q)
      else pop_end q)"

definition pop_woken :: "'a switch_apr_queue \<Rightarrow> 'a outcome" where
  "pop_woken q =
     (let q = q\<lparr>empty_waiters := empty_waiters q - 1\<rparr> in
      if apr_queue_empty q then Intr q else pop_end q)"

definition trypush_locked :: "'a \<Rightarrow> 'a switch_apr_queue \<Rightarrow> 'a outcome" where
  "trypush_locked x q = (if apr_queue_full q then Ends q APR_EAGAIN None False False else push_end x q)"

definition trypop_locked :: "'a switch_apr_queue \<Rightarrow> 'a outcome" where
  "trypop_locked q = (if apr_queue_empty q then Ends q APR_EAGAIN None False False else pop_end q)"

fun locked :: "'a op \<Rightarrow> 'a switch_apr_queue \<Rightarrow> 'a outcome" where
  "locked (Push x) q = push_locked x q"
| "locked (TryPush x) q = trypush_locked x q"
| "locked Pop q = pop_locked q"
| "locked PopTimeout q = pop_locked q"
| "locked TryPop q = trypop_locked q"
| "locked _ q = Ends q APR_SUCCESS None False False"

fun woken :: "'a op \<Rightarrow> 'a switch_apr_queue \<Rightarrow> 'a outcome" where
  "woken (Push x) q = push_woken x q"
| "woken p q = pop_woken q"

text \<open>
  The threads of the process on one queue.  \<open>accepted\<close> and \<open>delivered\<close> record the values stored and fetched, in the
  order the mutex gave; \<open>released\<close> that an \<^verbatim>\<open>interrupt_all\<close> came after the termination.
\<close>

record 'a world =
  queue :: "'a switch_apr_queue"
  pcs :: "nat \<Rightarrow> 'a pc"
  accepted :: "'a list"
  delivered :: "'a list"
  released :: bool

fun pops :: "'a op \<Rightarrow> bool" where
  "pops Pop = True" | "pops PopTimeout = True" | "pops _ = False"

fun pushes_op :: "'a op \<Rightarrow> bool" where
  "pushes_op (Push x) = True" | "pushes_op _ = False"

definition wait_pop :: "'a pc \<Rightarrow> bool" where
  "wait_pop p \<longleftrightarrow> (\<exists>c. p = Waiting c \<and> pops c)"

definition wait_push :: "'a pc \<Rightarrow> bool" where
  "wait_push p \<longleftrightarrow> (\<exists>c. p = Waiting c \<and> pushes_op c)"

definition wake :: "'a pc \<Rightarrow> 'a pc" where
  "wake p = (case p of Waiting c \<Rightarrow> Woken c | _ \<Rightarrow> p)"

text \<open>\<^verbatim>\<open>fspr_thread_cond_signal\<close>: one of the threads that wait becomes ready, if there is one.\<close>

inductive signal :: "('a pc \<Rightarrow> bool) \<Rightarrow> bool \<Rightarrow> (nat \<Rightarrow> 'a pc) \<Rightarrow> (nat \<Rightarrow> 'a pc) \<Rightarrow> bool" for w where
  no_signal: "signal w False f f"
| nobody: "(\<And>t. \<not> w (f t)) \<Longrightarrow> signal w True f f"
| one: "w (f t) \<Longrightarrow> signal w True f (f(t := wake (f t)))"

definition taken :: "'a op \<Rightarrow> apr_status \<Rightarrow> 'a option \<Rightarrow> 'a list" where
  "taken c st x = (if st = APR_SUCCESS then (case x of None \<Rightarrow> [] | Some v \<Rightarrow> [v]) else [])"

definition stored :: "'a op \<Rightarrow> apr_status \<Rightarrow> 'a list" where
  "stored c st = (if st = APR_SUCCESS then (case c of Push x \<Rightarrow> [x] | TryPush x \<Rightarrow> [x] | _ \<Rightarrow> []) else [])"

inductive finish :: "'a op \<Rightarrow> nat \<Rightarrow> 'a outcome \<Rightarrow> 'a world \<Rightarrow> 'a world \<Rightarrow> bool" where
  block: "finish c t (Blocks q) w (w\<lparr>queue := q, pcs := (pcs w)(t := Waiting c)\<rparr>)"
| intr: "finish c t (Intr q) w (w\<lparr>queue := q, pcs := (pcs w)(t := Interrupted)\<rparr>)"
| ends: "signal wait_pop se ((pcs w)(t := Returned st x)) f \<Longrightarrow> signal wait_push sf f f' \<Longrightarrow>
    finish c t (Ends q st x se sf) w
      (w\<lparr>queue := q, pcs := f', accepted := accepted w @ stored c st,
          delivered := delivered w @ taken c st x\<rparr>)"

inductive step :: "'a world \<Rightarrow> 'a world \<Rightarrow> bool" where
  call: "pcs w t = Idle \<or> pcs w t = Returned st x \<Longrightarrow> step w (w\<lparr>pcs := (pcs w)(t := Called c)\<rparr>)"
| refuse: "pcs w t = Called c \<Longrightarrow> c \<noteq> InterruptAll \<Longrightarrow> c \<noteq> Term \<Longrightarrow> terminated (queue w) \<Longrightarrow>
    step w (w\<lparr>pcs := (pcs w)(t := Returned APR_EOF None)\<rparr>)"
| enter: "pcs w t = Called c \<Longrightarrow> c = InterruptAll \<or> c = Term \<or> \<not> terminated (queue w) \<Longrightarrow>
    step w (w\<lparr>pcs := (pcs w)(t := Locking c)\<rparr>)"
| run: "pcs w t = Locking c \<Longrightarrow> c \<noteq> InterruptAll \<Longrightarrow> c \<noteq> Term \<Longrightarrow>
    finish c t (locked c (queue w)) w w' \<Longrightarrow> step w w'"
| spurious: "pcs w t = Waiting c \<Longrightarrow> step w (w\<lparr>pcs := (pcs w)(t := Woken c)\<rparr>)"
| timeout: "pcs w t = Waiting PopTimeout \<Longrightarrow> step w (w\<lparr>pcs := (pcs w)(t := TimedOut)\<rparr>)"
| timeup: "pcs w t = TimedOut \<Longrightarrow>
    step w (w\<lparr>queue := (queue w)\<lparr>empty_waiters := empty_waiters (queue w) - 1\<rparr>,
              pcs := (pcs w)(t := Returned APR_TIMEUP None)\<rparr>)"
| resume: "pcs w t = Woken c \<Longrightarrow> finish c t (woken c (queue w)) w w' \<Longrightarrow> step w w'"
| test: "pcs w t = Interrupted \<Longrightarrow>
    step w (w\<lparr>pcs := (pcs w)(t := Returned (if terminated (queue w) then APR_EOF else APR_EINTR) None)\<rparr>)"
| terminate: "pcs w t = Locking Term \<Longrightarrow>
    step w (w\<lparr>queue := (queue w)\<lparr>terminated := True\<rparr>, pcs := (pcs w)(t := Terminating)\<rparr>)"
| broadcast: "pcs w t = Locking InterruptAll \<or> pcs w t = Terminating \<Longrightarrow>
    step w (w\<lparr>pcs := (\<lambda>s. wake (pcs w s))(t := Returned APR_SUCCESS None),
              released := released w \<or> terminated (queue w)\<rparr>)"

definition start :: "nat \<Rightarrow> 'a world" where
  "start n = \<lparr>queue = switch_apr_queue_create n, pcs = (\<lambda>_. Idle), accepted = [], delivered = [],
     released = False\<rparr>"

inductive reach :: "nat \<Rightarrow> 'a world \<Rightarrow> bool" for n where
  init: "reach n (start n)"
| next_step: "reach n w \<Longrightarrow> step w w' \<Longrightarrow> reach n w'"

section \<open>Counting threads\<close>

definition in_pop :: "'a pc \<Rightarrow> bool" where
  "in_pop p \<longleftrightarrow> p = TimedOut \<or> (\<exists>c. pops c \<and> (p = Waiting c \<or> p = Woken c))"

definition in_push :: "'a pc \<Rightarrow> bool" where
  "in_push p \<longleftrightarrow> (\<exists>c. pushes_op c \<and> (p = Waiting c \<or> p = Woken c))"

definition woken_pop :: "'a pc \<Rightarrow> bool" where
  "woken_pop p \<longleftrightarrow> (\<exists>c. pops c \<and> p = Woken c)"

definition woken_push :: "'a pc \<Rightarrow> bool" where
  "woken_push p \<longleftrightarrow> (\<exists>c. pushes_op c \<and> p = Woken c)"

lemmas pc_classes = in_pop_def in_push_def woken_pop_def woken_push_def wait_pop_def wait_push_def wake_def

definition count :: "('a pc \<Rightarrow> bool) \<Rightarrow> (nat \<Rightarrow> 'a pc) \<Rightarrow> nat" where
  "count P f = card {t. P (f t)}"

definition busy :: "(nat \<Rightarrow> 'a pc) \<Rightarrow> bool" where
  "busy f \<longleftrightarrow> finite {t. f t \<noteq> Idle}"

lemma count_upd:
  assumes "busy f" "\<not> P Idle"
  shows "count P (f(t := p)) + (if P (f t) then 1 else 0) = count P f + (if P p then 1 else 0)"
proof -
  have fin: "finite {s. P (f s)}"
    using assms by (auto simp: busy_def intro: finite_subset [of _ "{t. f t \<noteq> Idle}"])
  define rest where "rest = {s. P (f s)} - {t}"
  have r: "finite rest" "t \<notin> rest" using fin by (simp_all add: rest_def)
  have "{s. P ((f(t := p)) s)} = (if P p then insert t rest else rest)" by (auto simp: rest_def)
  then have "count P (f(t := p)) = card rest + (if P p then 1 else 0)"
    using r by (simp add: count_def)
  moreover have "{s. P (f s)} = (if P (f t) then insert t rest else rest)" by (auto simp: rest_def)
  then have "count P f = card rest + (if P (f t) then 1 else 0)"
    using r by (simp add: count_def)
  ultimately show ?thesis by simp
qed

lemma busy_upd [simp]: "busy f \<Longrightarrow> busy (f(t := p))"
proof -
  assume "busy f"
  moreover have "{s. (f(t := p)) s \<noteq> Idle} \<subseteq> insert t {s. f s \<noteq> Idle}" by auto
  ultimately show ?thesis unfolding busy_def by (metis finite_insert finite_subset)
qed

lemma count_pos: "busy f \<Longrightarrow> \<not> P Idle \<Longrightarrow> P (f t) \<Longrightarrow> 0 < count P f"
proof -
  assume a: "busy f" "\<not> P Idle" "P (f t)"
  then have "finite {s. P (f s)}"
    by (auto simp: busy_def intro: finite_subset [of _ "{t. f t \<noteq> Idle}"])
  with a(3) show ?thesis by (auto simp: count_def card_gt_0_iff)
qed

lemma not_idle [simp]:
  "\<not> in_pop Idle" "\<not> in_push Idle" "\<not> woken_pop Idle" "\<not> woken_push Idle"
  by (simp_all add: pc_classes)

lemma pops_not_push: "pops c \<Longrightarrow> \<not> pushes_op c"
  by (cases c) auto

section \<open>The waiting invariant\<close>

text \<open>
  The waiter counts are exact, and no wake-up is lost: while a thread waits for an element, every
  element there is meant for a thread already woken, and while a thread waits for room,
  so is all the room.  \<open>kp\<close> and \<open>ks\<close> are the elements and slots that a thread which has just left the queue's wait is
  about to use.
\<close>

definition waits :: "nat \<Rightarrow> nat \<Rightarrow> 'a switch_apr_queue \<Rightarrow> (nat \<Rightarrow> 'a pc) \<Rightarrow> bool" where
  "waits kp ks q f \<longleftrightarrow> busy f \<and> empty_waiters q = count in_pop f \<and> full_waiters q = count in_push f \<and>
     (\<forall>t. wait_pop (f t) \<longrightarrow> nelts q \<le> count woken_pop f + kp) \<and>
     (\<forall>t. wait_push (f t) \<longrightarrow> bounds q - nelts q \<le> count woken_push f + ks)"

definition outside :: "'a pc \<Rightarrow> bool" where
  "outside p \<longleftrightarrow> \<not> in_pop p \<and> \<not> in_push p"

lemma outside_simps [simp]:
  "outside Idle" "outside (Called c)" "outside (Locking c)" "outside Interrupted" "outside Terminating"
  "outside (Returned st x)"
  by (simp_all add: outside_def pc_classes)

lemma outside_classes:
  "outside p \<Longrightarrow> \<not> in_pop p" "outside p \<Longrightarrow> \<not> in_push p" "outside p \<Longrightarrow> \<not> woken_pop p"
  "outside p \<Longrightarrow> \<not> woken_push p" "outside p \<Longrightarrow> \<not> wait_pop p" "outside p \<Longrightarrow> \<not> wait_push p"
  by (auto simp: outside_def pc_classes)

lemma count_same: "busy f \<Longrightarrow> \<not> P Idle \<Longrightarrow> P p = P (f t) \<Longrightarrow> count P (f(t := p)) = count P f"
  using count_upd [of f P t p] by (simp split: if_splits)

lemma waits_outside:
  assumes "waits kp ks q f" "outside (f t)" "outside p"
  shows "waits kp ks q (f(t := p))"
  using assms by (auto simp: waits_def outside_classes count_same)

lemma waits_leave_pop:
  assumes "waits 0 0 q f" "f t = Woken c" "pops c" "outside p"
  shows "waits 1 0 (q\<lparr>empty_waiters := empty_waiters q - 1\<rparr>) (f(t := p))"
proof -
  have b: "busy f" using assms(1) by (simp add: waits_def)
  have "in_pop (f t)" "woken_pop (f t)" "\<not> in_push (f t)" "\<not> woken_push (f t)"
    using assms(2,3) pops_not_push by (auto simp: pc_classes)
  then show ?thesis
    using assms count_upd [OF b, of in_pop t p] count_upd [OF b, of woken_pop t p]
      count_same [OF b, of in_push p t] count_same [OF b, of woken_push p t]
    by (auto simp: waits_def outside_classes)
qed

lemma waits_leave_push:
  assumes "waits 0 0 q f" "f t = Woken c" "pushes_op c" "outside p"
  shows "waits 0 1 (q\<lparr>full_waiters := full_waiters q - 1\<rparr>) (f(t := p))"
proof -
  have b: "busy f" using assms(1) by (simp add: waits_def)
  have "in_push (f t)" "woken_push (f t)" "\<not> in_pop (f t)" "\<not> woken_pop (f t)"
    using assms(2,3) pops_not_push by (auto simp: pc_classes)
  then show ?thesis
    using assms count_upd [OF b, of in_push t p] count_upd [OF b, of woken_push t p]
      count_same [OF b, of in_pop p t] count_same [OF b, of woken_pop p t]
    by (auto simp: waits_def outside_classes)
qed

text \<open>What a signal does to the counts.\<close>

lemma wake_classes [simp]: "in_pop (wake p) = in_pop p" "in_push (wake p) = in_push p"
  by (auto simp: pc_classes split: pc.splits)

lemma signal_pop:
  assumes "signal wait_pop b f f'" "busy f"
  shows "busy f' \<and> count in_pop f' = count in_pop f \<and> count in_push f' = count in_push f \<and>
    count woken_push f' = count woken_push f \<and> (\<forall>t. wait_pop (f' t) \<longrightarrow> wait_pop (f t)) \<and>
    (\<forall>t. wait_push (f' t) \<longrightarrow> wait_push (f t)) \<and> (\<forall>t c. f' t = Waiting c \<longrightarrow> f t = Waiting c) \<and>
    (b \<and> (\<exists>t. wait_pop (f t)) \<longrightarrow> count woken_pop f' = count woken_pop f + 1) \<and>
    count woken_pop f \<le> count woken_pop f'"
  using assms(1)
proof cases
  case (one t)
  have "\<not> woken_pop (f t)" "woken_pop (wake (f t))" "\<not> woken_push (f t)" "\<not> woken_push (wake (f t))"
    "\<not> wait_pop (wake (f t))" "\<not> wait_push (wake (f t))" "\<And>c. wake (f t) \<noteq> Waiting c"
    using one(3) by (auto simp: pc_classes dest: pops_not_push)
  then show ?thesis
    using one assms(2) count_upd [OF assms(2), of woken_pop t "wake (f t)"]
      count_same [OF assms(2), of _ "wake (f t)" t]
    by auto
qed (use assms(2) in auto)

lemma signal_push:
  assumes "signal wait_push b f f'" "busy f"
  shows "busy f' \<and> count in_pop f' = count in_pop f \<and> count in_push f' = count in_push f \<and>
    count woken_pop f' = count woken_pop f \<and> (\<forall>t. wait_pop (f' t) \<longrightarrow> wait_pop (f t)) \<and>
    (\<forall>t. wait_push (f' t) \<longrightarrow> wait_push (f t)) \<and> (\<forall>t c. f' t = Waiting c \<longrightarrow> f t = Waiting c) \<and>
    (b \<and> (\<exists>t. wait_push (f t)) \<longrightarrow> count woken_push f' = count woken_push f + 1) \<and>
    count woken_push f \<le> count woken_push f'"
  using assms(1)
proof cases
  case (one t)
  have "\<not> woken_push (f t)" "woken_push (wake (f t))" "\<not> woken_pop (f t)" "\<not> woken_pop (wake (f t))"
    "\<not> wait_pop (wake (f t))" "\<not> wait_push (wake (f t))" "\<And>c. wake (f t) \<noteq> Waiting c"
    using one(3) by (auto simp: pc_classes dest: pops_not_push)
  then show ?thesis
    using one assms(2) count_upd [OF assms(2), of woken_push t "wake (f t)"]
      count_same [OF assms(2), of _ "wake (f t)" t]
    by auto
qed (use assms(2) in auto)

lemma wait_pop_counted: "waits kp ks q f \<Longrightarrow> wait_pop (f t) \<Longrightarrow> empty_waiters q \<noteq> 0"
  using count_pos [of f in_pop t] by (auto simp: waits_def pc_classes)

lemma wait_push_counted: "waits kp ks q f \<Longrightarrow> wait_push (f t) \<Longrightarrow> full_waiters q \<noteq> 0"
  using count_pos [of f in_push t] by (auto simp: waits_def pc_classes)

lemma waits_put:
  assumes "waits 0 1 q f" "signal wait_pop (empty_waiters q \<noteq> 0) f f'"
  shows "waits 0 0 (put_data x q) f'"
proof -
  have b: "busy f" using assms(1) by (simp add: waits_def)
  note sg = signal_pop [OF assms(2) b]
  have "nelts q + 1 \<le> count woken_pop f'" if "wait_pop (f' t)" for t
    using that sg assms(1) wait_pop_counted [OF assms(1), of t] by (auto simp: waits_def)
  moreover have "bounds q - (nelts q + 1) \<le> count woken_push f'" if "wait_push (f' t)" for t
    using that sg assms(1) by (fastforce simp: waits_def)
  ultimately show ?thesis
    using sg assms(1) by (simp add: waits_def put_data_def)
qed

lemma waits_get:
  assumes "waits 1 0 q f" "signal wait_push (full_waiters q \<noteq> 0) f f'" "0 < nelts q"
    and q': "bounds q' = bounds q" "nelts q' = nelts q - 1" "full_waiters q' = full_waiters q"
    "empty_waiters q' = empty_waiters q"
  shows "waits 0 0 q' f'"
proof -
  have b: "busy f" using assms(1) by (simp add: waits_def)
  note sg = signal_push [OF assms(2) b]
  have "bounds q - (nelts q - 1) \<le> count woken_push f'" if "wait_push (f' t)" for t
    using that sg assms(1,3) wait_push_counted [OF assms(1), of t] by (auto simp: waits_def)
  moreover have "nelts q - 1 \<le> count woken_pop f'" if "wait_pop (f' t)" for t
    using that sg assms(1) by (fastforce simp: waits_def)
  ultimately show ?thesis
    using sg assms(1) by (simp add: waits_def q')
qed

lemma waits_mono: "waits kp ks q f \<Longrightarrow> kp \<le> kp' \<Longrightarrow> ks \<le> ks' \<Longrightarrow> waits kp' ks' q f"
  by (fastforce simp: waits_def)

section \<open>All interleavings\<close>

text \<open>The whole invariant: the data, the waiting and the termination.\<close>

definition data_ok :: "nat \<Rightarrow> 'a switch_apr_queue \<Rightarrow> 'a list \<Rightarrow> 'a list \<Rightarrow> bool" where
  "data_ok n q acc del \<longleftrightarrow> q_inv q \<and> bounds q = n \<and> acc = del @ contents q"

definition kinds_ok :: "(nat \<Rightarrow> 'a pc) \<Rightarrow> bool" where
  "kinds_ok f \<longleftrightarrow> (\<forall>t c. f t = Waiting c \<or> f t = Woken c \<longrightarrow> pops c \<or> pushes_op c)"

definition term_ok :: "'a world \<Rightarrow> bool" where
  "term_ok w \<longleftrightarrow> (released w \<longrightarrow> terminated (queue w) \<and> (\<forall>t c. pcs w t \<noteq> Waiting c))"

definition world_inv :: "nat \<Rightarrow> 'a world \<Rightarrow> bool" where
  "world_inv n w \<longleftrightarrow> data_ok n (queue w) (accepted w) (delivered w) \<and> waits 0 0 (queue w) (pcs w) \<and>
     kinds_ok (pcs w) \<and> term_ok w"

text \<open>The step a thread makes that leaves the queue with what it stored or fetched.\<close>

definition leaves :: "nat \<Rightarrow> 'a op \<Rightarrow> nat \<Rightarrow> 'a switch_apr_queue \<Rightarrow> 'a world \<Rightarrow> bool" where
  "leaves n c t q w \<longleftrightarrow> data_ok n q (accepted w) (delivered w) \<and> kinds_ok (pcs w) \<and>
     terminated q = terminated (queue w) \<and> term_ok w \<and>
     (\<forall>p. outside p \<longrightarrow> waits (if pops c then 1 else 0) (if pushes_op c then 1 else 0) q ((pcs w)(t := p)))"

lemma signal_kinds: "signal v b f f' \<Longrightarrow> kinds_ok f \<Longrightarrow> kinds_ok f'"
  by (induction rule: signal.induct) (auto simp: kinds_ok_def wake_def split: pc.splits)

lemma kinds_upd: "kinds_ok f \<Longrightarrow> (\<And>c. p = Waiting c \<or> p = Woken c \<Longrightarrow> pops c \<or> pushes_op c) \<Longrightarrow> kinds_ok (f(t := p))"
  by (auto simp: kinds_ok_def)

lemma no_signal_same: "signal v False f f' \<Longrightarrow> f' = f"
  by (erule signal.cases) auto

lemma put_data_fields [simp]:
  "terminated (put_data x q) = terminated q" "bounds (put_data x q) = bounds q"
  by (simp_all add: put_data_def)

lemma push_end_ok:
  assumes "leaves n c t q w" "finish c t (push_end x q) w w'" "\<not> apr_queue_full q" "\<not> pops c"
    "stored c APR_SUCCESS = [x]"
  shows "world_inv n w'"
proof -
  from assms(2) obtain f where f: "signal wait_pop (empty_waiters q \<noteq> 0) ((pcs w)(t := Returned APR_SUCCESS None)) f"
    and w': "w' = w\<lparr>queue := put_data x q, pcs := f, accepted := accepted w @ stored c APR_SUCCESS,
      delivered := delivered w @ taken c APR_SUCCESS None\<rparr>"
    by (auto simp: push_end_def elim!: finish.cases dest: no_signal_same)
  have "waits (if pops c then 1 else 0) (if pushes_op c then 1 else 0) q
      ((pcs w)(t := Returned APR_SUCCESS None))"
    using assms(1) by (simp add: leaves_def)
  then have "waits 0 1 q ((pcs w)(t := Returned APR_SUCCESS None))"
    by (rule waits_mono) (simp_all add: assms(4))
  then have "waits 0 0 (put_data x q) f" using f by (rule waits_put)
  moreover have "data_ok n (put_data x q) (accepted w') (delivered w')"
    using assms(1,3,5) put_contents [of q x] by (simp add: leaves_def data_ok_def w' taken_def)
  moreover have "kinds_ok f"
    using assms(1) by (intro signal_kinds [OF f] kinds_upd) (auto simp: leaves_def)
  moreover have "term_ok w'"
    using assms(1) f signal_pop [OF f] by (auto simp: leaves_def term_ok_def w' waits_def split: if_splits)
  ultimately show ?thesis by (simp add: world_inv_def w')
qed

lemma pop_end_ok:
  assumes "leaves n c t q w" "finish c t (pop_end q) w w'" "\<not> apr_queue_empty q" "\<not> pushes_op c"
    "stored c APR_SUCCESS = []"
  shows "world_inv n w'"
proof -
  have qi: "q_inv q" using assms(1) by (simp add: leaves_def data_ok_def)
  obtain v q' where v: "get_data q = (Some v, q')" "q_inv q'" "contents q = v # contents q'"
    "bounds q' = bounds q" "full_waiters q' = full_waiters q" "empty_waiters q' = empty_waiters q"
    "terminated q' = terminated q" "nelts q' = nelts q - 1"
    using get_contents [OF qi assms(3)] by blast
  from assms(2) v(1) obtain f where
    f: "signal wait_push (full_waiters q \<noteq> 0) ((pcs w)(t := Returned APR_SUCCESS (Some v))) f"
    and w': "w' = w\<lparr>queue := q', pcs := f, accepted := accepted w @ stored c APR_SUCCESS,
      delivered := delivered w @ taken c APR_SUCCESS (Some v)\<rparr>"
    by (auto simp: pop_end_def elim!: finish.cases dest: no_signal_same)
  have "waits (if pops c then 1 else 0) (if pushes_op c then 1 else 0) q
      ((pcs w)(t := Returned APR_SUCCESS (Some v)))"
    using assms(1) by (simp add: leaves_def)
  then have "waits 1 0 q ((pcs w)(t := Returned APR_SUCCESS (Some v)))"
    by (rule waits_mono) (simp_all add: assms(4))
  then have "waits 0 0 q' f"
    by (rule waits_get [OF _ f _ v(4,8,5,6)]) (use assms(3) in \<open>simp add: apr_queue_empty_def\<close>)
  moreover have "data_ok n q' (accepted w') (delivered w')"
    using assms(1,5) v by (simp add: leaves_def data_ok_def w' taken_def)
  moreover have "kinds_ok f"
    using assms(1) by (intro signal_kinds [OF f] kinds_upd) (auto simp: leaves_def)
  moreover have "term_ok w'"
    using assms(1) f signal_push [OF f] v(7) by (auto simp: leaves_def term_ok_def w' waits_def split: if_splits)
  ultimately show ?thesis by (simp add: world_inv_def w')
qed

lemma leaves_locking:
  assumes "world_inv n w" "outside (pcs w t)"
  shows "leaves n c t (queue w) w"
proof -
  have "waits kp ks (queue w) ((pcs w)(t := p))" if "outside p" for p kp ks
  proof -
    have "waits 0 0 (queue w) ((pcs w)(t := p))"
      using assms that by (intro waits_outside) (simp_all add: world_inv_def)
    then show ?thesis by (rule waits_mono) simp_all
  qed
  then show ?thesis using assms(1) by (simp add: world_inv_def leaves_def)
qed

lemma intr_ok:
  assumes "leaves n c t q w" "finish c t (Intr q) w w'"
    "pops c \<longrightarrow> apr_queue_empty q" "pushes_op c \<longrightarrow> apr_queue_full q"
  shows "world_inv n w'"
proof -
  have w': "w' = w\<lparr>queue := q, pcs := (pcs w)(t := Interrupted)\<rparr>"
    using assms(2) by (cases rule: finish.cases) auto
  have "waits (if pops c then 1 else 0) (if pushes_op c then 1 else 0) q ((pcs w)(t := Interrupted))"
    using assms(1) by (simp add: leaves_def)
  then have "waits 0 0 q ((pcs w)(t := Interrupted))"
    using assms(3,4) by (auto simp: waits_def apr_queue_empty_def apr_queue_full_def split: if_splits)
  then show ?thesis
    using assms(1) by (auto simp: world_inv_def w' leaves_def term_ok_def intro!: kinds_upd)
qed

lemma leaves_woken_pop:
  assumes "world_inv n w" "pcs w t = Woken c" "pops c"
  shows "leaves n c t ((queue w)\<lparr>empty_waiters := empty_waiters (queue w) - 1\<rparr>) w"
  using assms waits_leave_pop [of "queue w" "pcs w" t c] pops_not_push [OF assms(3)]
  by (simp add: world_inv_def leaves_def data_ok_def)

lemma leaves_woken_push:
  assumes "world_inv n w" "pcs w t = Woken c" "pushes_op c"
  shows "leaves n c t ((queue w)\<lparr>full_waiters := full_waiters (queue w) - 1\<rparr>) w"
proof -
  have "\<not> pops c" using assms(3) pops_not_push by blast
  then show ?thesis
    using assms waits_leave_push [of "queue w" "pcs w" t c]
    by (simp add: world_inv_def leaves_def data_ok_def)
qed

lemma waits_block_pop:
  assumes "waits 0 0 q f" "outside (f t)" "pops c" "apr_queue_empty q"
  shows "waits 0 0 (q\<lparr>empty_waiters := empty_waiters q + 1\<rparr>) (f(t := Waiting c))"
proof -
  have b: "busy f" using assms(1) by (simp add: waits_def)
  have "in_pop (Waiting c)" "\<not> in_push (Waiting c)" "\<not> woken_pop (Waiting c)" "\<not> woken_push (Waiting c)"
    "\<not> wait_push (Waiting c)"
    using assms(3) pops_not_push by (auto simp: pc_classes)
  then show ?thesis
    using assms count_upd [OF b, of in_pop t "Waiting c"] count_same [OF b, of _ "Waiting c" t]
    by (auto simp: waits_def outside_classes apr_queue_empty_def)
qed

lemma waits_block_push:
  assumes "waits 0 0 q f" "outside (f t)" "pushes_op c" "apr_queue_full q"
  shows "waits 0 0 (q\<lparr>full_waiters := full_waiters q + 1\<rparr>) (f(t := Waiting c))"
proof -
  have b: "busy f" using assms(1) by (simp add: waits_def)
  have "in_push (Waiting c)" "\<not> in_pop (Waiting c)" "\<not> woken_pop (Waiting c)" "\<not> woken_push (Waiting c)"
    "\<not> wait_pop (Waiting c)"
    using assms(3) pops_not_push by (auto simp: pc_classes)
  then show ?thesis
    using assms count_upd [OF b, of in_push t "Waiting c"] count_same [OF b, of _ "Waiting c" t]
    by (auto simp: waits_def outside_classes apr_queue_full_def)
qed

inductive_cases finish_block: "finish c t (Blocks q) w w'"
inductive_cases finish_ends: "finish c t (Ends q st x se sf) w w'"

lemma push_locked_ok:
  assumes "world_inv n w" "pcs w t = Locking (Push x)" "finish (Push x) t (push_locked x (queue w)) w w'"
  shows "world_inv n w'"
proof (cases "apr_queue_full (queue w)")
  case True
  have lv: "leaves n (Push x) t (queue w) w" using assms(1,2) by (intro leaves_locking) simp_all
  show ?thesis
  proof (cases "terminated (queue w)")
    case False
    then have "w' = w\<lparr>queue := (queue w)\<lparr>full_waiters := full_waiters (queue w) + 1\<rparr>,
        pcs := (pcs w)(t := Waiting (Push x))\<rparr>"
      using assms(3) True by (auto simp: push_locked_def elim: finish_block)
    then show ?thesis
      using assms(1,2) True False waits_block_push [of "queue w" "pcs w" t "Push x"]
      by (auto simp: world_inv_def data_ok_def term_ok_def intro!: kinds_upd)
  qed (use intr_ok [OF lv] assms(3) True in \<open>simp add: push_locked_def\<close>)
next
  case False
  then show ?thesis
    using push_end_ok [OF leaves_locking [OF assms(1)], of t "Push x" x w'] assms(2,3)
    by (simp add: push_locked_def stored_def)
qed

lemma pop_locked_ok:
  assumes "world_inv n w" "pcs w t = Locking c" "pops c" "finish c t (pop_locked (queue w)) w w'"
  shows "world_inv n w'"
proof (cases "apr_queue_empty (queue w)")
  case True
  have lv: "leaves n c t (queue w) w" using assms(1,2) by (intro leaves_locking) simp_all
  show ?thesis
  proof (cases "terminated (queue w)")
    case False
    then have "w' = w\<lparr>queue := (queue w)\<lparr>empty_waiters := empty_waiters (queue w) + 1\<rparr>,
        pcs := (pcs w)(t := Waiting c)\<rparr>"
      using assms(4) True by (auto simp: pop_locked_def elim: finish_block)
    then show ?thesis
      using assms(1-3) True False waits_block_pop [of "queue w" "pcs w" t c]
      by (auto simp: world_inv_def data_ok_def term_ok_def intro!: kinds_upd)
  next
    case True': True
    then show ?thesis
      using intr_ok [OF lv, of w'] assms(3,4) True pops_not_push [OF assms(3)] by (simp add: pop_locked_def)
  qed
next
  case False
  then show ?thesis
  proof -
    have "stored c APR_SUCCESS = []" using assms(3) by (cases c) (simp_all add: stored_def)
    then show ?thesis
      using pop_end_ok [OF leaves_locking [OF assms(1)], of t c w'] False assms(2-4)
        pops_not_push [OF assms(3)]
      by (simp add: pop_locked_def)
  qed
qed

lemma again_ok:
  assumes "world_inv n w" "pcs w t = Locking c" "finish c t (Ends (queue w) APR_EAGAIN None False False) w w'"
  shows "world_inv n w'"
proof -
  have "w' = w\<lparr>pcs := (pcs w)(t := Returned APR_EAGAIN None)\<rparr>"
    using assms(3) by (auto simp: stored_def taken_def elim!: finish_ends dest!: no_signal_same)
  then show ?thesis
    using assms(1,2) waits_outside [of 0 0 "queue w" "pcs w" t "Returned APR_EAGAIN None"]
    by (auto simp: world_inv_def term_ok_def intro!: kinds_upd)
qed

lemma locked_ok:
  assumes "world_inv n w" "pcs w t = Locking c" "c \<noteq> InterruptAll" "c \<noteq> Term"
    "finish c t (locked c (queue w)) w w'"
  shows "world_inv n w'"
proof (cases c)
  case (Push x)
  then show ?thesis using push_locked_ok assms by fastforce
next
  case (TryPush x)
  then show ?thesis
    using again_ok [OF assms(1,2)] push_end_ok [OF leaves_locking [OF assms(1)], of t c x w'] assms(2,5)
    by (auto simp: trypush_locked_def stored_def split: if_splits)
next
  case TryPop
  then show ?thesis
    using again_ok [OF assms(1,2)] pop_end_ok [OF leaves_locking [OF assms(1)], of t c w'] assms(2,5)
    by (auto simp: trypop_locked_def stored_def split: if_splits)
qed (use pop_locked_ok [OF assms(1,2)] assms in auto)

lemma woken_ok:
  assumes "world_inv n w" "pcs w t = Woken c" "finish c t (woken c (queue w)) w w'"
  shows "world_inv n w'"
proof -
  have "pops c \<or> pushes_op c" using assms(1,2) by (auto simp: world_inv_def kinds_ok_def)
  then show ?thesis
  proof
    assume p: "pops c"
    let ?q = "(queue w)\<lparr>empty_waiters := empty_waiters (queue w) - 1\<rparr>"
    have "woken c (queue w) = (if apr_queue_empty ?q then Intr ?q else pop_end ?q)"
      using p by (cases c) (simp_all add: pop_woken_def Let_def)
    moreover have "stored c APR_SUCCESS = []" using p by (cases c) (simp_all add: stored_def)
    ultimately show ?thesis
      using leaves_woken_pop [OF assms(1,2) p] p pops_not_push [OF p] intr_ok [of n c t ?q w w']
        pop_end_ok [of n c t ?q w w'] assms(3)
      by (auto split: if_splits)
  next
    assume p: "pushes_op c"
    then obtain x where c: "c = Push x" by (cases c) auto
    let ?q = "(queue w)\<lparr>full_waiters := full_waiters (queue w) - 1\<rparr>"
    have "woken c (queue w) = (if apr_queue_full ?q then Intr ?q else push_end x ?q)"
      by (simp add: c push_woken_def Let_def)
    then show ?thesis
      using leaves_woken_push [OF assms(1,2) p] intr_ok [of n c t ?q w w'] push_end_ok [of n c t ?q w x w']
        assms(3)
      by (auto simp: c stored_def split: if_splits)
  qed
qed

text \<open>Steps of a thread that neither is nor becomes a waiter.\<close>

lemma move_ok:
  assumes "world_inv n w" "outside (pcs w t)" "outside p" "\<And>c. p \<noteq> Waiting c" "\<And>c. p \<noteq> Woken c"
  shows "world_inv n (w\<lparr>pcs := (pcs w)(t := p)\<rparr>)"
proof -
  have "waits 0 0 (queue w) ((pcs w)(t := p))"
    using assms by (intro waits_outside) (simp_all add: world_inv_def)
  moreover have "kinds_ok ((pcs w)(t := p))"
    using assms(1,4,5) by (intro kinds_upd) (simp_all add: world_inv_def)
  ultimately show ?thesis
    using assms(1,4) by (simp add: world_inv_def term_ok_def)
qed

lemma wake_thread_ok:
  assumes "world_inv n w" "pcs w t = Waiting c"
  shows "world_inv n (w\<lparr>pcs := (pcs w)(t := Woken c)\<rparr>)"
proof -
  have b: "busy (pcs w)" using assms(1) by (simp add: world_inv_def waits_def)
  have "count in_pop ((pcs w)(t := Woken c)) = count in_pop (pcs w)"
    "count in_push ((pcs w)(t := Woken c)) = count in_push (pcs w)"
    using assms(2) by (auto intro!: count_same [OF b] simp: pc_classes)
  moreover have "count woken_pop (pcs w) \<le> count woken_pop ((pcs w)(t := Woken c))"
    "count woken_push (pcs w) \<le> count woken_push ((pcs w)(t := Woken c))"
    using count_upd [OF b, of woken_pop t "Woken c"] count_upd [OF b, of woken_push t "Woken c"] assms(2)
    by (auto simp: pc_classes split: if_splits)
  ultimately have "waits 0 0 (queue w) ((pcs w)(t := Woken c))"
    using assms(1) b unfolding world_inv_def waits_def by (auto simp: pc_classes intro: le_trans)
  then show ?thesis
    using assms by (auto simp: world_inv_def term_ok_def kinds_ok_def)
qed

lemma time_out_ok:
  assumes "world_inv n w" "pcs w t = Waiting PopTimeout"
  shows "world_inv n (w\<lparr>pcs := (pcs w)(t := TimedOut)\<rparr>)"
proof -
  have b: "busy (pcs w)" using assms(1) by (simp add: world_inv_def waits_def)
  have "count in_pop ((pcs w)(t := TimedOut)) = count in_pop (pcs w)"
    "count in_push ((pcs w)(t := TimedOut)) = count in_push (pcs w)"
    "count woken_pop ((pcs w)(t := TimedOut)) = count woken_pop (pcs w)"
    "count woken_push ((pcs w)(t := TimedOut)) = count woken_push (pcs w)"
    using assms(2) by (auto intro!: count_same [OF b] simp: pc_classes intro: exI [of _ PopTimeout])
  then have "waits 0 0 (queue w) ((pcs w)(t := TimedOut))"
    using assms(1) b by (auto simp: world_inv_def waits_def wait_pop_def wait_push_def)
  then show ?thesis
    using assms by (auto simp: world_inv_def term_ok_def kinds_ok_def)
qed

lemma time_up_ok:
  assumes "world_inv n w" "pcs w t = TimedOut"
  shows "world_inv n (w\<lparr>queue := (queue w)\<lparr>empty_waiters := empty_waiters (queue w) - 1\<rparr>,
    pcs := (pcs w)(t := Returned APR_TIMEUP None)\<rparr>)"
proof -
  let ?f = "(pcs w)(t := Returned APR_TIMEUP None)"
  have b: "busy (pcs w)" using assms(1) by (simp add: world_inv_def waits_def)
  have "count in_pop ?f + 1 = count in_pop (pcs w)"
    using count_upd [OF b, of in_pop t "Returned APR_TIMEUP None"] assms(2) by (simp add: pc_classes)
  moreover have "count in_push ?f = count in_push (pcs w)" "count woken_pop ?f = count woken_pop (pcs w)"
    "count woken_push ?f = count woken_push (pcs w)"
    using assms(2) by (auto intro!: count_same [OF b] simp: pc_classes)
  ultimately have "waits 0 0 ((queue w)\<lparr>empty_waiters := empty_waiters (queue w) - 1\<rparr>) ?f"
    using assms(1) b by (auto simp: world_inv_def waits_def wait_pop_def wait_push_def)
  then show ?thesis
    using assms by (auto simp: world_inv_def term_ok_def kinds_ok_def data_ok_def)
qed

lemma wake_not_waiting [simp]: "wake p \<noteq> Waiting c"
  by (simp add: wake_def split: pc.split)

lemma outside_wake: "outside p \<Longrightarrow> outside (wake p)"
  by (simp add: outside_def)

lemma busy_wake: "busy f \<Longrightarrow> busy (\<lambda>s. wake (f s))"
proof -
  have "{t. wake (f t) \<noteq> Idle} = {t. f t \<noteq> Idle}" by (auto simp: wake_def split: pc.splits)
  then show "busy f \<Longrightarrow> busy (\<lambda>s. wake (f s))" by (simp add: busy_def)
qed

lemma broadcast_ok:
  assumes "world_inv n w" "outside (pcs w t)"
  shows "world_inv n (w\<lparr>pcs := (\<lambda>s. wake (pcs w s))(t := Returned APR_SUCCESS None),
    released := released w \<or> terminated (queue w)\<rparr>)"
proof -
  let ?f = "\<lambda>s. wake (pcs w s)"
  have b: "busy (pcs w)" using assms(1) by (simp add: world_inv_def waits_def)
  have "count in_pop ?f = count in_pop (pcs w)" "count in_push ?f = count in_push (pcs w)"
    by (simp_all add: count_def)
  then have "waits 0 0 (queue w) ?f"
    using assms(1) busy_wake [OF b] by (simp add: world_inv_def waits_def wait_pop_def wait_push_def)
  then have "waits 0 0 (queue w) (?f(t := Returned APR_SUCCESS None))"
    by (rule waits_outside) (simp_all add: outside_wake assms(2))
  moreover have "kinds_ok (?f(t := Returned APR_SUCCESS None))"
    using assms(1) by (auto simp: world_inv_def kinds_ok_def wake_def split: pc.splits)
  ultimately show ?thesis
    using assms(1) by (auto simp: world_inv_def term_ok_def)
qed

lemma step_inv: "step w w' \<Longrightarrow> world_inv n w \<Longrightarrow> world_inv n w'"
proof (induction rule: step.induct)
  case (call w t st x c)
  then show ?case by (intro move_ok) auto
next
  case (run w t c w')
  then show ?case using locked_ok by blast
next
  case (resume w t c w')
  then show ?case using woken_ok by blast
next
  case (terminate w t)
  let ?w = "w\<lparr>queue := (queue w)\<lparr>terminated := True\<rparr>\<rparr>"
  have "world_inv n ?w"
    using terminate.prems by (auto simp: world_inv_def data_ok_def waits_def term_ok_def)
  from move_ok [OF this, of t Terminating] terminate.hyps show ?case by simp
next
  case (broadcast w t)
  then show ?case by (intro broadcast_ok) auto
next
  case (timeup w t)
  then show ?case by (intro time_up_ok)
qed (simp_all add: move_ok wake_thread_ok time_out_ok time_up_ok)

lemma start_inv: "world_inv n (start n)"
proof -
  have "empty_waiters (switch_apr_queue_create n) = 0" "full_waiters (switch_apr_queue_create n) = 0"
    by (simp_all add: switch_apr_queue_create_def)
  then show ?thesis
    by (simp add: world_inv_def start_def data_ok_def create_queue waits_def busy_def count_def kinds_ok_def
        term_ok_def wait_pop_def wait_push_def)
qed

lemma reach_inv: "reach n w \<Longrightarrow> world_inv n w"
  by (induction rule: reach.induct) (auto intro: start_inv step_inv)

section \<open>Progress after termination\<close>

text \<open>A bound on the steps a thread still makes in its call, once nobody blocks any more.\<close>

fun rank :: "'a pc \<Rightarrow> nat" where
  "rank (Called c) = 3"
| "rank (Locking c) = 2"
| "rank (Woken c) = 2"
| "rank TimedOut = 1"
| "rank Interrupted = 1"
| "rank Terminating = 1"
| "rank _ = 0"

lemma rank_not_waiting: "0 < rank p \<Longrightarrow> p \<noteq> Waiting c"
  by auto

lemma signal_ex: "\<exists>f'. signal v b f f'"
proof (cases b)
  case True
  then show ?thesis by (cases "\<exists>t. v (f t)") (auto intro: signal.intros)
qed (auto intro: signal.intros)

lemma signal_keeps: "signal v b f f' \<Longrightarrow> (\<And>c. f t \<noteq> Waiting c) \<Longrightarrow> f' t = f t"
  by (induction rule: signal.induct) (auto simp: wake_def split: pc.split)

lemma finish_ex: "\<exists>w'. finish c t oc w w'"
proof (cases oc)
  case (Ends q st x se sf)
  obtain f f' where "signal wait_pop se ((pcs w)(t := Returned st x)) f" "signal wait_push sf f f'"
    using signal_ex by blast
  then show ?thesis unfolding Ends by (blast intro: finish.ends)
qed (auto intro: finish.intros)

lemma finish_pcs:
  assumes "finish c t oc w w'"
  shows "s \<noteq> t \<Longrightarrow> (\<And>c. pcs w s \<noteq> Waiting c) \<Longrightarrow> pcs w' s = pcs w s"
    and "pcs w' t = (case oc of Blocks q \<Rightarrow> Waiting c | Intr q \<Rightarrow> Interrupted | Ends q st x se sf \<Rightarrow> Returned st x)"
  using assms
proof (induction rule: finish.induct)
  case (ends se w t st x f sf f' c q)
  {
    case 1
    then have "f s = pcs w s" using signal_keeps [OF ends(1), of s] by simp
    then show ?case using signal_keeps [OF ends(2), of s] 1 by simp
  next
    case 2
    have "f t = Returned st x" using signal_keeps [OF ends(1), of t] by simp
    then show ?case using signal_keeps [OF ends(2), of t] by simp
  }
qed simp_all

lemma locked_no_block: "terminated q \<Longrightarrow> locked c q \<noteq> Blocks q'"
  by (cases c) (auto simp: push_locked_def pop_locked_def trypush_locked_def trypop_locked_def push_end_def
      pop_end_def split: prod.split)

lemma woken_no_block: "woken c q \<noteq> Blocks q'"
  by (cases c) (auto simp: push_woken_def pop_woken_def push_end_def pop_end_def Let_def split: prod.split)

lemma finish_rank:
  assumes "finish c t oc w w'" "\<And>q. oc \<noteq> Blocks q"
  shows "rank (pcs w' t) < 2"
  using finish_pcs(2) [OF assms(1)] assms(2) by (cases oc) auto

lemma step_rank:
  assumes "step w w'" "terminated (queue w)" "0 < rank (pcs w t)"
  shows "pcs w' t = pcs w t \<or> rank (pcs w' t) < rank (pcs w t)"
  using assms
proof (induction rule: step.induct)
  case (run w s c w')
  show ?case
  proof (cases "s = t")
    case True
    with run finish_rank [OF run.hyps(4)] locked_no_block show ?thesis by auto
  next
    case False
    then show ?thesis using rank_not_waiting [OF run.prems(2)] finish_pcs(1) [OF run.hyps(4), of t] by simp
  qed
next
  case (resume w s c w')
  show ?case
  proof (cases "s = t")
    case True
    with resume finish_rank [OF resume.hyps(2)] woken_no_block show ?thesis by auto
  next
    case False
    then show ?thesis using rank_not_waiting [OF resume.prems(2)] finish_pcs(1) [OF resume.hyps(2), of t] by simp
  qed
next
  case (broadcast w s)
  then show ?case by (cases "pcs w t") (auto simp: wake_def)
qed auto

lemma step_exI:
  "step w w' \<Longrightarrow> rank (pcs w' t) < rank (pcs w t) \<Longrightarrow> \<exists>w'. step w w' \<and> rank (pcs w' t) < rank (pcs w t)"
  by blast

lemma step_ex:
  assumes "terminated (queue w)" "0 < rank (pcs w t)"
  shows "\<exists>w'. step w w' \<and> rank (pcs w' t) < rank (pcs w t)"
proof (cases "pcs w t")
  case (Called c)
  show ?thesis
  proof (cases "c = InterruptAll \<or> c = Term")
    case True
    then have "step w (w\<lparr>pcs := (pcs w)(t := Locking c)\<rparr>)" using Called by (intro step.enter) auto
    then show ?thesis by (rule step_exI) (simp add: Called)
  next
    case False
    then have "step w (w\<lparr>pcs := (pcs w)(t := Returned APR_EOF None)\<rparr>)"
      using Called assms(1) by (intro step.refuse) auto
    then show ?thesis by (rule step_exI) (simp add: Called)
  qed
next
  case (Locking c)
  show ?thesis
  proof (cases "c = InterruptAll \<or> c = Term")
    case True
    then show ?thesis
      using Locking step.broadcast [of w t] step.terminate [of w t] by fastforce
  next
    case False
    obtain w' where "finish c t (locked c (queue w)) w w'" using finish_ex by blast
    then show ?thesis
      using False Locking step.run [of w t c w'] finish_rank [of c t "locked c (queue w)" w w']
        locked_no_block [OF assms(1), of c] by auto
  qed
next
  case (Woken c)
  obtain w' where "finish c t (woken c (queue w)) w w'" using finish_ex by blast
  then show ?thesis
    using Woken step.resume [of w t c w'] finish_rank [of c t "woken c (queue w)" w w'] woken_no_block by auto
next
  case TimedOut
  from step.timeup [OF this] show ?thesis by (rule step_exI) (simp add: TimedOut)
next
  case Interrupted
  from step.test [OF this] show ?thesis by (rule step_exI) (simp add: Interrupted)
next
  case Terminating
  from step.broadcast [OF disjI2 [OF this]] show ?thesis by (rule step_exI) (simp add: Terminating)
qed (use assms(2) in auto)

section \<open>The interface of a bounded queue\<close>

locale bounded_fifo =
  fixes inv :: "'q \<Rightarrow> bool" and items :: "'q \<Rightarrow> 'a list" and room :: "'q \<Rightarrow> nat"
    and trypush :: "'q \<Rightarrow> 'a \<Rightarrow> apr_status \<times> 'q" and trypop :: "'q \<Rightarrow> apr_status \<times> 'a option \<times> 'q"
  assumes trypush_stores: "inv q \<Longrightarrow> length (items q) < room q \<Longrightarrow>
      \<exists>q'. trypush q x = (APR_SUCCESS, q') \<and> inv q' \<and> items q' = items q @ [x] \<and> room q' = room q"
    and trypush_full: "inv q \<Longrightarrow> length (items q) = room q \<Longrightarrow> trypush q x = (APR_EAGAIN, q)"
    and within: "inv q \<Longrightarrow> length (items q) \<le> room q"
    and trypop_takes: "inv q \<Longrightarrow> items q = x # xs \<Longrightarrow>
      \<exists>q'. trypop q = (APR_SUCCESS, Some x, q') \<and> inv q' \<and> items q' = xs \<and> room q' = room q"
    and trypop_empty: "inv q \<Longrightarrow> items q = [] \<Longrightarrow> trypop q = (APR_EAGAIN, None, q)"

interpretation ring: bounded_fifo "\<lambda>q. q_inv q \<and> \<not> terminated q" contents bounds
  switch_apr_queue_trypush switch_apr_queue_trypop
proof
  fix q :: "'a switch_apr_queue" and x xs
  assume q: "q_inv q \<and> \<not> terminated q"
  show "length (contents q) < bounds q \<Longrightarrow> \<exists>q'. switch_apr_queue_trypush q x = (APR_SUCCESS, q') \<and>
      (q_inv q' \<and> \<not> terminated q') \<and> contents q' = contents q @ [x] \<and> bounds q' = bounds q"
    using q put_contents [of q x] by (simp add: switch_apr_queue_trypush_def apr_queue_full_def)
  show "length (contents q) = bounds q \<Longrightarrow> switch_apr_queue_trypush q x = (APR_EAGAIN, q)"
    using q by (simp add: switch_apr_queue_trypush_def apr_queue_full_def)
  show "length (contents q) \<le> bounds q" using q by (simp add: q_inv_def)
  show "contents q = [] \<Longrightarrow> switch_apr_queue_trypop q = (APR_EAGAIN, None, q)"
    using q by (simp add: switch_apr_queue_trypop_def apr_queue_empty_def contents_def)
  show "\<exists>q'. switch_apr_queue_trypop q = (APR_SUCCESS, Some x, q') \<and> (q_inv q' \<and> \<not> terminated q') \<and>
      contents q' = xs \<and> bounds q' = bounds q" if c: "contents q = x # xs"
  proof -
    have ne: "\<not> apr_queue_empty q" using c ring_length [of q] by (auto simp: apr_queue_empty_def simp del: ring_length)
    have "q_inv q" using q by simp
    then obtain v q' where "get_data q = (Some v, q')" "q_inv q'" "contents q = v # contents q'"
      "bounds q' = bounds q" "terminated q' = terminated q"
      using get_contents [OF _ ne] by blast
    then show ?thesis using q c ne by (simp add: switch_apr_queue_trypop_def)
  qed
qed

section \<open>Properties\<close>

text \<open>
  C2: However the threads that push and pop are interleaved, the queue delivers what it accepted, in that
  order, nothing lost and nothing twice: the values accepted are the values delivered followed by
  those in the ring, and the ring never holds more than its capacity.\<close>
theorem queue_fifo:
  assumes "reach n w"
  shows "accepted w = delivered w @ contents (queue w) \<and> length (contents (queue w)) \<le> n \<and> q_inv (queue w)"
  using reach_inv [OF assms] by (auto simp: world_inv_def data_ok_def q_inv_def)

text \<open>A thread that calls a function of the queue and gets the mutex without anything happening in between.\<close>

lemma reach_call:
  assumes "reach n w" "pcs w t = Idle" "\<not> terminated (queue w)" "c \<noteq> InterruptAll" "c \<noteq> Term"
    "finish c t (locked c (queue w)) (w\<lparr>pcs := (pcs w)(t := Locking c)\<rparr>) w'"
  shows "reach n w'"
proof -
  have "reach n (w\<lparr>pcs := (pcs w)(t := Called c)\<rparr>)"
    using reach.next_step [OF assms(1) step.call [of w t]] assms(2) by simp
  from reach.next_step [OF this step.enter [of _ t c]] have "reach n (w\<lparr>pcs := (pcs w)(t := Locking c)\<rparr>)"
    using assms(3) by simp
  from reach.next_step [OF this step.run [of _ t c w']] show ?thesis using assms(4-6) by simp
qed

text \<open>Two threads wait for an element of an empty queue; a third one pushes one and wakes the first.\<close>

definition waiting_world :: "nat world" where
  "waiting_world = (start 2)\<lparr>queue := (switch_apr_queue_create 2)\<lparr>empty_waiters := 2\<rparr>,
     pcs := (\<lambda>_. Idle)(1 := Waiting Pop, 2 := Waiting Pop)\<rparr>"

definition woken_world :: "nat world" where
  "woken_world = waiting_world\<lparr>queue := put_data 7 (queue waiting_world), accepted := [7],
     pcs := (\<lambda>_. Idle)(1 := Woken Pop, 2 := Waiting Pop, 0 := Returned APR_SUCCESS None)\<rparr>"

lemma waiting_world: "reach 2 waiting_world"
proof -
  let ?w = "(start 2)\<lparr>queue := (switch_apr_queue_create 2)\<lparr>empty_waiters := 1\<rparr>, pcs := (\<lambda>_. Idle)(1 := Waiting Pop)\<rparr> :: nat world"
  note simps = start_def switch_apr_queue_create_def pop_locked_def apr_queue_empty_def
  have "finish Pop 1 (locked Pop (queue (start 2))) ((start 2)\<lparr>pcs := (pcs (start 2))(1 := Locking Pop)\<rparr>) ?w"
    using finish.block [of Pop 1 "(switch_apr_queue_create 2)\<lparr>empty_waiters := 1\<rparr>" "(start 2)\<lparr>pcs := (pcs (start 2))(1 := Locking Pop)\<rparr>"]
    by (simp add: simps)
  then have w: "reach 2 ?w" by (rule reach_call [OF reach.init, rotated 4]) (simp_all add: simps)
  have "finish Pop 2 (locked Pop (queue ?w)) (?w\<lparr>pcs := (pcs ?w)(2 := Locking Pop)\<rparr>) waiting_world"
    using finish.block [of Pop 2 "(switch_apr_queue_create 2)\<lparr>empty_waiters := 2\<rparr>" "?w\<lparr>pcs := (pcs ?w)(2 := Locking Pop)\<rparr>"]
    by (simp add: simps waiting_world_def eval_nat_numeral)
  then show ?thesis by (rule reach_call [OF w, rotated 4]) (simp_all add: simps)
qed

lemma woken_world: "reach 2 woken_world"
proof -
  let ?f = "(pcs waiting_world)(0 := Returned APR_SUCCESS None)"
  have "signal wait_pop True ?f (?f(1 := wake (?f 1)))"
    by (rule signal.one) (simp add: waiting_world_def wait_pop_def)
  then have "finish (Push 7) 0 (Ends (put_data 7 (queue waiting_world)) APR_SUCCESS None True False)
      (waiting_world\<lparr>pcs := (pcs waiting_world)(0 := Locking (Push 7))\<rparr>) woken_world"
    using finish.ends [where w = "waiting_world\<lparr>pcs := (pcs waiting_world)(0 := Locking (Push 7))\<rparr>" and t = 0 and st = APR_SUCCESS
        and x = None and c = "Push 7" and q = "put_data 7 (queue waiting_world)", OF _ signal.no_signal]
    by (simp add: waiting_world_def woken_world_def wake_def start_def stored_def taken_def fun_upd_twist)
  moreover have "locked (Push 7) (queue waiting_world) = Ends (put_data 7 (queue waiting_world)) APR_SUCCESS None True False"
    by (simp add: waiting_world_def push_locked_def push_end_def apr_queue_full_def switch_apr_queue_create_def)
  ultimately show ?thesis
    by (intro reach_call [OF waiting_world, where t = 0 and c = "Push 7"]) (simp_all add: waiting_world_def switch_apr_queue_create_def)
qed

lemma queue_fifo_witness:
  "accepted woken_world = [7] \<and> delivered woken_world = [] \<and> contents (queue woken_world) = [7] \<and> length (contents (queue woken_world)) \<le> 2"
proof -
  have "accepted woken_world = [7]" "delivered woken_world = []" by (simp_all add: woken_world_def waiting_world_def start_def)
  with queue_fifo [OF woken_world] show ?thesis by simp
qed

text \<open>
  C17: No wake-up is lost: while a thread is blocked in a pop, every element in the queue is matched by a thread
  that has been woken and is about to run, and while a thread is blocked in a push, so is every
  free slot; the waiter counts the signals depend on are exact.\<close>
theorem queue_no_lost_wakeup:
  assumes "reach n w"
  shows "(wait_pop (pcs w t) \<longrightarrow> nelts (queue w) \<le> count woken_pop (pcs w)) \<and>
    (wait_push (pcs w t) \<longrightarrow> bounds (queue w) - nelts (queue w) \<le> count woken_push (pcs w)) \<and>
    empty_waiters (queue w) = count in_pop (pcs w) \<and> full_waiters (queue w) = count in_push (pcs w)"
  using reach_inv [OF assms] by (auto simp: world_inv_def waits_def)

lemma queue_no_lost_wakeup_witness:
  "(let w = waiting_world in wait_pop (pcs w 2) \<and> nelts (queue w) = 0 \<and> empty_waiters (queue w) = 2 \<and> count in_pop (pcs w) = 2) \<and>
   (let w = woken_world in wait_pop (pcs w 2) \<and> nelts (queue w) = 1 \<and> 1 \<le> count woken_pop (pcs w) \<and> count in_pop (pcs w) = 2)"
proof -
  have "wait_pop (pcs waiting_world 2)" "wait_pop (pcs woken_world 2)" "nelts (queue waiting_world) = 0" "nelts (queue woken_world) = 1"
    "empty_waiters (queue waiting_world) = 2" "empty_waiters (queue woken_world) = 2"
    by (simp_all add: waiting_world_def woken_world_def wait_pop_def put_data_def switch_apr_queue_create_def)
  then show ?thesis
    using queue_no_lost_wakeup [OF waiting_world, of 2] queue_no_lost_wakeup [OF woken_world, of 2] by (simp add: Let_def)
qed

text \<open>
  C20: Termination sets every thread free: once the interrupt of \<^verbatim>\<open>switch_apr_queue_term\<close> has been sent no thread is blocked in
  the queue, each thread inside a call can make a step that brings it closer to its return,
  and no step of any thread takes it further away.\<close>
theorem queue_term_frees_all:
  assumes "reach n w" "released w"
  shows "pcs w t \<noteq> Waiting c \<and>
    (0 < rank (pcs w t) \<longrightarrow>
      (\<exists>w'. step w w' \<and> rank (pcs w' t) < rank (pcs w t)) \<and>
      (\<forall>w'. step w w' \<longrightarrow> pcs w' t = pcs w t \<or> rank (pcs w' t) < rank (pcs w t)))"
proof -
  have "terminated (queue w)" "pcs w t \<noteq> Waiting c"
    using reach_inv [OF assms(1)] assms(2) by (auto simp: world_inv_def term_ok_def)
  then show ?thesis using step_ex step_rank by blast
qed

definition sample_terminated :: "nat world" where
  "sample_terminated = (start 1)\<lparr>queue := (queue (start 1))\<lparr>terminated := True\<rparr>,
     released := True, pcs := (\<lambda>_. Idle)(0 := Returned APR_SUCCESS None, 1 := Called Pop)\<rparr>"

lemma sample_terminated: "reach 1 sample_terminated"
proof -
  let ?at = "\<lambda>p. (\<lambda>_. Idle)(0 := p) :: nat \<Rightarrow> nat pc"
  let ?w = "start 1 :: nat world"
  let ?t = "(queue ?w)\<lparr>terminated := True\<rparr>"
  have idle: "pcs (start n :: nat world) = (\<lambda>_. Idle)" for n by (simp add: start_def)
  have 1: "reach 1 (?w\<lparr>pcs := ?at (Called Term)\<rparr>)"
    using reach.next_step [OF reach.init step.call [of ?w 0]] by (simp add: idle)
  have 2: "reach 1 (?w\<lparr>pcs := ?at (Locking Term)\<rparr>)"
    using reach.next_step [OF 1 step.enter [of _ 0 Term]] by simp
  have 3: "reach 1 (?w\<lparr>queue := ?t, pcs := ?at Terminating\<rparr>)"
    using reach.next_step [OF 2 step.terminate [of _ 0]] by simp
  have "(\<lambda>s. wake (?at Terminating s))(0 := Returned APR_SUCCESS None) = ?at (Returned APR_SUCCESS None)"
    by (auto simp: wake_def fun_eq_iff)
  then have 4: "reach 1 (?w\<lparr>queue := ?t, pcs := ?at (Returned APR_SUCCESS None), released := True\<rparr>)"
    using reach.next_step [OF 3 step.broadcast [of _ 0]] by simp
  show ?thesis
    using reach.next_step [OF 4 step.call [of _ 1 _ _ Pop]] by (simp add: sample_terminated_def)
qed

lemma queue_term_frees_all_witness:
  "reach 1 sample_terminated \<and> (\<exists>w'. step sample_terminated w' \<and> rank (pcs w' 1) < 3)"
  using queue_term_frees_all [OF sample_terminated, of 1] sample_terminated
  by (auto simp: sample_terminated_def)

end
