(* ===== verification/Portalloc.thy ===== *)
theory Portalloc
  imports Prelude
begin

text \<open>
  The media port allocator, \<^verbatim>\<open>src/switch_core_port_allocator.c\<close>.  A slot of the track table is 1 when
  its port is in use, 0 when it is free, and negative while a port that was given back or
  failed a test rests.  The random numbers and the results of the socket tests are
  parameters.  Ports and counts are naturals with the 16 and 32 bit arithmetic written out.
\<close>

unbundle bit_operations_syntax

section \<open>The allocator\<close>

definition SPF_ODD :: u32 where "SPF_ODD = 1"
definition SPF_EVEN :: u32 where "SPF_EVEN = 2"
definition SPF_ROBUST_TCP :: u32 where "SPF_ROBUST_TCP = 4"
definition SPF_ROBUST_UDP :: u32 where "SPF_ROBUST_UDP = 8"

lemmas spf_flags = SPF_ODD_def SPF_EVEN_def SPF_ROBUST_TCP_def SPF_ROBUST_UDP_def

record switch_core_port_allocator =
  pa_start :: nat
  pa_end :: nat
  track :: "int list"
  track_len :: nat
  track_used :: nat
  pa_flags :: u32

definition port_add :: "nat \<Rightarrow> nat \<Rightarrow> nat" where
  "port_add a b = (a + b) mod 65536"

definition round_start :: "bool \<Rightarrow> bool \<Rightarrow> nat \<Rightarrow> nat" where
  "round_start even_only odd_only start =
     (if even_only \<and> odd start \<or> odd_only \<and> even start then port_add start 1 else start)"

definition round_end :: "bool \<Rightarrow> bool \<Rightarrow> nat \<Rightarrow> nat" where
  "round_end even_only odd_only en =
     (if even_only \<and> odd en \<or> odd_only \<and> even en then port_add en 65535 else en)"

text \<open>\<open>runtime_flags\<close> is \<^verbatim>\<open>runtime.port_alloc_flags\<close>.  The difference is computed as an \<^verbatim>\<open>int\<close> and stored as
  \<^verbatim>\<open>uint32_t\<close>.\<close>

definition switch_core_port_allocator_new ::
  "u32 \<Rightarrow> nat \<Rightarrow> nat \<Rightarrow> u32 \<Rightarrow> switch_core_port_allocator" where
  "switch_core_port_allocator_new runtime_flags start en fl =
     (let even = switch_test_flag fl SPF_EVEN;
          odd = switch_test_flag fl SPF_ODD;
          start = (if even \<and> odd then start else round_start even (\<not> even \<and> odd) start);
          en = (if even \<and> odd then en else round_end even (\<not> even \<and> odd) en);
          len = nat ((int en - int start + 2) mod 2 ^ 32);
          len = (if even \<and> odd then len else len div 2)
      in \<lparr>pa_start = start, pa_end = en, track = replicate (len + 2) 0, track_len = len, track_used = 0,
          pa_flags = fl OR runtime_flags\<rparr>)"

section \<open>Requests\<close>

text \<open>
  The walk up the list from a random slot; \<open>n\<close> is the number of tries left.  The result says
  whether it stopped at a free slot before the tries ran out.
\<close>

fun walk :: "nat \<Rightarrow> nat \<Rightarrow> int list \<Rightarrow> nat \<Rightarrow> int list \<times> nat \<times> bool" where
  "walk len 0 tr index = (tr, index, False)"
| "walk len (Suc n) tr index =
     (if tr ! index = 0 then (tr, index, True)
      else walk len n (if tr ! index < 0 then tr[index := tr ! index + 1] else tr)
             (if index + 1 \<ge> len then 0 else index + 1))"

definition both_parities :: "switch_core_port_allocator \<Rightarrow> bool" where
  "both_parities a \<longleftrightarrow> switch_test_flag (pa_flags a) SPF_EVEN \<and> switch_test_flag (pa_flags a) SPF_ODD"

definition slot_port :: "switch_core_port_allocator \<Rightarrow> nat \<Rightarrow> nat" where
  "slot_port a index =
     (if both_parities a then (index + pa_start a) mod 65536
      else ((index + pa_start a div 2) mod 65536 * 2) mod 65536)"

text \<open>\<open>probe kind port\<close> is the result of \<^verbatim>\<open>test_port\<close> in this round.\<close>

datatype sock_kind = SOCK_DGRAM | SOCK_STREAM

definition port_passes :: "switch_core_port_allocator \<Rightarrow> (sock_kind \<Rightarrow> nat \<Rightarrow> bool) \<Rightarrow> nat \<Rightarrow> bool" where
  "port_passes a probe port =
     (let r = True;
          r = (if pa_flags a AND SPF_ROBUST_UDP \<noteq> 0 then probe SOCK_DGRAM port else r);
          r = (if pa_flags a AND SPF_ROBUST_TCP \<noteq> 0 then probe SOCK_STREAM port else r)
      in r)"

text \<open>
  The loop of \<^verbatim>\<open>switch_core_port_allocator_request_port\<close>: in round \<open>k\<close> the random number is \<open>rnd k\<close> and the tests
  give \<open>probe k\<close>.  \<open>None\<close> means that the fuel did not suffice.
\<close>

fun request_loop :: "(nat \<Rightarrow> nat) \<Rightarrow> (nat \<Rightarrow> sock_kind \<Rightarrow> nat \<Rightarrow> bool) \<Rightarrow> nat \<Rightarrow> nat \<Rightarrow>
    switch_core_port_allocator \<Rightarrow> (switch_status \<times> nat \<times> switch_core_port_allocator) option" where
  "request_loop rnd probe 0 k a = None"
| "request_loop rnd probe (Suc fuel) k a =
     (if track_used a < track_len a then
        (let (tr, index, found) = walk (track_len a) (track_len a) (track a) (rnd k mod track_len a);
             port = slot_port a index
         in if \<not> found then request_loop rnd probe fuel (Suc k) (a\<lparr>track := tr\<rparr>)
            else if port_passes a (probe k) port then
              Some (SWITCH_STATUS_SUCCESS, port,
                a\<lparr>track := tr[index := 1], track_used := track_used a + 1\<rparr>)
            else request_loop rnd probe fuel (Suc k) (a\<lparr>track := tr[index := -4]\<rparr>))
      else Some (SWITCH_STATUS_FALSE, 0, a))"

definition switch_core_port_allocator_request_port ::
  "(nat \<Rightarrow> nat) \<Rightarrow> (nat \<Rightarrow> sock_kind \<Rightarrow> nat \<Rightarrow> bool) \<Rightarrow> nat \<Rightarrow> switch_core_port_allocator \<Rightarrow>
   (switch_status \<times> nat \<times> switch_core_port_allocator) option" where
  "switch_core_port_allocator_request_port rnd probe fuel a = request_loop rnd probe fuel 0 a"

section \<open>Giving ports back\<close>

text \<open>\<open>None\<close> is an access outside of the track table, whose block has \<open>track_len + 2\<close> bytes.\<close>

definition switch_core_port_allocator_free_port ::
  "switch_core_port_allocator \<Rightarrow> nat \<Rightarrow> (switch_status \<times> switch_core_port_allocator) option" where
  "switch_core_port_allocator_free_port a port =
     (if port < pa_start a then Some (SWITCH_STATUS_GENERR, a)
      else
        (let index = port - pa_start a;
             index = (if both_parities a then index else index div 2)
         in if index \<ge> length (track a) then None
            else if track a ! index > 0 then
              Some (SWITCH_STATUS_SUCCESS,
                a\<lparr>track := (track a)[index := -4], track_used := track_used a - 1\<rparr>)
            else Some (SWITCH_STATUS_FALSE, a)))"

section \<open>The invariant\<close>

definition used_slots :: "switch_core_port_allocator \<Rightarrow> nat set" where
  "used_slots a = {i. i < track_len a \<and> track a ! i = 1}"

definition pa_inv :: "switch_core_port_allocator \<Rightarrow> bool" where
  "pa_inv a \<longleftrightarrow> length (track a) = track_len a + 2 \<and>
     (\<forall>i < track_len a. -4 \<le> track a ! i \<and> track a ! i \<le> 1) \<and>
     (\<forall>i. track_len a \<le> i \<longrightarrow> i < track_len a + 2 \<longrightarrow> track a ! i = 0) \<and>
     track_used a = card (used_slots a)"

text \<open>What a walk does to the slots.\<close>

definition aged :: "int \<Rightarrow> int \<Rightarrow> bool" where
  "aged x y \<longleftrightarrow> y = x \<or> x < 0 \<and> y = x + 1"

lemma next_slot:
  fixes index len :: nat
  shows "index < len \<Longrightarrow> (if index + 1 \<ge> len then 0 else index + 1) = (index + 1) mod len"
  by (cases "index + 1 = len") auto

lemma walk_length: "walk len n tr index = (tr', index', found) \<Longrightarrow> length tr' = length tr"
  by (induction len n tr index rule: walk.induct) (auto split: if_splits)

lemma walk_index:
  "walk len n tr index = (tr', index', found) \<Longrightarrow> index < len \<Longrightarrow>
   index' < len \<and> (found \<longrightarrow> tr' ! index' = 0)"
  by (induction len n tr index rule: walk.induct) (auto split: if_splits)

lemma walk_frame:
  "walk len n tr index = (tr', index', found) \<Longrightarrow> index < len \<Longrightarrow>
   (\<And>i. i < n \<Longrightarrow> p \<noteq> (index + i) mod len) \<Longrightarrow> tr' ! p = tr ! p"
proof (induction len n tr index rule: walk.induct)
  case (2 len n tr index)
  let ?i = "if index + 1 \<ge> len then 0 else index + 1"
  have ne: "p \<noteq> index" using 2(4) [of 0] 2(3) by simp
  show ?case
  proof (cases "tr ! index = 0")
    case False
    have "tr' ! p = (if tr ! index < 0 then tr[index := tr ! index + 1] else tr) ! p"
    proof (rule 2(1) [OF False])
      show "walk len n (if tr ! index < 0 then tr[index := tr ! index + 1] else tr) ?i = (tr', index', found)"
        using 2(2) False by simp
      show "?i < len" using 2(3) by auto
      show "p \<noteq> (?i + i) mod len" if "i < n" for i
        using 2(4) [of "Suc i"] that next_slot [OF 2(3)] by (simp add: mod_simps)
    qed
    with ne show ?thesis by simp
  qed (use 2(2) in simp)
qed simp

lemma walk_aged:
  "walk len n tr index = (tr', index', found) \<Longrightarrow> index < len \<Longrightarrow> n \<le> len \<Longrightarrow> len \<le> length tr \<Longrightarrow>
   (\<forall>p. aged (tr ! p) (tr' ! p)) \<and>
   (\<not> found \<longrightarrow> (\<forall>i < n. tr ! ((index + i) mod len) \<noteq> 0 \<and>
      (tr ! ((index + i) mod len) < 0 \<longrightarrow> tr' ! ((index + i) mod len) = tr ! ((index + i) mod len) + 1)))"
proof (induction len n tr index rule: walk.induct)
  case (2 len n tr index)
  let ?i = "if index + 1 \<ge> len then 0 else index + 1"
  let ?tr = "if tr ! index < 0 then tr[index := tr ! index + 1] else tr"
  show ?case
  proof (cases "tr ! index = 0")
    case True
    with 2(2) show ?thesis by (auto simp: aged_def)
  next
    case False
    have w: "walk len n ?tr ?i = (tr', index', found)" using 2(2) False by simp
    have i: "?i < len" "?i = (index + 1) mod len" using 2(3) next_slot [OF 2(3)] by auto
    have shift: "(?i + j) mod len = (index + Suc j) mod len" for j
      unfolding i(2) by (simp add: mod_simps)
    have apart: "index \<noteq> (index + Suc j) mod len" if "j < n" for j
      using ring_distinct [of 0 "Suc j" len index] that 2(3,4) by simp
    have same: "?tr ! ((index + Suc j) mod len) = tr ! ((index + Suc j) mod len)" if "j < n" for j
      using apart [OF that] by simp
    from 2(1) [OF False w i(1)] 2(4,5) have IH: "\<forall>p. aged (?tr ! p) (tr' ! p)"
      "\<not> found \<longrightarrow> (\<forall>j < n. ?tr ! ((?i + j) mod len) \<noteq> 0 \<and>
        (?tr ! ((?i + j) mod len) < 0 \<longrightarrow> tr' ! ((?i + j) mod len) = ?tr ! ((?i + j) mod len) + 1))"
      by simp_all
    have at_index: "tr' ! index = ?tr ! index"
      by (rule walk_frame [OF w i(1)]) (use apart shift in auto)
    have "aged (tr ! p) (tr' ! p)" for p
    proof (cases "p = index")
      case True
      then show ?thesis using at_index 2(3,5) by (simp add: aged_def)
    next
      case False
      then have "?tr ! p = tr ! p" by simp
      then show ?thesis using spec [OF IH(1), of p] by (rule subst)
    qed
    moreover have "tr ! ((index + j) mod len) \<noteq> 0 \<and>
        (tr ! ((index + j) mod len) < 0 \<longrightarrow> tr' ! ((index + j) mod len) = tr ! ((index + j) mod len) + 1)"
      if "\<not> found" "j < Suc n" for j
    proof (cases j)
      case 0
      then show ?thesis using False at_index 2(3,5) by simp
    next
      case (Suc m)
      then have "m < n" using that by simp
      from mp [OF spec [OF mp [OF IH(2) that(1)], of m] this] show ?thesis
        unfolding Suc shift same [OF \<open>m < n\<close>] .
    qed
    ultimately show ?thesis by blast
  qed
qed (simp add: aged_def)

section \<open>Slots\<close>

lemma finite_used [simp]: "finite (used_slots a)"
  by (simp add: used_slots_def)

lemma aged_inv:
  assumes "pa_inv a" "length tr = length (track a)" "\<And>p. aged (track a ! p) (tr ! p)"
  shows "pa_inv (a\<lparr>track := tr\<rparr>)" "used_slots (a\<lparr>track := tr\<rparr>) = used_slots a"
proof -
  have "tr ! p = 1 \<longleftrightarrow> track a ! p = 1" for p using assms(3) [of p] by (auto simp: aged_def)
  then show u: "used_slots (a\<lparr>track := tr\<rparr>) = used_slots a" by (simp add: used_slots_def)
  have "-4 \<le> tr ! i \<and> tr ! i \<le> 1" if "i < track_len a" for i
    using assms(1) assms(3) [of i] that unfolding pa_inv_def aged_def by force
  moreover have "tr ! i = 0" if "track_len a \<le> i" "i < track_len a + 2" for i
    using assms(1) assms(3) [of i] that unfolding pa_inv_def aged_def by force
  ultimately show "pa_inv (a\<lparr>track := tr\<rparr>)"
    using assms(1,2) u by (simp add: pa_inv_def)
qed

lemma set_slot_range:
  assumes "pa_inv a" "i < track_len a" "-4 \<le> x" "x \<le> 1"
  shows "(\<forall>j < track_len a. -4 \<le> (track a)[i := x] ! j \<and> (track a)[i := x] ! j \<le> 1) \<and>
    (\<forall>j. track_len a \<le> j \<longrightarrow> j < track_len a + 2 \<longrightarrow> (track a)[i := x] ! j = 0) \<and>
    length ((track a)[i := x]) = track_len a + 2"
  using assms by (auto simp: pa_inv_def nth_list_update)

lemma used_set_slot:
  assumes "pa_inv a" "i < track_len a"
  shows "used_slots (a\<lparr>track := (track a)[i := x], track_used := n\<rparr>) =
    (if x = 1 then insert i (used_slots a) else used_slots a - {i})"
  using assms by (auto simp: used_slots_def pa_inv_def nth_list_update split: if_splits)

lemma set_slot:
  assumes "pa_inv a" "i < track_len a" "-4 \<le> x" "x \<le> 1"
    and "n = card (if x = 1 then insert i (used_slots a) else used_slots a - {i})"
  shows "pa_inv (a\<lparr>track := (track a)[i := x], track_used := n\<rparr>)"
  using set_slot_range [OF assms(1-4)] used_set_slot [OF assms(1,2), where x = x and n = n] assms(5)
  by (simp add: pa_inv_def)

lemma not_used: "pa_inv a \<Longrightarrow> track a ! i \<noteq> 1 \<Longrightarrow> i \<notin> used_slots a"
  by (simp add: used_slots_def)

definition same_shape :: "switch_core_port_allocator \<Rightarrow> switch_core_port_allocator \<Rightarrow> bool" where
  "same_shape a b \<longleftrightarrow> pa_start a = pa_start b \<and> pa_end a = pa_end b \<and> track_len a = track_len b \<and> pa_flags a = pa_flags b"

lemma slot_port_shape: "same_shape a b \<Longrightarrow> slot_port a = slot_port b"
  by (auto simp: same_shape_def slot_port_def both_parities_def fun_eq_iff)

lemma port_passes_shape: "same_shape a b \<Longrightarrow> port_passes a = port_passes b"
  by (simp add: same_shape_def port_passes_def fun_eq_iff)

text \<open>One walk, from a well-formed allocator that has a free port.\<close>

lemma walk_spec:
  assumes "pa_inv a" "0 < track_len a"
    and w: "walk (track_len a) (track_len a) (track a) (r mod track_len a) = (tr, index, found)"
  shows "pa_inv (a\<lparr>track := tr\<rparr>)" "used_slots (a\<lparr>track := tr\<rparr>) = used_slots a" "index < track_len a"
    "found \<Longrightarrow> tr ! index = 0"
    "\<not> found \<Longrightarrow> i < track_len a \<Longrightarrow> track a ! i \<noteq> 0 \<and> (track a ! i < 0 \<longrightarrow> tr ! i = track a ! i + 1)"
proof -
  let ?n = "track_len a" and ?s = "r mod track_len a"
  have s: "?s < ?n" using assms(2) by simp
  have len: "?n \<le> length (track a)" using assms(1) by (simp add: pa_inv_def)
  note ag = walk_aged [OF w s order.refl len]
  show "pa_inv (a\<lparr>track := tr\<rparr>)" "used_slots (a\<lparr>track := tr\<rparr>) = used_slots a"
    using aged_inv [OF assms(1) walk_length [OF w]] ag by blast+
  show "index < ?n" "found \<Longrightarrow> tr ! index = 0" using walk_index [OF w s] by auto
  assume nf: "\<not> found" and i: "i < ?n"
  let ?j = "(i + (?n - ?s)) mod ?n"
  have "(?s + ?j) mod ?n = (?s + (i + (?n - ?s))) mod ?n" by (simp only: mod_add_right_eq)
  also have "?s + (i + (?n - ?s)) = i + ?n" using s by simp
  finally have "(?s + ?j) mod ?n = i" using i by simp
  moreover have "?j < ?n" using assms(2) by simp
  ultimately show "track a ! i \<noteq> 0 \<and> (track a ! i < 0 \<longrightarrow> tr ! i = track a ! i + 1)"
    using ag nf by metis
qed

text \<open>
  What a request that returns has done: either it took a slot that was not in use, or every
  slot is in use.
\<close>

lemma request_loop_safe:
  assumes "request_loop rnd probe fuel k a = Some (st, port, a')" "pa_inv a"
  shows "pa_inv a' \<and> same_shape a' a \<and>
    ((\<exists>i. st = SWITCH_STATUS_SUCCESS \<and> i < track_len a \<and> i \<notin> used_slots a \<and> port = slot_port a i \<and>
        used_slots a' = insert i (used_slots a)) \<or>
     (st = SWITCH_STATUS_FALSE \<and> port = 0 \<and> used_slots a' = used_slots a \<and> track_used a' \<ge> track_len a))"
  using assms
proof (induction fuel arbitrary: k a)
  case (Suc fuel)
  show ?case
  proof (cases "track_used a < track_len a")
    case False
    with Suc.prems show ?thesis by (auto simp: same_shape_def)
  next
    case True
    then have pos: "0 < track_len a" by simp
    obtain tr index found where
      w: "walk (track_len a) (track_len a) (track a) (rnd k mod track_len a) = (tr, index, found)"
      by (cases "walk (track_len a) (track_len a) (track a) (rnd k mod track_len a)") auto
    let ?a = "a\<lparr>track := tr\<rparr>"
    note ws = walk_spec [OF Suc.prems(2) pos w]
    have sh: "same_shape ?a a" by (simp add: same_shape_def)
    show ?thesis
    proof (cases found)
      case False
      with Suc.prems(1) True w have "request_loop rnd probe fuel (Suc k) ?a = Some (st, port, a')" by simp
      from Suc.IH [OF this ws(1)] ws(2) sh slot_port_shape [OF sh]
      show ?thesis by (simp add: same_shape_def)
    next
      case f: True
      have free: "index \<notin> used_slots ?a" using ws(4) [OF f] by (simp add: used_slots_def)
      have used: "track_used ?a = card (used_slots ?a)" using ws(1) by (simp add: pa_inv_def)
      show ?thesis
      proof (cases "port_passes a (probe k) (slot_port a index)")
        case True': True
        with Suc.prems(1) True w f have
          r: "st = SWITCH_STATUS_SUCCESS" "port = slot_port a index"
            "a' = ?a\<lparr>track := (track ?a)[index := 1], track_used := track_used ?a + 1\<rparr>" by auto
        have "pa_inv a'"
          unfolding r(3) using ws(1,3) free used by (intro set_slot) simp_all
        moreover have "used_slots a' = insert index (used_slots a)"
          unfolding r(3) using used_set_slot [OF ws(1), where i = index and x = 1 and n = "track_used ?a + 1"] ws(2,3) by simp
        ultimately show ?thesis
          using r ws(2,3) free by (auto simp: same_shape_def)
      next
        case False
        let ?b = "?a\<lparr>track := (track ?a)[index := -4], track_used := track_used ?a\<rparr>"
        have b: "pa_inv ?b" using ws(1,3) free used by (intro set_slot) simp_all
        have ub: "used_slots ?b = used_slots a"
          using used_set_slot [OF ws(1), where i = index and x = "-4" and n = "track_used ?a"] ws(2,3) free by simp
        have "request_loop rnd probe fuel (Suc k) ?b = Some (st, port, a')"
          using Suc.prems(1) True w f False by simp
        from Suc.IH [OF this b] ub slot_port_shape [of ?b a]
        show ?thesis by (simp add: same_shape_def)
      qed
    qed
  qed
qed simp

text \<open>
  A walk that finds nothing brings every resting slot one step nearer to zero, so that some
  round finds a free slot when the tests let every port pass.
\<close>

lemma request_loop_returns:
  assumes "pa_inv a" "\<And>k p. port_passes a (probe k) p"
    and "track_used a < track_len a \<Longrightarrow> \<exists>i < track_len a. track a ! i \<le> 0 \<and> - track a ! i \<le> int m"
    and "m < fuel"
  shows "\<exists>r. request_loop rnd probe fuel k a = Some r"
  using assms
proof (induction fuel arbitrary: m k a)
  case (Suc fuel)
  show ?case
  proof (cases "track_used a < track_len a")
    case True
    then have pos: "0 < track_len a" by simp
    obtain i where i: "i < track_len a" "track a ! i \<le> 0" "- track a ! i \<le> int m" using Suc.prems(3) True by blast
    obtain tr index found where
      w: "walk (track_len a) (track_len a) (track a) (rnd k mod track_len a) = (tr, index, found)"
      by (cases "walk (track_len a) (track_len a) (track a) (rnd k mod track_len a)") auto
    show ?thesis
    proof (cases found)
      case True': True
      then show ?thesis using True w Suc.prems(2) by simp
    next
      case False
      note ws = walk_spec [OF Suc.prems(1) pos w]
      have "track a ! i < 0" "tr ! i = track a ! i + 1" using ws(5) [OF False i(1)] i(2) by auto
      then have "tr ! i \<le> 0 \<and> - tr ! i \<le> int (m - 1)" "m \<noteq> 0" using i(3) by auto
      moreover have "port_passes (a\<lparr>track := tr\<rparr>) (probe j) p" for j p
        using Suc.prems(2) port_passes_shape [of "a\<lparr>track := tr\<rparr>" a] by (simp add: same_shape_def)
      ultimately have "\<exists>r. request_loop rnd probe fuel (Suc k) (a\<lparr>track := tr\<rparr>) = Some r"
        using Suc.prems(4) i(1) by (intro Suc.IH [OF ws(1), of "m - 1"]) auto
      then show ?thesis using True w False by simp
    qed
  qed simp
qed simp

lemma free_slot_exists:
  assumes "pa_inv a" "track_used a < track_len a"
  shows "\<exists>i < track_len a. track a ! i \<le> 0 \<and> - track a ! i \<le> int 4"
proof -
  have "used_slots a \<noteq> {..<track_len a}" using assms by (auto simp: pa_inv_def)
  then obtain i where "i < track_len a" "track a ! i \<noteq> 1" by (auto simp: used_slots_def)
  moreover have "-4 \<le> track a ! i \<and> track a ! i \<le> 1" using assms(1) calculation(1) by (simp add: pa_inv_def)
  ultimately show ?thesis by (intro exI [of _ i]) linarith
qed

lemma used_le: "pa_inv a \<Longrightarrow> track_used a \<le> track_len a"
  using card_mono [of "{..<track_len a}" "used_slots a"] by (auto simp: pa_inv_def used_slots_def)

lemma used_full: "pa_inv a \<Longrightarrow> used_slots a = {..<track_len a} \<longleftrightarrow> track_used a = track_len a"
  using card_subset_eq [of "{..<track_len a}" "used_slots a"] by (auto simp: pa_inv_def used_slots_def)

section \<open>Slots and ports\<close>

text \<open>The slot that \<^verbatim>\<open>free_port\<close> computes for a port.\<close>

definition slot_of :: "switch_core_port_allocator \<Rightarrow> nat \<Rightarrow> nat" where
  "slot_of a port = (if both_parities a then port - pa_start a else (port - pa_start a) div 2)"

definition slots_ok :: "switch_core_port_allocator \<Rightarrow> bool" where
  "slots_ok a \<longleftrightarrow> (\<forall>i < track_len a. pa_start a \<le> slot_port a i \<and> slot_of a (slot_port a i) = i)"

lemma slots_ok_shape: "same_shape a b \<Longrightarrow> slots_ok a = slots_ok b"
  using slot_port_shape [of a b] by (simp add: slots_ok_def same_shape_def slot_of_def both_parities_def)

lemma slot_port_inj: "slots_ok a \<Longrightarrow> inj_on (slot_port a) {..<track_len a}"
  by (rule inj_on_inverseI [of _ "slot_of a"]) (simp add: slots_ok_def)

lemma free_port_used:
  assumes "pa_inv a" "slots_ok a" "i \<in> used_slots a"
  shows "\<exists>a'. switch_core_port_allocator_free_port a (slot_port a i) = Some (SWITCH_STATUS_SUCCESS, a') \<and>
    pa_inv a' \<and> same_shape a' a \<and> used_slots a' = used_slots a - {i}"
proof -
  have i: "i < track_len a" "track a ! i = 1" using assms(3) by (auto simp: used_slots_def)
  let ?a = "a\<lparr>track := (track a)[i := -4], track_used := track_used a - 1\<rparr>"
  have "\<not> slot_port a i < pa_start a" "slot_of a (slot_port a i) = i" "i < length (track a)"
    using assms(1,2) i(1) by (auto simp: slots_ok_def pa_inv_def)
  then have "switch_core_port_allocator_free_port a (slot_port a i) = Some (SWITCH_STATUS_SUCCESS, ?a)"
    unfolding switch_core_port_allocator_free_port_def using i(2) by (simp add: slot_of_def Let_def split: if_splits)
  moreover have "track_used a - 1 = card (used_slots a - {i})" using assms(1,3) by (simp add: pa_inv_def)
  then have "pa_inv ?a" by (intro set_slot [OF assms(1) i(1)]) simp_all
  moreover have "used_slots ?a = used_slots a - {i}" using used_set_slot [OF assms(1) i(1), where x = "-4"] by simp
  ultimately show ?thesis by (simp add: same_shape_def)
qed

section \<open>Sessions\<close>

text \<open>
  A client asks for ports and gives back ports it holds (\<open>Release j\<close> is the \<open>j\<close>-th of them).
  The state is the allocator and the ports held.  \<open>None\<close> is a request that does not return or a
  held port that cannot be given back.
\<close>

datatype pa_op = Request "nat \<Rightarrow> nat" "nat \<Rightarrow> sock_kind \<Rightarrow> nat \<Rightarrow> bool" | Release nat

fun pa_run :: "pa_op list \<Rightarrow> switch_core_port_allocator \<Rightarrow> nat list \<Rightarrow>
    (switch_core_port_allocator \<times> nat list) option" where
  "pa_run [] a held = Some (a, held)"
| "pa_run (Request rnd probe # ops) a held =
     (case switch_core_port_allocator_request_port rnd probe 5 a of
        None \<Rightarrow> None
      | Some (st, port, a') \<Rightarrow> pa_run ops a' (if st = SWITCH_STATUS_SUCCESS then port # held else held))"
| "pa_run (Release j # ops) a held =
     (if j < length held then
        (case switch_core_port_allocator_free_port a (held ! j) of
           None \<Rightarrow> None
         | Some (st, a') \<Rightarrow>
             (if st = SWITCH_STATUS_SUCCESS then pa_run ops a' (take j held @ drop (Suc j) held) else None))
      else pa_run ops a held)"

definition holds :: "switch_core_port_allocator \<Rightarrow> nat list \<Rightarrow> bool" where
  "holds a held \<longleftrightarrow> pa_inv a \<and> slots_ok a \<and> distinct held \<and> set held = slot_port a ` used_slots a"

lemma used_subset: "used_slots a \<subseteq> {..<track_len a}"
  by (auto simp: used_slots_def)

lemma holds_request:
  assumes "holds a held" "\<And>k p. port_passes a (probe k) p"
  shows "\<exists>st port a'. switch_core_port_allocator_request_port rnd probe 5 a = Some (st, port, a') \<and>
    same_shape a' a \<and> holds a' (if st = SWITCH_STATUS_SUCCESS then port # held else held)"
proof -
  have inv: "pa_inv a" "slots_ok a" using assms(1) by (simp_all add: holds_def)
  obtain st port a' where r: "request_loop rnd probe 5 0 a = Some (st, port, a')"
    using request_loop_returns [OF inv(1) _ free_slot_exists [OF inv(1)], where probe = probe and fuel = 5 and rnd = rnd and k = 0] assms(2)
    by auto
  note safe = request_loop_safe [OF r inv(1)]
  then have sh: "same_shape a' a" "slot_port a' = slot_port a" "slots_ok a'"
    using slot_port_shape [of a' a] slots_ok_shape [of a' a] inv(2) by auto
  have "slot_port a i \<notin> set held" if "i < track_len a" "i \<notin> used_slots a" for i
    using assms(1) that inj_onD [OF slot_port_inj [OF inv(2)]] used_subset [of a]
    by (auto simp: holds_def image_iff)
  with safe sh assms(1) have "holds a' (if st = SWITCH_STATUS_SUCCESS then port # held else held)"
    by (auto simp: holds_def)
  then show ?thesis using r sh(1) by (simp add: switch_core_port_allocator_request_port_def)
qed

lemma holds_release:
  assumes "holds a held" "j < length held"
  shows "\<exists>a'. switch_core_port_allocator_free_port a (held ! j) = Some (SWITCH_STATUS_SUCCESS, a') \<and>
    same_shape a' a \<and> holds a' (take j held @ drop (Suc j) held)"
proof -
  have inv: "pa_inv a" "slots_ok a" "distinct held" "set held = slot_port a ` used_slots a"
    using assms(1) by (simp_all add: holds_def)
  obtain i where i: "i \<in> used_slots a" "held ! j = slot_port a i" using inv(4) nth_mem [OF assms(2)] by auto
  obtain a' where f: "switch_core_port_allocator_free_port a (slot_port a i) = Some (SWITCH_STATUS_SUCCESS, a')"
    "pa_inv a'" "same_shape a' a" "used_slots a' = used_slots a - {i}" using free_port_used [OF inv(1,2) i(1)] by blast
  have split: "held = take j held @ held ! j # drop (Suc j) held" using assms(2) by (rule id_take_nth_drop)
  have d: "distinct (take j held @ held ! j # drop (Suc j) held)" using inv(3) split by simp
  have "set held = insert (held ! j) (set (take j held @ drop (Suc j) held))" using arg_cong [OF split, of set] by simp
  with d have "set (take j held @ drop (Suc j) held) = set held - {held ! j}" by auto
  also have "\<dots> = slot_port a ` (used_slots a - {i})"
    using inj_on_image_set_diff [OF slot_port_inj [OF inv(2)], of "used_slots a" "{i}"] i used_subset [of a]
    by (auto simp: inv(4))
  finally show ?thesis
    using f d i(2) inv(2) slot_port_shape [OF f(3)] slots_ok_shape [OF f(3)] by (auto simp: holds_def)
qed

lemma holds_run:
  assumes "holds a held"
    and "\<And>rnd probe k p. Request rnd probe \<in> set ops \<Longrightarrow> port_passes a (probe k) p"
  shows "\<exists>a' held'. pa_run ops a held = Some (a', held') \<and> same_shape a' a \<and> holds a' held'"
  using assms
proof (induction ops arbitrary: a held)
  case Nil
  then show ?case by (simp add: same_shape_def)
next
  case (Cons opn ops)
  have step: ?case if "pa_run (opn # ops) a held = pa_run ops b h" "same_shape b a" "holds b h" for b h
  proof -
    have "\<exists>a' held'. pa_run ops b h = Some (a', held') \<and> same_shape a' b \<and> holds a' held'"
      by (rule Cons.IH [OF that(3)]) (use Cons.prems(2) port_passes_shape [OF that(2)] in auto)
    then show ?thesis using that by (auto simp: same_shape_def)
  qed
  show ?case
  proof (cases opn)
    case (Request rnd probe)
    then obtain st port a' where "switch_core_port_allocator_request_port rnd probe 5 a = Some (st, port, a')"
      "same_shape a' a" "holds a' (if st = SWITCH_STATUS_SUCCESS then port # held else held)"
      using holds_request [OF Cons.prems(1)] Cons.prems(2) by (metis list.set_intros(1))
    then show ?thesis by (intro step) (simp_all add: Request)
  next
    case (Release j)
    show ?thesis
    proof (cases "j < length held")
      case True
      then obtain a' where "switch_core_port_allocator_free_port a (held ! j) = Some (SWITCH_STATUS_SUCCESS, a')"
        "same_shape a' a" "holds a' (take j held @ drop (Suc j) held)" using holds_release [OF Cons.prems(1)] by blast
      then show ?thesis by (intro step) (simp_all add: Release True)
    next
      case False
      then show ?thesis using Cons.prems(1) by (intro step [of a held]) (simp_all add: Release same_shape_def)
    qed
  qed
qed

lemma holds_length: "holds a held \<Longrightarrow> length held = track_used a"
  using card_image [OF inj_on_subset [OF slot_port_inj used_subset]] distinct_card [of held]
  by (auto simp: holds_def pa_inv_def)

section \<open>A new allocator\<close>

lemma blank_inv:
  assumes "track a = replicate n 0" "n = track_len a + 2" "track_used a = 0"
  shows "pa_inv a" "used_slots a = {}"
proof -
  have "track a ! i = 0" if "i < n" for i using assms(1) that by simp
  then show "pa_inv a" "used_slots a = {}" using assms by (auto simp: pa_inv_def used_slots_def)
qed

lemma new_inv:
  "pa_inv (switch_core_port_allocator_new rf start en fl)"
  "used_slots (switch_core_port_allocator_new rf start en fl) = {}"
  by (rule blank_inv, simp_all only: switch_core_port_allocator_new_def Let_def switch_core_port_allocator.simps)+

lemma round_even:
  assumes "start < 65535" "0 < en" "en < 65536"
  shows "even (round_start True False start)" "round_start True False start \<in> {start, start + 1}"
    "even (round_end True False en)" "round_end True False en \<in> {en, en - 1}"
proof -
  have "(en + 65535) mod 65536 = en - 1" using assms by (simp add: mod_if)
  then show "even (round_end True False en)" "round_end True False en \<in> {en, en - 1}"
    using assms by (auto simp: round_end_def port_add_def)
qed (use assms in \<open>auto simp: round_start_def port_add_def\<close>)

lemma new_even:
  assumes "start < 65535" "0 < en" "en < 65536" "round_start True False start \<le> round_end True False en"
  defines "a \<equiv> switch_core_port_allocator_new 0 start en SPF_EVEN"
  shows "track_len a = (round_end True False en - round_start True False start) div 2 + 1"
    "i < track_len a \<Longrightarrow> slot_port a i = round_start True False start + 2 * i"
    "i < track_len a \<Longrightarrow> round_start True False start + 2 * i \<le> round_end True False en"
    "slots_ok a" "port_passes a probe p"
proof -
  let ?s = "round_start True False start" and ?e = "round_end True False en"
  have fl: "switch_test_flag SPF_EVEN SPF_EVEN" "\<not> switch_test_flag SPF_EVEN SPF_ODD"
    by (simp_all add: switch_test_flag_def spf_flags)
  have f: "pa_flags a = SPF_EVEN" "pa_start a = ?s" "\<not> both_parities a"
    using fl by (simp_all add: a_def switch_core_port_allocator_new_def Let_def both_parities_def)
  have lt: "?e < 65536" using round_even [OF assms(1-3)] assms(3) by auto
  have "nat ((int ?e - int ?s + 2) mod 2 ^ 32) = ?e - ?s + 2" using assms(4) lt by (simp add: nat_diff_distrib)
  then show len: "track_len a = (?e - ?s) div 2 + 1"
    using fl by (simp add: a_def switch_core_port_allocator_new_def Let_def)
  show le: "?s + 2 * i \<le> ?e" if "i < track_len a" for i using that assms(4) len by simp
  have "?s div 2 * 2 = ?s" using round_even(1) [OF assms(1-3)] by simp
  then show port: "slot_port a i = ?s + 2 * i" if "i < track_len a" for i
    using le [OF that] lt f by (simp add: slot_port_def algebra_simps)
  show "slots_ok a" unfolding slots_ok_def slot_of_def using port f by simp
  show "port_passes a probe p" using f(1) by (simp add: port_passes_def spf_flags)
qed

section \<open>Properties\<close>

text \<open>
  C26: A request returns after at most five rounds when the socket tests let every port pass,
  whatever the random numbers are.  It fails, with port 0, exactly when every slot is in use;
  otherwise it marks one slot that was not in use and gives the port of that slot.  The
  bookkeeping stays consistent in both cases.\<close>
theorem port_request_returns:
  assumes "pa_inv a" "\<And>k p. port_passes a (probe k) p" "5 \<le> fuel"
  shows "\<exists>st port a'. switch_core_port_allocator_request_port rnd probe fuel a = Some (st, port, a') \<and> pa_inv a' \<and>
    (if track_used a = track_len a then st = SWITCH_STATUS_FALSE \<and> port = 0 \<and> used_slots a' = used_slots a
     else st = SWITCH_STATUS_SUCCESS \<and> track_used a' = track_used a + 1 \<and>
       (\<exists>i < track_len a. i \<notin> used_slots a \<and> port = slot_port a i \<and> used_slots a' = insert i (used_slots a)))"
proof -
  obtain st port a' where r: "request_loop rnd probe fuel 0 a = Some (st, port, a')"
    using request_loop_returns [OF assms(1) _ free_slot_exists [OF assms(1)], where probe = probe and rnd = rnd and k = 0 and fuel = fuel]
      assms(2,3) by auto
  note safe = request_loop_safe [OF r assms(1)]
  have inv: "pa_inv a'" "track_len a' = track_len a" using safe by (auto simp: same_shape_def)
  have used: "track_used a' = card (used_slots a')" "track_used a = card (used_slots a)"
    using inv(1) assms(1) by (simp_all add: pa_inv_def)
  show ?thesis
  proof (cases "track_used a = track_len a")
    case True
    then have "used_slots a = {..<track_len a}" using used_full [OF assms(1)] by simp
    with safe True r inv show ?thesis by (auto simp: switch_core_port_allocator_request_port_def)
  next
    case False
    then have "track_used a < track_len a" using used_le [OF assms(1)] by simp
    with safe used inv have "st = SWITCH_STATUS_SUCCESS" "st \<noteq> SWITCH_STATUS_FALSE" by auto
    with safe False r used inv show ?thesis by (auto simp: switch_core_port_allocator_request_port_def)
  qed
qed

theorem port_request_returns_witness:
  "\<exists>st port a'. switch_core_port_allocator_request_port (\<lambda>k. 7) (\<lambda>k s p. True) 5
      (switch_core_port_allocator_new 0 16384 16400 SPF_EVEN) = Some (st, port, a') \<and> st = SWITCH_STATUS_SUCCESS"
proof -
  let ?a = "switch_core_port_allocator_new 0 16384 16400 SPF_EVEN"
  have "port_passes ?a (\<lambda>s p. True) p" for p by (simp add: port_passes_def)
  moreover have "track_used ?a \<noteq> track_len ?a"
    by (simp add: switch_core_port_allocator_new_def Let_def switch_test_flag_def spf_flags round_start_def round_end_def)
  ultimately show ?thesis
    using port_request_returns [OF new_inv(1), where probe = "\<lambda>k s p. True" and fuel = 5 and rnd = "\<lambda>k. 7"] by fastforce
qed

text \<open>
  C14: The allocator as the RTP code makes it (\<^verbatim>\<open>SPF_EVEN\<close>): in any sequence of requests and
  releases of held ports, every request returns, every held port can be given back, no port
  is held twice, and every held port is even and lies between the bounds.  A request is
  refused only when all ports of the range are held: the number held is the number of slots
  in use.\<close>
theorem port_sessions:
  assumes "start < 65535" "0 < en" "en < 65536" "round_start True False start \<le> round_end True False en"
  shows "\<exists>a held. pa_run ops (switch_core_port_allocator_new 0 start en SPF_EVEN) [] = Some (a, held) \<and>
    distinct held \<and> length held = track_used a \<and> (\<forall>p. p \<in> set held \<longrightarrow> even p \<and> start \<le> p \<and> p \<le> en) \<and>
    track_len a = (round_end True False en - round_start True False start) div 2 + 1"
proof -
  let ?a = "switch_core_port_allocator_new 0 start en SPF_EVEN"
  note new = new_even [OF assms]
  have "holds ?a []" using new_inv new(4) by (simp add: holds_def)
  then obtain a held where r: "pa_run ops ?a [] = Some (a, held)" "same_shape a ?a" "holds a held"
    using holds_run [of ?a "[]" ops] new(5) by blast
  have "even p \<and> start \<le> p \<and> p \<le> en" if p: "p \<in> set held" for p
  proof -
    obtain i where "i < track_len ?a" "p = slot_port ?a i"
      using p r(2,3) used_subset [of a] slot_port_shape [OF r(2)] by (auto simp: holds_def same_shape_def)
    then show ?thesis using new(2,3) [of i] round_even [OF assms(1-3)] by auto
  qed
  then show ?thesis using r holds_length [OF r(3)] new(1) by (simp add: holds_def same_shape_def)
qed

theorem port_sessions_witness:
  "\<exists>a held. pa_run [Request (\<lambda>k. 3) (\<lambda>k s p. False), Request (\<lambda>k. 3) (\<lambda>k s p. False), Release 1]
      (switch_core_port_allocator_new 0 16385 16401 SPF_EVEN) [] = Some (a, held) \<and> distinct held \<and> track_len a = 8"
proof -
  have b: "round_start True False 16385 = 16386" "round_end True False 16401 = 16400"
    by (simp_all add: round_start_def round_end_def port_add_def)
  show ?thesis
    using port_sessions [of 16385 16401 "[Request (\<lambda>k. 3) (\<lambda>k s p. False), Request (\<lambda>k. 3) (\<lambda>k s p. False), Release 1]"]
    unfolding b by auto
qed

text \<open>
  With both parities requested, the table has one slot too many: the port after the end of
  the range is handed out as soon as the random number picks the last slot.\<close>
theorem port_both_past_end:
  assumes "start \<le> en" "en < 65535" "rnd 0 mod (en - start + 2) = en - start + 1"
  shows "\<exists>a'. switch_core_port_allocator_request_port rnd probe 1
      (switch_core_port_allocator_new 0 start en (SPF_EVEN OR SPF_ODD)) = Some (SWITCH_STATUS_SUCCESS, en + 1, a')"
proof -
  let ?a = "switch_core_port_allocator_new 0 start en (SPF_EVEN OR SPF_ODD)"
  have fl: "switch_test_flag (SPF_EVEN OR SPF_ODD) SPF_EVEN" "switch_test_flag (SPF_EVEN OR SPF_ODD) SPF_ODD"
    by (simp_all add: switch_test_flag_def spf_flags)
  have n: "nat ((int en - int start + 2) mod 2 ^ 32) = en - start + 2" using assms by (simp add: nat_diff_distrib)
  have a: "?a = \<lparr>pa_start = start, pa_end = en, track = replicate (en - start + 2 + 2) 0, track_len = en - start + 2,
      track_used = 0, pa_flags = SPF_EVEN OR SPF_ODD\<rparr>"
    unfolding switch_core_port_allocator_new_def Let_def using fl n by simp
  have z: "replicate (en - start + 2 + 2) (0::int) ! (en - start + 1) = 0" by (rule nth_replicate) simp
  have w: "walk (track_len ?a) (track_len ?a) (track ?a) (rnd 0 mod track_len ?a) = (track ?a, en - start + 1, True)"
    unfolding a using assms(3) z by (simp del: replicate_Suc add: eval_nat_numeral)
  have p: "slot_port ?a (en - start + 1) = en + 1"
    unfolding slot_port_def both_parities_def a using fl assms by simp
  have t: "port_passes ?a (probe 0) (en + 1)" "track_used ?a < track_len ?a"
    unfolding a by (simp_all add: port_passes_def spf_flags)
  show ?thesis
    unfolding switch_core_port_allocator_request_port_def One_nat_def request_loop.simps w Let_def prod.case
    using t p by simp
qed

theorem port_both_past_end_witness:
  "\<exists>a'. switch_core_port_allocator_request_port (\<lambda>k. 101) (\<lambda>k s p. True) 1
      (switch_core_port_allocator_new 0 20000 20100 (SPF_EVEN OR SPF_ODD)) = Some (SWITCH_STATUS_SUCCESS, 20101, a')"
  using port_both_past_end [of 20000 20100 "\<lambda>k. 101"] by simp

text \<open>
  C39: With odd parity requested, the ports handed out are even.  The port of the first slot is
  below the range and cannot be given back; giving back the port of any later slot releases
  the slot before it instead of its own.\<close>
theorem port_odd_wrong_slot:
  assumes "pa_flags a = SPF_ODD" "odd (pa_start a)" "i < track_len a" "pa_start a + 2 * i < 65536"
    "length (track a) = track_len a + 2"
  shows "slot_port a i = pa_start a + 2 * i - 1 \<and>
    (if i = 0 then switch_core_port_allocator_free_port a (slot_port a i) = Some (SWITCH_STATUS_GENERR, a)
     else track a ! (i - 1) > 0 \<longrightarrow> switch_core_port_allocator_free_port a (slot_port a i) =
       Some (SWITCH_STATUS_SUCCESS, a\<lparr>track := (track a)[i - 1 := -4], track_used := track_used a - 1\<rparr>))"
proof -
  have f: "\<not> both_parities a" using assms(1) by (simp add: both_parities_def switch_test_flag_def spf_flags)
  obtain h where h: "pa_start a = 2 * h + 1" using assms(2) by (auto elim: oddE)
  have p: "slot_port a i = 2 * h + 2 * i" using assms(4) f h by (simp add: slot_port_def)
  show ?thesis
  proof (cases i)
    case 0
    with p h show ?thesis by (simp add: switch_core_port_allocator_free_port_def)
  next
    case (Suc j)
    have "(2 * h + 2 * i - pa_start a) div 2 = j" "\<not> 2 * h + 2 * i < pa_start a" using h Suc by simp_all
    with p h Suc f assms(3,5) show ?thesis by (simp add: switch_core_port_allocator_free_port_def)
  qed
qed

theorem port_odd_wrong_slot_witness:
  "slot_port \<lparr>pa_start = 20001, pa_end = 20003, track = [1, 1, 0, 0], track_len = 2, track_used = 2, pa_flags = SPF_ODD\<rparr> 1
     = 20002 \<and>
   switch_core_port_allocator_free_port
     \<lparr>pa_start = 20001, pa_end = 20003, track = [1, 1, 0, 0], track_len = 2, track_used = 2, pa_flags = SPF_ODD\<rparr> 20002 =
   Some (SWITCH_STATUS_SUCCESS,
     \<lparr>pa_start = 20001, pa_end = 20003, track = [-4, 1, 0, 0], track_len = 2, track_used = 1, pa_flags = SPF_ODD\<rparr>)"
  using port_odd_wrong_slot [of
    "\<lparr>pa_start = 20001, pa_end = 20003, track = [1, 1, 0, 0], track_len = 2, track_used = 2, pa_flags = SPF_ODD\<rparr>" 1]
  by auto

end
