(* ===== verification/Ascii.thy ===== *)
theory Ascii
  imports Prelude
begin

text \<open>
  Character case in the C locale, and the branch-free \<^verbatim>\<open>switch_tolower\<close> and
  \<^verbatim>\<open>switch_toupper\<close> of \<^verbatim>\<open>include/switch_utils.h\<close>, which treat four packed characters at
  a time.  C strings are character lists without the terminating NUL.
\<close>

unbundle bit_operations_syntax

definition switch_tolower :: "u32 \<Rightarrow> u32" where
  "switch_tolower eax =
     (let ebx = (0x7f7f7f7f AND eax) + 0x25252525;
          ebx = (0x7f7f7f7f AND ebx) + 0x1a1a1a1a;
          ebx = drop_bit 2 (ebx AND NOT eax) AND 0x20202020
      in eax + ebx)"

definition switch_toupper :: "u32 \<Rightarrow> u32" where
  "switch_toupper eax =
     (let ebx = (0x7f7f7f7f AND eax) + 0x05050505;
          ebx = (0x7f7f7f7f AND ebx) + 0x1a1a1a1a;
          ebx = drop_bit 2 (ebx AND NOT eax) AND 0x20202020
      in eax - ebx)"

text \<open>The C library's \<^verbatim>\<open>tolower\<close> and \<^verbatim>\<open>toupper\<close> on an \<^verbatim>\<open>unsigned char\<close>.\<close>

definition c_tolower :: "char \<Rightarrow> char" where
  "c_tolower c = (let n = of_char c :: nat in
     if 65 \<le> n \<and> n \<le> 90 then char_of (n + 32) else c)"

definition c_toupper :: "char \<Rightarrow> char" where
  "c_toupper c = (let n = of_char c :: nat in
     if 97 \<le> n \<and> n \<le> 122 then char_of (n - 32) else c)"

text \<open>\<^verbatim>\<open>strcasecmp(a, b) == 0\<close>.\<close>

definition strcaseeq :: "string \<Rightarrow> string \<Rightarrow> bool" where
  "strcaseeq a b \<longleftrightarrow> map c_tolower a = map c_tolower b"

text \<open>On one character, the packed lowercasing is the lowercasing of the C library.\<close>

lemma switch_tolower_char: "switch_tolower (of_char c) = of_char (c_tolower c)"
proof (cases c)
  case (Char b0 b1 b2 b3 b4 b5 b6 b7)
  show ?thesis unfolding Char
    by (cases b0; cases b1; cases b2; cases b3; cases b4; cases b5; cases b6; cases b7;
        simp add: switch_tolower_def c_tolower_def of_char_def char_of_def bit_simps)
qed

lemma unat_of_char: "unat (of_char c :: u32) = of_char c"
proof -
  have "(of_char c :: nat) < 2 ^ 32"
    by (rule less_trans [OF nat_of_char_less_256]) simp
  then have "unat (of_nat (of_char c) :: u32) = of_char c"
    by (simp only: unat_of_nat) (simp add: take_bit_nat_eq_self)
  then show ?thesis by (simp only: of_nat_of_char)
qed

lemma of_char_u32_eq [simp]: "(of_char c :: u32) = of_char d \<longleftrightarrow> c = d"
  by (metis unat_of_char of_char_eq_iff)

end
