(* ===== verification/Cstring.thy ===== *)
theory Cstring
  imports Ascii "HOL-Library.Sublist"
begin

text \<open>
  The C string functions the components use, on character lists, and
  \<^verbatim>\<open>switch_separate_string_string\<close> of \<^verbatim>\<open>src/switch_utils.c\<close>.  Splitting at a delimiter and
  joining with it are shown to be inverse.
\<close>

section \<open>Searching\<close>

text \<open>\<^verbatim>\<open>strstr(s, d)\<close>: the text before the first occurrence of \<open>d\<close> and the text behind it.\<close>

fun split_first :: "string \<Rightarrow> string \<Rightarrow> (string \<times> string) option" where
  "split_first d [] = (if d = [] then Some ([], []) else None)"
| "split_first d (c # s) =
     (if prefix d (c # s) then Some ([], drop (length d) (c # s))
      else map_option (\<lambda>(a, b). (c # a, b)) (split_first d s))"

lemma split_first_Some: "split_first d s = Some (a, b) \<Longrightarrow> s = a @ d @ b"
  by (induction s arbitrary: a) (auto split: if_splits simp: prefix_def)

lemma split_first_length: "split_first d s = Some (a, b) \<Longrightarrow> length s = length a + length d + length b"
  by (auto dest: split_first_Some)

text \<open>The number of times the loop \<^verbatim>\<open>while ((p = strstr(p, d))) p += strlen(d)\<close> runs.\<close>

function count_first :: "string \<Rightarrow> string \<Rightarrow> nat" where
  "count_first d s =
     (if d = [] then 0
      else (case split_first d s of None \<Rightarrow> 0 | Some (a, b) \<Rightarrow> Suc (count_first d b)))"
  by pat_completeness auto
termination by (relation "measure (\<lambda>(d, s). length s)") (auto dest: split_first_length)

declare count_first.simps [simp del]

section \<open>Separating\<close>

text \<open>The loop of the function, with \<open>n\<close> the slots of the array still free.\<close>

fun separate_loop :: "nat \<Rightarrow> string \<Rightarrow> string \<Rightarrow> string list" where
  "separate_loop 0 d s = [s]"
| "separate_loop (Suc n) d s =
     (case split_first d s of None \<Rightarrow> [s] | Some (a, b) \<Rightarrow> a # separate_loop n d b)"

definition switch_separate_string_string :: "string \<Rightarrow> string \<Rightarrow> nat \<Rightarrow> string list" where
  "switch_separate_string_string buf delim arraylen = separate_loop (arraylen - 1) delim buf"

primrec join_loop :: "string \<Rightarrow> string list \<Rightarrow> string" where
  "join_loop d [] = []"
| "join_loop d (x # xs) = d @ x @ join_loop d xs"

definition join :: "string \<Rightarrow> string list \<Rightarrow> string" where
  "join d xs = (case xs of [] \<Rightarrow> [] | x # xs \<Rightarrow> x @ join_loop d xs)"

lemma separate_length: "x \<in> set (separate_loop n d s) \<Longrightarrow> length x \<le> length s"
proof (induction n arbitrary: s)
  case (Suc n)
  then show ?case by (fastforce dest: split_first_length split: option.splits)
qed simp

lemma separate_ne: "separate_loop n d s \<noteq> []"
  by (cases n) (auto split: option.split)

lemma join_Cons: "xs \<noteq> [] \<Longrightarrow> join d (x # xs) = x @ d @ join d xs"
  by (cases xs) (simp_all add: join_def)

lemma join_separate: "join d (separate_loop n d s) = s"
proof (induction n arbitrary: s)
  case (Suc n)
  show ?case
  proof (cases "split_first d s")
    case (Some p)
    then obtain a b where "split_first d s = Some (a, b)" by (cases p) auto
    with Suc show ?thesis by (simp add: join_Cons separate_ne split_first_Some [symmetric])
  qed (simp add: join_def)
qed (simp add: join_def)

section \<open>The array delimiter\<close>

definition bar :: string where "bar = ''|:''"

lemma bar_prefix: "prefix bar (c # s) \<longleftrightarrow> c = CHR ''|'' \<and> (\<exists>t. s = CHR '':'' # t)"
  by (auto simp: bar_def prefix_def)

lemma split_bar_append:
  "split_first bar x = None \<Longrightarrow> split_first bar (x @ bar @ y) = Some (x, y)"
proof (induction x)
  case Nil
  then show ?case by (simp add: bar_def)
next
  case (Cons c x)
  then have x: "split_first bar x = None" and np: "\<not> prefix bar (c # x)"
    by (auto split: if_splits)
  have "\<not> prefix bar (c # x @ bar @ y)"
  proof
    assume "prefix bar (c # x @ bar @ y)"
    then have "c = CHR ''|''" "\<exists>t. x @ bar @ y = CHR '':'' # t" by (auto simp: bar_prefix)
    with np show False by (cases x) (auto simp: bar_def prefix_def)
  qed
  with Cons.IH [OF x] show ?case by simp
qed

lemma split_bar_None_tail: "split_first bar s = None \<Longrightarrow> count_first bar s = 0"
  by (simp add: count_first.simps)

lemma count_join:
  "xs \<noteq> [] \<Longrightarrow> (\<And>x. x \<in> set xs \<Longrightarrow> split_first bar x = None) \<Longrightarrow>
   count_first bar (join bar xs) = length xs - 1"
proof (induction xs)
  case (Cons x xs)
  show ?case
  proof (cases "xs = []")
    case True
    with Cons.prems show ?thesis by (simp add: join_def split_bar_None_tail)
  next
    case False
    with Cons have "count_first bar (join bar xs) = length xs - 1" by simp
    moreover have "split_first bar (join bar (x # xs)) = Some (x, join bar xs)"
      using False Cons.prems(2) [of x] by (simp add: join_Cons split_bar_append)
    ultimately show ?thesis
      using False by (subst count_first.simps) (simp add: bar_def)
  qed
qed simp

lemma separate_join:
  "xs \<noteq> [] \<Longrightarrow> (\<And>x. x \<in> set xs \<Longrightarrow> split_first bar x = None) \<Longrightarrow>
   separate_loop (length xs - 1) bar (join bar xs) = xs"
proof (induction xs)
  case (Cons x xs)
  show ?case
  proof (cases xs)
    case Nil
    then show ?thesis by (simp add: join_def)
  next
    case (Cons y ys)
    with Cons.IH Cons.prems have "separate_loop (length xs - 1) bar (join bar xs) = xs" by simp
    moreover have "split_first bar (join bar (x # xs)) = Some (x, join bar xs)"
      using Cons Cons.prems(2) [of x] by (simp add: join_Cons split_bar_append)
    ultimately show ?thesis using Cons by simp
  qed
qed simp

section \<open>Numbers\<close>

text \<open>\<^verbatim>\<open>atoi\<close>: white space, a sign, and the digits up to the first other character (the
  result is the mathematical integer; what does not fit an \<^verbatim>\<open>int\<close> is undefined in C).\<close>

definition c_isspace :: "char \<Rightarrow> bool" where
  "c_isspace c \<longleftrightarrow> (let n = of_char c :: nat in n = 32 \<or> (9 \<le> n \<and> n \<le> 13))"

definition c_isdigit :: "char \<Rightarrow> bool" where
  "c_isdigit c \<longleftrightarrow> (let n = of_char c :: nat in 48 \<le> n \<and> n \<le> 57)"

primrec digits_value :: "int \<Rightarrow> string \<Rightarrow> int" where
  "digits_value acc [] = acc"
| "digits_value acc (c # s) =
     (if c_isdigit c then digits_value (acc * 10 + (of_char c - 48)) s else acc)"

definition atoi :: "string \<Rightarrow> int" where
  "atoi s =
     (case dropWhile c_isspace s of
        [] \<Rightarrow> 0
      | c # t \<Rightarrow> if c = CHR ''-'' then - digits_value 0 t
                 else if c = CHR ''+'' then digits_value 0 t
                 else digits_value 0 (c # t))"

end
