(* ===== verification/Event.thy ===== *)
theory Event
  imports Cstring
begin

text \<open>
  Event headers, \<^verbatim>\<open>src/switch_event.c\<close>: the list of named headers of an event with its tail
  pointer, header lookup, deletion and renaming, \<^verbatim>\<open>switch_event_base_add_header\<close> with its
  stack modes, indexed names and \<^verbatim>\<open>ARRAY::\<close> values, and the merging and duplication of events.
  Channel variables, parameters and messages are all kept in such events.
\<close>

unbundle bit_operations_syntax

section \<open>Data\<close>

text \<open>\<^verbatim>\<open>idx\<close> is the length of the array; a value of \<open>None\<close> is a \<^verbatim>\<open>NULL\<close> pointer.\<close>

record switch_event_header =
  h_name :: string
  h_value :: "string option"
  h_array :: "string list"
  h_hash :: u32

text \<open>
  \<open>last_header\<close> is the position in \<open>headers\<close> of the header the tail pointer points to.
  Event ids are numbered as in \<^verbatim>\<open>switch_event_types_t\<close>.
\<close>

record switch_event =
  event_id :: nat
  subclass_name :: "string option"
  headers :: "switch_event_header list"
  last_header :: "nat option"
  body :: "string option"
  bind_user_data :: nat
  event_user_data :: nat
  key :: u64
  flags :: u32

definition SWITCH_EVENT_CUSTOM :: nat where "SWITCH_EVENT_CUSTOM = 0"
definition SWITCH_EVENT_CLONE :: nat where "SWITCH_EVENT_CLONE = 1"
definition SWITCH_EVENT_MESSAGE :: nat where "SWITCH_EVENT_MESSAGE = 37"
definition SWITCH_EVENT_REQUEST_PARAMS :: nat where "SWITCH_EVENT_REQUEST_PARAMS = 62"
definition SWITCH_EVENT_CHANNEL_DATA :: nat where "SWITCH_EVENT_CHANNEL_DATA = 63"

lemmas event_ids = SWITCH_EVENT_CUSTOM_def SWITCH_EVENT_CLONE_def SWITCH_EVENT_MESSAGE_def
  SWITCH_EVENT_REQUEST_PARAMS_def SWITCH_EVENT_CHANNEL_DATA_def

definition EF_UNIQ_HEADERS :: u32 where "EF_UNIQ_HEADERS = 1"

definition SWITCH_STACK_BOTTOM :: u32 where "SWITCH_STACK_BOTTOM = 1"
definition SWITCH_STACK_TOP :: u32 where "SWITCH_STACK_TOP = 2"
definition SWITCH_STACK_UNSHIFT :: u32 where "SWITCH_STACK_UNSHIFT = 4"
definition SWITCH_STACK_PUSH :: u32 where "SWITCH_STACK_PUSH = 8"

lemmas stack_flags = SWITCH_STACK_BOTTOM_def SWITCH_STACK_TOP_def SWITCH_STACK_UNSHIFT_def
  SWITCH_STACK_PUSH_def

section \<open>Lookup\<close>

primrec ci_hash_loop :: "u32 \<Rightarrow> string \<Rightarrow> u32" where
  "ci_hash_loop hsh [] = hsh"
| "ci_hash_loop hsh (c # s) = ci_hash_loop (hsh * 33 + of_char (c_tolower c)) s"

definition switch_ci_hashfunc_default :: "string \<Rightarrow> u32" where
  "switch_ci_hashfunc_default k = ci_hash_loop 0 k"

definition header_matches :: "string \<Rightarrow> switch_event_header \<Rightarrow> bool" where
  "header_matches nm hp \<longleftrightarrow>
     (h_hash hp = 0 \<or> switch_ci_hashfunc_default nm = h_hash hp) \<and> strcaseeq (h_name hp) nm"

fun find_header :: "string \<Rightarrow> switch_event_header list \<Rightarrow> nat option" where
  "find_header nm [] = None"
| "find_header nm (hp # hs) =
     (if header_matches nm hp then Some 0 else map_option Suc (find_header nm hs))"

text \<open>The pointer returned is the position of the header in the list.\<close>

definition switch_event_get_header_ptr :: "switch_event \<Rightarrow> string \<Rightarrow> nat option" where
  "switch_event_get_header_ptr event nm = find_header nm (headers event)"

definition switch_event_get_header_idx :: "switch_event \<Rightarrow> string \<Rightarrow> int \<Rightarrow> string option" where
  "switch_event_get_header_idx event nm idx =
     (case switch_event_get_header_ptr event nm of
        Some i \<Rightarrow>
          (let hp = headers event ! i in
           if idx > -1 then (if idx < int (length (h_array hp)) then Some (h_array hp ! nat idx) else None)
           else h_value hp)
      | None \<Rightarrow> if nm = ''_body'' then body event else None)"

text \<open>\<^verbatim>\<open>switch_event_get_header(_e, _h)\<close> is the macro with index -1.\<close>

abbreviation switch_event_get_header :: "switch_event \<Rightarrow> string \<Rightarrow> string option" where
  "switch_event_get_header event nm \<equiv> switch_event_get_header_idx event nm (-1)"

definition switch_event_get_body :: "switch_event option \<Rightarrow> string option" where
  "switch_event_get_body event = (case event of None \<Rightarrow> None | Some e \<Rightarrow> body e)"

fun rename_loop ::
  "string \<Rightarrow> string \<Rightarrow> switch_event_header list \<Rightarrow> nat \<times> switch_event_header list" where
  "rename_loop nm new [] = (0, [])"
| "rename_loop nm new (hp # hs) =
     (let (x, hs') = rename_loop nm new hs in
      if header_matches nm hp
      then (Suc x, hp\<lparr>h_name := new, h_hash := switch_ci_hashfunc_default new\<rparr> # hs')
      else (x, hp # hs'))"

definition switch_event_rename_header ::
  "switch_event \<Rightarrow> string \<Rightarrow> string \<Rightarrow> switch_status \<times> switch_event" where
  "switch_event_rename_header event nm new =
     (let (x, hs) = rename_loop nm new (headers event) in
      (if x \<noteq> 0 then SWITCH_STATUS_SUCCESS else SWITCH_STATUS_FALSE, event\<lparr>headers := hs\<rparr>))"

section \<open>Deletion\<close>

text \<open>
  \<open>zstr(val)\<close> is \<open>val = None\<close> or an empty string; \<^verbatim>\<open>strcmp\<close> on a \<^verbatim>\<open>NULL\<close> header value does
  not happen for headers that \<open>base_add_header\<close> made.
\<close>

definition val_matches :: "string option \<Rightarrow> switch_event_header \<Rightarrow> bool" where
  "val_matches val hp \<longleftrightarrow> (case val of None \<Rightarrow> True | Some v \<Rightarrow> v = [] \<or> h_value hp = Some v)"

text \<open>
  The walk of \<^verbatim>\<open>switch_event_del_header_val\<close>: \<open>kept\<close> are the headers before \<open>hp\<close> that stay, the
  last of them is \<^verbatim>\<open>lp\<close>.  Unlinking the header at position \<open>length kept\<close> moves the tail
  pointer to \<^verbatim>\<open>lp\<close> where the code says so; otherwise the pointer stays and its position
  changes with the list.  The assertion that guards the walk against a list with a cycle, fewer than a million
  headers, is left out: a list here has none.
\<close>

definition unlink_last :: "nat \<Rightarrow> bool \<Rightarrow> nat option \<Rightarrow> nat option" where
  "unlink_last n at_end lst =
     (if lst = Some n \<or> at_end then (if n = 0 then None else Some (n - 1))
      else (case lst of None \<Rightarrow> None | Some l \<Rightarrow> Some (if l > n then l - 1 else l)))"

fun del_loop :: "(switch_event_header \<Rightarrow> bool) \<Rightarrow> switch_event_header list \<Rightarrow>
    switch_event_header list \<Rightarrow> nat option \<Rightarrow> bool \<Rightarrow>
    bool \<times> switch_event_header list \<times> nat option" where
  "del_loop m kept [] lst found = (found, kept, lst)"
| "del_loop m kept (hp # tp) lst found =
     (if m hp then del_loop m kept tp (unlink_last (length kept) (tp = []) lst) True
      else del_loop m (kept @ [hp]) tp lst found)"

definition switch_event_del_header_val ::
  "switch_event \<Rightarrow> string \<Rightarrow> string option \<Rightarrow> switch_status \<times> switch_event" where
  "switch_event_del_header_val event nm val =
     (let (found, hs, lst) =
        del_loop (\<lambda>hp. header_matches nm hp \<and> val_matches val hp) [] (headers event) (last_header event) False
      in (if found then SWITCH_STATUS_SUCCESS else SWITCH_STATUS_FALSE,
          event\<lparr>headers := hs, last_header := lst\<rparr>))"

definition switch_event_del_header :: "switch_event \<Rightarrow> string \<Rightarrow> switch_event" where
  "switch_event_del_header event nm = snd (switch_event_del_header_val event nm None)"

section \<open>Adding headers\<close>

definition new_header :: "string \<Rightarrow> switch_event_header" where
  "new_header nm = \<lparr>h_name = nm, h_value = None, h_array = [], h_hash = 0\<rparr>"

definition switch_event_set_body :: "switch_event \<Rightarrow> string option \<Rightarrow> switch_event" where
  "switch_event_set_body event b = event\<lparr>body := b\<rparr>"

text \<open>The label \<^verbatim>\<open>redraw\<close>: the value rendered from the array.\<close>

definition array_text :: "string list \<Rightarrow> string" where
  "array_text xs = (if length xs > 1 then ''ARRAY::'' else []) @ join bar xs"

definition redraw :: "switch_event_header \<Rightarrow> switch_event_header" where
  "redraw hp = (if h_array hp = [] then hp else hp\<lparr>h_value := Some (array_text (h_array hp))\<rparr>)"

definition push_header :: "u32 \<Rightarrow> string \<Rightarrow> switch_event_header \<Rightarrow> switch_event_header" where
  "push_header stack data hp =
     (let hp = (case h_value hp of
                  Some v \<Rightarrow> if h_array hp = [] then hp\<lparr>h_array := [v], h_value := None\<rparr> else hp
                | None \<Rightarrow> hp);
          m = (if stack AND SWITCH_STACK_PUSH \<noteq> 0 then h_array hp @ [data] else data # h_array hp)
      in redraw (hp\<lparr>h_array := m\<rparr>))"

definition link_header :: "u32 \<Rightarrow> switch_event_header \<Rightarrow> switch_event \<Rightarrow> switch_event" where
  "link_header stack hp event =
     (let hp = hp\<lparr>h_hash := switch_ci_hashfunc_default (h_name hp)\<rparr> in
      if stack AND SWITCH_STACK_TOP \<noteq> 0
      then event\<lparr>headers := hp # headers event,
                  last_header := (case last_header event of None \<Rightarrow> Some 0 | Some l \<Rightarrow> Some (Suc l))\<rparr>
      else (case last_header event of
              Some l \<Rightarrow> event\<lparr>headers := take (Suc l) (headers event) @ [hp], last_header := Some (Suc l)\<rparr>
            | None \<Rightarrow> event\<lparr>headers := [hp], last_header := Some 0\<rparr>))"

text \<open>
  The branch of a name \<^verbatim>\<open>name[index]\<close>.  An index below \<^verbatim>\<open>idx\<close> replaces the element and
  jumps to the end, past the label \<^verbatim>\<open>redraw\<close>.
\<close>

definition add_indexed ::
  "u32 \<Rightarrow> string \<Rightarrow> int \<Rightarrow> string \<Rightarrow> switch_event \<Rightarrow> switch_event" where
  "add_indexed stack nm index data event =
     (let found = switch_event_get_header_ptr event nm;
          event = (if found = None \<and> flags event AND EF_UNIQ_HEADERS \<noteq> 0
                   then switch_event_del_header event nm else event);
          hp = (case found of Some i \<Rightarrow> headers event ! i | None \<Rightarrow> new_header nm)
      in if index > -1 \<and> index \<le> 4000 then
           (let k = nat index in
            if k < length (h_array hp) then
              (case found of
                 Some i \<Rightarrow> event\<lparr>headers := (headers event)[i := hp\<lparr>h_array := (h_array hp)[k := data]\<rparr>]\<rparr>
               | None \<Rightarrow> event)
            else
              (let hp = redraw (hp\<lparr>h_array := h_array hp @ replicate (k - length (h_array hp)) [] @ [data]\<rparr>)
               in case found of
                    Some i \<Rightarrow> event\<lparr>headers := (headers event)[i := hp]\<rparr>
                  | None \<Rightarrow> link_header stack hp event))
         else event)"

text \<open>The pieces of an \<^verbatim>\<open>ARRAY::\<close> value that \<^verbatim>\<open>switch_event_add_array\<close> pushes.\<close>

definition array_pieces :: "string \<Rightarrow> string list" where
  "array_pieces val =
     (if length val < 8 then []
      else switch_separate_string_string (drop 7 val) bar (Suc (count_first bar (drop 7 val))))"

lemma array_pieces_shorter [termination_simp]:
  "x \<in> set (array_pieces val) \<Longrightarrow> length x < length val"
  by (auto simp: array_pieces_def switch_separate_string_string_def split: if_splits
      dest!: separate_length)

text \<open>
  \<^verbatim>\<open>switch_event_base_add_header\<close>.  The values of an \<^verbatim>\<open>ARRAY::\<close> text come back to this
  function one by one through \<^verbatim>\<open>switch_event_add_array\<close>.
\<close>

function base_add :: "u32 \<Rightarrow> string \<Rightarrow> string \<Rightarrow> switch_event \<Rightarrow> switch_event" where
  "base_add stack nm data event =
     (let event = (if nm = ''_body'' then switch_event_set_body event (Some data) else event);
          push = (stack AND SWITCH_STACK_PUSH \<noteq> 0 \<or> stack AND SWITCH_STACK_UNSHIFT \<noteq> 0)
      in case split_first ''['' nm of
           Some (real, rest) \<Rightarrow> add_indexed stack real (atoi rest) data event
         | None \<Rightarrow>
             (case (if push then switch_event_get_header_ptr event nm else None) of
                Some i \<Rightarrow>
                  event\<lparr>headers := (headers event)[i := push_header stack data (headers event ! i)]\<rparr>
              | None \<Rightarrow>
                  if data = [] then switch_event_del_header event nm
                  else
                    (let event = (if flags event AND EF_UNIQ_HEADERS \<noteq> 0
                                  then switch_event_del_header event nm else event)
                     in if prefix ''ARRAY::'' data
                        then fold (base_add SWITCH_STACK_PUSH nm) (array_pieces data) event
                        else link_header stack
                               (if push then push_header stack data (new_header nm)
                                else (new_header nm)\<lparr>h_value := Some data\<rparr>) event)))"
  by pat_completeness auto
termination by (relation "measure (\<lambda>(stack, nm, data, event). length data)") (auto simp: array_pieces_shorter)

declare base_add.simps [simp del]

definition switch_event_base_add_header ::
  "switch_event \<Rightarrow> u32 \<Rightarrow> string \<Rightarrow> string \<Rightarrow> switch_status \<times> switch_event" where
  "switch_event_base_add_header event stack nm data = (SWITCH_STATUS_SUCCESS, base_add stack nm data event)"

definition switch_event_add_header_string ::
  "switch_event \<Rightarrow> u32 \<Rightarrow> string \<Rightarrow> string option \<Rightarrow> switch_status \<times> switch_event" where
  "switch_event_add_header_string event stack nm data =
     (case data of
        Some d \<Rightarrow> switch_event_base_add_header event stack nm d
      | None \<Rightarrow> (SWITCH_STATUS_GENERR, event))"

definition add_string :: "u32 \<Rightarrow> string \<Rightarrow> string option \<Rightarrow> switch_event \<Rightarrow> switch_event" where
  "add_string stack nm data event = snd (switch_event_add_header_string event stack nm data)"

definition switch_event_add_array :: "switch_event \<Rightarrow> string \<Rightarrow> string \<Rightarrow> int \<times> switch_event" where
  "switch_event_add_array event var val =
     (if length val < 8 then (-1, event)
      else (0, fold (\<lambda>x. add_string SWITCH_STACK_PUSH var (Some x)) (array_pieces val) event))"

definition switch_event_set_subclass_name ::
  "switch_event \<Rightarrow> string option \<Rightarrow> switch_status \<times> switch_event" where
  "switch_event_set_subclass_name event subclass =
     (case subclass of
        None \<Rightarrow> (SWITCH_STATUS_GENERR, event)
      | Some s \<Rightarrow>
          (let event = switch_event_del_header (event\<lparr>subclass_name := Some s\<rparr>) ''Event-Subclass''
           in (SWITCH_STATUS_SUCCESS, add_string SWITCH_STACK_BOTTOM ''Event-Subclass'' (Some s) event)))"

section \<open>Creating, merging and duplicating events\<close>

definition zero_event :: switch_event where
  "zero_event = \<lparr>event_id = 0, subclass_name = None, headers = [], last_header = None, body = None,
     bind_user_data = 0, event_user_data = 0, key = 0, flags = 0\<rparr>"

text \<open>
  \<open>prep\<close> stands for \<^verbatim>\<open>switch_event_prep_for_delivery_detailed\<close>, which adds the headers that
  describe the host, the time and the caller.
\<close>

definition switch_event_create_subclass ::
  "(switch_event \<Rightarrow> switch_event) \<Rightarrow> nat \<Rightarrow> string option \<Rightarrow> switch_status \<times> switch_event option" where
  "switch_event_create_subclass prep eid subclass =
     (if eid \<noteq> SWITCH_EVENT_CLONE \<and> eid \<noteq> SWITCH_EVENT_CUSTOM \<and> subclass \<noteq> None
      then (SWITCH_STATUS_GENERR, None)
      else
        (let event = zero_event;
             event = (if eid = SWITCH_EVENT_REQUEST_PARAMS \<or> eid = SWITCH_EVENT_CHANNEL_DATA \<or>
                         eid = SWITCH_EVENT_MESSAGE
                      then event\<lparr>flags := flags event OR EF_UNIQ_HEADERS\<rparr> else event);
             event = (if eid \<noteq> SWITCH_EVENT_CLONE then prep (event\<lparr>event_id := eid\<rparr>) else event);
             event = (case subclass of
                        None \<Rightarrow> event
                      | Some s \<Rightarrow> add_string SWITCH_STACK_BOTTOM ''Event-Subclass'' (Some s)
                                   (event\<lparr>subclass_name := Some s\<rparr>))
         in (SWITCH_STATUS_SUCCESS, Some event)))"

text \<open>Copying one header into another event, as merging and duplicating do.\<close>

definition copy_header :: "string \<Rightarrow> switch_event_header \<Rightarrow> switch_event \<Rightarrow> switch_event" where
  "copy_header nm hp event =
     (if h_array hp \<noteq> []
      then fold (\<lambda>x. add_string SWITCH_STACK_PUSH nm (Some x)) (h_array hp) event
      else add_string SWITCH_STACK_BOTTOM nm (h_value hp) event)"

definition switch_event_merge :: "switch_event \<Rightarrow> switch_event \<Rightarrow> switch_event" where
  "switch_event_merge event tomerge = fold (\<lambda>hp. copy_header (h_name hp) hp) (headers tomerge) event"

definition dup_skips :: "switch_event \<Rightarrow> switch_event_header \<Rightarrow> bool" where
  "dup_skips todup hp \<longleftrightarrow> subclass_name todup \<noteq> None \<and> h_name hp = ''Event-Subclass''"

definition dup_start :: "switch_event \<Rightarrow> switch_event" where
  "dup_start todup =
     (the (snd (switch_event_create_subclass (\<lambda>e. e) SWITCH_EVENT_CLONE (subclass_name todup))))
       \<lparr>event_id := event_id todup, event_user_data := event_user_data todup,
        bind_user_data := bind_user_data todup, flags := flags todup\<rparr>"

definition switch_event_dup :: "switch_event \<Rightarrow> switch_status \<times> switch_event" where
  "switch_event_dup todup =
     (let event = dup_start todup;
          event = fold (\<lambda>hp. copy_header (h_name hp) hp)
                    (filter (\<lambda>hp. \<not> dup_skips todup hp) (headers todup)) event;
          event = (if body todup \<noteq> None then event\<lparr>body := body todup\<rparr> else event)
      in (SWITCH_STATUS_SUCCESS, event\<lparr>key := key todup\<rparr>))"

text \<open>The names a reply swaps; \<^verbatim>\<open>switch_snprintf\<close> cuts the new name at 1023 characters.\<close>

definition reply_name :: "string \<Rightarrow> string" where
  "reply_name nm =
     (if strcaseeq (take 5 nm) ''from_'' then take 1023 (''to_'' @ drop 5 nm)
      else if strcaseeq (take 3 nm) ''to_'' then take 1023 (''from_'' @ drop 3 nm)
      else if strcaseeq nm ''to'' then ''from''
      else if strcaseeq nm ''from'' then ''to''
      else nm)"

definition switch_event_dup_reply :: "switch_event \<Rightarrow> switch_status \<times> switch_event" where
  "switch_event_dup_reply todup =
     (let event = dup_start todup;
          event = fold (\<lambda>hp. copy_header (reply_name (h_name hp)) hp)
                    (filter (\<lambda>hp. \<not> dup_skips todup hp) (headers todup)) event;
          event = add_string SWITCH_STACK_BOTTOM ''replying'' (Some ''true'') event;
          event = (case body todup of
                     None \<Rightarrow> event
                   | Some b \<Rightarrow> add_string SWITCH_STACK_BOTTOM ''orig_body'' (Some b) event)
      in (SWITCH_STATUS_SUCCESS, event\<lparr>key := key todup\<rparr>))"

section \<open>The invariant of the header list\<close>

definition last_of :: "'a list \<Rightarrow> nat option" where
  "last_of xs = (if xs = [] then None else Some (length xs - 1))"

definition hash_ok :: "switch_event_header \<Rightarrow> bool" where
  "hash_ok hp \<longleftrightarrow> h_hash hp = switch_ci_hashfunc_default (h_name hp)"

text \<open>The tail pointer points to the last header, and each header has the hash of its name.\<close>

definition ev_inv :: "switch_event \<Rightarrow> bool" where
  "ev_inv event \<longleftrightarrow> last_header event = last_of (headers event) \<and> list_all hash_ok (headers event)"

lemma ev_inv_updates [simp]:
  "ev_inv (event\<lparr>body := b\<rparr>) = ev_inv event"
  "ev_inv (event\<lparr>flags := f\<rparr>) = ev_inv event"
  "ev_inv (event\<lparr>subclass_name := n\<rparr>) = ev_inv event"
  "ev_inv (event\<lparr>event_id := i\<rparr>) = ev_inv event"
  "ev_inv (event\<lparr>key := k\<rparr>) = ev_inv event"
  "ev_inv (event\<lparr>bind_user_data := d\<rparr>) = ev_inv event"
  "ev_inv (event\<lparr>event_user_data := d\<rparr>) = ev_inv event"
  by (simp_all add: ev_inv_def)

lemma ci_hash_cong: "strcaseeq a b \<Longrightarrow> switch_ci_hashfunc_default a = switch_ci_hashfunc_default b"
proof -
  have "map c_tolower a = map c_tolower b \<Longrightarrow> ci_hash_loop h a = ci_hash_loop h b" for h
  proof (induction a arbitrary: b h)
    case (Cons c a)
    then obtain d b' where "b = d # b'" "c_tolower c = c_tolower d" "map c_tolower a = map c_tolower b'"
      by (cases b) auto
    with Cons.IH show ?case by simp
  qed simp
  then show "strcaseeq a b \<Longrightarrow> ?thesis" by (simp add: strcaseeq_def switch_ci_hashfunc_default_def)
qed

lemma strcaseeq_refl [simp]: "strcaseeq a a"
  and strcaseeq_sym: "strcaseeq a b \<Longrightarrow> strcaseeq b a"
  and strcaseeq_trans: "strcaseeq a b \<Longrightarrow> strcaseeq b c \<Longrightarrow> strcaseeq a c"
  by (simp_all add: strcaseeq_def)

text \<open>With the right hashes the shortcut changes nothing: names are compared without case.\<close>

lemma header_matches_iff: "hash_ok hp \<Longrightarrow> header_matches nm hp \<longleftrightarrow> strcaseeq (h_name hp) nm"
  using ci_hash_cong [of "h_name hp" nm] by (auto simp: header_matches_def hash_ok_def)

lemma find_header_find:
  "find_header nm hs = None \<longleftrightarrow> List.find (header_matches nm) hs = None"
  "find_header nm hs = Some i \<Longrightarrow> i < length hs \<and> List.find (header_matches nm) hs = Some (hs ! i)"
  by (induction hs arbitrary: i) (auto split: if_splits)

definition lookup :: "string \<Rightarrow> switch_event_header list \<Rightarrow> switch_event_header option" where
  "lookup nm hs = List.find (\<lambda>hp. strcaseeq (h_name hp) nm) hs"

lemma find_lookup:
  "list_all hash_ok hs \<Longrightarrow> List.find (header_matches nm) hs = lookup nm hs"
  by (induction hs) (auto simp: lookup_def header_matches_iff)

lemma get_ptr_lookup:
  assumes "ev_inv event"
  shows "switch_event_get_header_ptr event nm = None \<longleftrightarrow> lookup nm (headers event) = None"
    and "switch_event_get_header_ptr event nm = Some i \<Longrightarrow>
      i < length (headers event) \<and> lookup nm (headers event) = Some (headers event ! i)"
  using assms find_header_find [of nm "headers event"] find_lookup [of "headers event" nm]
  by (auto simp: switch_event_get_header_ptr_def ev_inv_def)

lemma get_header_lookup:
  "ev_inv event \<Longrightarrow> switch_event_get_header_idx event nm idx =
     (case lookup nm (headers event) of
        Some hp \<Rightarrow>
          if idx > -1 then (if idx < int (length (h_array hp)) then Some (h_array hp ! nat idx) else None)
          else h_value hp
      | None \<Rightarrow> if nm = ''_body'' then body event else None)"
  using get_ptr_lookup [of event nm]
  by (auto simp: switch_event_get_header_idx_def Let_def split: option.split)

lemma lookup_simps [simp]:
  "lookup nm [] = None"
  "lookup nm (hp # hs) = (if strcaseeq (h_name hp) nm then Some hp else lookup nm hs)"
  by (simp_all add: lookup_def)

lemma lookup_append: "lookup nm (xs @ ys) = (case lookup nm xs of None \<Rightarrow> lookup nm ys | Some h \<Rightarrow> Some h)"
  by (induction xs) (auto simp: lookup_def)

lemma lookup_filter:
  "lookup n (filter (\<lambda>hp. \<not> strcaseeq (h_name hp) nm) hs) = (if strcaseeq nm n then None else lookup n hs)"
  by (induction hs) (auto simp: lookup_def dest: strcaseeq_trans intro: strcaseeq_sym
      strcaseeq_trans [OF _ strcaseeq_sym])

section \<open>Each operation on the header list\<close>

lemma unlink_last_of:
  "unlink_last (length kept) (tp = []) (last_of (kept @ hp # tp)) = last_of (kept @ tp)"
  by (auto simp: unlink_last_def last_of_def)

lemma del_loop_spec:
  "lst = last_of (kept @ tp) \<Longrightarrow>
   del_loop m kept tp lst found =
     (found \<or> (\<exists>hp \<in> set tp. m hp), kept @ filter (\<lambda>hp. \<not> m hp) tp,
      last_of (kept @ filter (\<lambda>hp. \<not> m hp) tp))"
proof (induction tp arbitrary: kept lst found)
  case (Cons hp tp)
  show ?case
  proof (cases "m hp")
    case True
    with Cons.IH [of "unlink_last (length kept) (tp = []) lst" kept True] Cons.prems
    show ?thesis by (simp add: unlink_last_of)
  next
    case False
    with Cons.IH [of lst "kept @ [hp]" found] Cons.prems show ?thesis by simp
  qed
qed simp

lemma del_header_spec:
  fixes nm :: string and val :: "string option"
  assumes "ev_inv event"
  defines "m \<equiv> \<lambda>hp. strcaseeq (h_name hp) nm \<and> val_matches val hp"
  shows "switch_event_del_header_val event nm val =
    (if \<exists>hp \<in> set (headers event). m hp then SWITCH_STATUS_SUCCESS else SWITCH_STATUS_FALSE,
     event\<lparr>headers := filter (\<lambda>hp. \<not> m hp) (headers event),
           last_header := last_of (filter (\<lambda>hp. \<not> m hp) (headers event))\<rparr>)"
proof -
  let ?m = "\<lambda>hp. header_matches nm hp \<and> val_matches val hp"
  have eq: "hp \<in> set (headers event) \<Longrightarrow> ?m hp \<longleftrightarrow> m hp" for hp
    using assms(1) by (auto simp: m_def ev_inv_def list_all_iff header_matches_iff)
  have "filter (\<lambda>hp. \<not> ?m hp) (headers event) = filter (\<lambda>hp. \<not> m hp) (headers event)"
    using eq by (intro filter_cong) auto
  moreover have "(\<exists>hp \<in> set (headers event). ?m hp) \<longleftrightarrow> (\<exists>hp \<in> set (headers event). m hp)"
    using eq by blast
  ultimately show ?thesis
    using assms(1) del_loop_spec [of "last_header event" "[]" "headers event" ?m False]
    by (simp add: switch_event_del_header_val_def ev_inv_def)
qed

lemma del_header_inv: "ev_inv event \<Longrightarrow> ev_inv (snd (switch_event_del_header_val event nm val))"
  by (auto simp: del_header_spec ev_inv_def list_all_iff)

lemma del_header_headers:
  "ev_inv event \<Longrightarrow> headers (switch_event_del_header event nm) =
     filter (\<lambda>hp. \<not> strcaseeq (h_name hp) nm) (headers event)"
  by (simp add: switch_event_del_header_def del_header_spec val_matches_def)

lemma del_header_other:
  "body (switch_event_del_header event nm) = body event"
  "flags (switch_event_del_header event nm) = flags event"
  "subclass_name (switch_event_del_header event nm) = subclass_name event"
  by (simp_all add: switch_event_del_header_def switch_event_del_header_val_def split: prod.split)

lemma del_header_absent:
  assumes "ev_inv event" "lookup nm (headers event) = None"
  shows "switch_event_del_header event nm = event"
proof -
  have "\<forall>hp \<in> set (headers event). \<not> strcaseeq (h_name hp) nm"
    using assms(2) by (auto simp: lookup_def find_None_iff)
  then have "filter (\<lambda>hp. \<not> (strcaseeq (h_name hp) nm \<and> val_matches None hp)) (headers event) = headers event"
    by (simp add: filter_id_conv)
  then show ?thesis
    using assms(1) by (simp add: switch_event_del_header_def del_header_spec ev_inv_def)
qed

lemma link_header_spec:
  assumes "ev_inv event"
  defines "hp' \<equiv> \<lambda>hp. hp\<lparr>h_hash := switch_ci_hashfunc_default (h_name hp)\<rparr>"
  shows "headers (link_header stack hp event) =
      (if stack AND SWITCH_STACK_TOP \<noteq> 0 then hp' hp # headers event else headers event @ [hp' hp])"
    and "ev_inv (link_header stack hp event)"
    and "body (link_header stack hp event) = body event"
    and "flags (link_header stack hp event) = flags event"
    and "subclass_name (link_header stack hp event) = subclass_name event"
  using assms(1)
  by (auto simp: link_header_def hp'_def Let_def ev_inv_def last_of_def hash_ok_def split: option.split)

lemma update_header_inv:
  assumes "ev_inv event" "i < length (headers event)" "h_name hp = h_name (headers event ! i)"
    "h_hash hp = h_hash (headers event ! i)"
  shows "ev_inv (event\<lparr>headers := (headers event)[i := hp]\<rparr>)"
proof -
  have "hash_ok (headers event ! i)"
    using assms(1,2) by (simp add: ev_inv_def list_all_length)
  then have "hash_ok hp" using assms(3,4) by (simp add: hash_ok_def)
  then show ?thesis
    using assms(1,2) by (auto simp: ev_inv_def last_of_def list_all_length nth_list_update)
qed

lemma push_header_name [simp]:
  "h_name (push_header stack data hp) = h_name hp" "h_hash (push_header stack data hp) = h_hash hp"
  by (auto simp: push_header_def Let_def redraw_def split: option.split)

lemma redraw_name [simp]: "h_name (redraw hp) = h_name hp" "h_hash (redraw hp) = h_hash hp"
  by (auto simp: redraw_def)

lemma add_indexed_inv:
  assumes "ev_inv event"
  shows "ev_inv (add_indexed stack nm index data event)"
proof (cases "switch_event_get_header_ptr event nm")
  case None
  then have "switch_event_del_header event nm = event"
    using assms del_header_absent get_ptr_lookup(1) by blast
  then show ?thesis
    using None assms link_header_spec(2) by (auto simp: add_indexed_def Let_def)
next
  case (Some i)
  then have "i < length (headers event)" using get_ptr_lookup(2) [OF assms] by blast
  then show ?thesis
    using Some assms by (auto simp: add_indexed_def Let_def intro!: update_header_inv)
qed

lemma base_add_inv: "ev_inv event \<Longrightarrow> ev_inv (base_add stack nm data event)"
proof (induction "length data" arbitrary: stack nm data event rule: less_induct)
  case less
  define e1 where "e1 = (if nm = ''_body'' then switch_event_set_body event (Some data) else event)"
  define e2 where "e2 = (if flags e1 AND EF_UNIQ_HEADERS \<noteq> 0 then switch_event_del_header e1 nm else e1)"
  define push where
    "push \<longleftrightarrow> stack AND SWITCH_STACK_PUSH \<noteq> 0 \<or> stack AND SWITCH_STACK_UNSHIFT \<noteq> 0"
  have e1: "ev_inv e1" using less.prems by (simp add: e1_def switch_event_set_body_def)
  have e2: "ev_inv e2" using e1 del_header_inv by (simp add: e2_def switch_event_del_header_def)
  have fold: "ev_inv (fold (base_add SWITCH_STACK_PUSH nm) (array_pieces data) e2)"
    by (rule fold_invariant [where Q = "\<lambda>x. length x < length data"])
      (simp_all add: array_pieces_shorter e2 less.hyps)
  have upd: "switch_event_get_header_ptr e1 nm = Some i \<Longrightarrow>
      ev_inv (e1\<lparr>headers := (headers e1)[i := push_header stack data (headers e1 ! i)]\<rparr>)" for i
    using e1 get_ptr_lookup(2) [OF e1] by (intro update_header_inv) auto
  have del: "ev_inv (switch_event_del_header e1 nm)"
    using e1 del_header_inv by (simp add: switch_event_del_header_def)
  have unf: "base_add stack nm data event =
      (case split_first ''['' nm of
         Some (real, rest) \<Rightarrow> add_indexed stack real (atoi rest) data e1
       | None \<Rightarrow>
           (case (if push then switch_event_get_header_ptr e1 nm else None) of
              Some i \<Rightarrow> e1\<lparr>headers := (headers e1)[i := push_header stack data (headers e1 ! i)]\<rparr>
            | None \<Rightarrow> if data = [] then switch_event_del_header e1 nm
                else if prefix ''ARRAY::'' data
                     then fold (base_add SWITCH_STACK_PUSH nm) (array_pieces data) e2
                else link_header stack (if push then push_header stack data (new_header nm)
                                        else (new_header nm)\<lparr>h_value := Some data\<rparr>) e2))"
    by (simp only: base_add.simps [of stack nm data event] Let_def e1_def e2_def push_def)
  show ?case
    unfolding unf using e1 e2 fold upd del
    by (auto simp: add_indexed_inv link_header_spec(2) split: option.splits prod.splits if_splits)
qed

lemma add_string_inv: "ev_inv event \<Longrightarrow> ev_inv (add_string stack nm data event)"
  by (simp add: add_string_def switch_event_add_header_string_def switch_event_base_add_header_def
      base_add_inv split: option.split)

lemma add_string_Some [simp]: "add_string stack nm (Some d) = base_add stack nm d"
  by (rule ext) (simp add: add_string_def switch_event_add_header_string_def switch_event_base_add_header_def)

lemma copy_header_inv: "ev_inv event \<Longrightarrow> ev_inv (copy_header nm hp event)"
  by (simp add: copy_header_def add_string_inv fold_invariant [where Q = "\<lambda>_. True"] base_add_inv)

lemma copy_headers_inv: "ev_inv event \<Longrightarrow> ev_inv (fold (\<lambda>hp. copy_header (f hp) hp) hs event)"
  by (rule fold_invariant [where Q = "\<lambda>_. True"]) (simp_all add: copy_header_inv)

text \<open>A name without an index, a value that is neither empty nor an array.\<close>

definition plain_name :: "string \<Rightarrow> bool" where
  "plain_name nm \<longleftrightarrow> split_first ''['' nm = None \<and> nm \<noteq> ''_body''"

definition plain_value :: "string \<Rightarrow> bool" where
  "plain_value v \<longleftrightarrow> v \<noteq> [] \<and> \<not> prefix ''ARRAY::'' v"

definition pushes :: "u32 \<Rightarrow> bool" where
  "pushes stack \<longleftrightarrow> stack AND SWITCH_STACK_PUSH \<noteq> 0 \<or> stack AND SWITCH_STACK_UNSHIFT \<noteq> 0"

lemma pushes_simps [simp]:
  "pushes SWITCH_STACK_PUSH" "\<not> pushes SWITCH_STACK_BOTTOM" "\<not> pushes SWITCH_STACK_TOP"
  "pushes SWITCH_STACK_UNSHIFT"
  by (simp_all add: pushes_def stack_flags)

lemma base_add_plain:
  assumes "plain_name nm" "plain_value data" "\<not> pushes stack"
  shows "base_add stack nm data event = link_header stack ((new_header nm)\<lparr>h_value := Some data\<rparr>)
    (if flags event AND EF_UNIQ_HEADERS \<noteq> 0 then switch_event_del_header event nm else event)"
  using assms by (simp add: base_add.simps [of stack nm data event] plain_name_def plain_value_def pushes_def)

lemma base_add_push_found:
  assumes "plain_name nm" "pushes stack" "switch_event_get_header_ptr event nm = Some i"
  shows "base_add stack nm data event =
    event\<lparr>headers := (headers event)[i := push_header stack data (headers event ! i)]\<rparr>"
  using assms by (simp add: base_add.simps [of stack nm data event] plain_name_def pushes_def Let_def)

lemma base_add_push_new:
  assumes "plain_name nm" "plain_value data" "pushes stack" "ev_inv event"
    and "lookup nm (headers event) = None"
  shows "base_add stack nm data event =
    link_header stack (push_header stack data (new_header nm)) event"
  using assms get_ptr_lookup(1) [OF assms(4), of nm] del_header_absent [OF assms(4,5)]
  by (simp add: base_add.simps [of stack nm data event] plain_name_def plain_value_def pushes_def Let_def)

lemma find_header_update:
  "i < length hs \<Longrightarrow> h_name hp = h_name (hs ! i) \<Longrightarrow> h_hash hp = h_hash (hs ! i) \<Longrightarrow>
   find_header nm (hs[i := hp]) = find_header nm hs"
proof (induction hs arbitrary: i)
  case (Cons a hs)
  then show ?case by (cases i) (auto simp: header_matches_def)
qed simp

text \<open>Pushing onto a header that is an array already.\<close>

lemma push_all:
  assumes "plain_name nm" "switch_event_get_header_ptr event nm = Some i" "i < length (headers event)"
    "headers event ! i = hp" "h_array hp \<noteq> []"
  shows "fold (base_add SWITCH_STACK_PUSH nm) zs event =
    (if zs = [] then event else
     event\<lparr>headers := (headers event)[i := hp\<lparr>h_array := h_array hp @ zs,
        h_value := Some (array_text (h_array hp @ zs))\<rparr>]\<rparr>)"
  using assms
proof (induction zs arbitrary: event hp)
  case (Cons z zs)
  let ?hp = "hp\<lparr>h_array := h_array hp @ [z], h_value := Some (array_text (h_array hp @ [z]))\<rparr>"
  let ?e = "event\<lparr>headers := (headers event)[i := ?hp]\<rparr>"
  have "push_header SWITCH_STACK_PUSH z hp = ?hp"
    using Cons.prems(5) by (auto simp: push_header_def Let_def redraw_def stack_flags split: option.split)
  then have step: "base_add SWITCH_STACK_PUSH nm z event = ?e"
    unfolding base_add_push_found [OF Cons.prems(1) pushes_simps(1) Cons.prems(2)] Cons.prems(4) by simp
  have ptr: "switch_event_get_header_ptr ?e nm = Some i"
    using Cons.prems(2-4) find_header_update [of i "headers event" ?hp nm]
    by (simp add: switch_event_get_header_ptr_def)
  have "fold (base_add SWITCH_STACK_PUSH nm) zs ?e =
      (if zs = [] then ?e else ?e\<lparr>headers := (headers ?e)[i := ?hp\<lparr>h_array := h_array ?hp @ zs,
        h_value := Some (array_text (h_array ?hp @ zs))\<rparr>]\<rparr>)"
    using Cons.prems(3) by (intro Cons.IH [OF Cons.prems(1) ptr]) simp_all
  then show ?case by (cases "zs = []") (simp_all add: step)
qed simp

text \<open>The headers a copy reproduces: what the other operations make of plain names and values.\<close>

definition copyable :: "switch_event_header \<Rightarrow> bool" where
  "copyable hp \<longleftrightarrow> plain_name (h_name hp) \<and> hash_ok hp \<and>
     (case h_array hp of
        [] \<Rightarrow> (case h_value hp of None \<Rightarrow> False | Some v \<Rightarrow> plain_value v)
      | x # _ \<Rightarrow> plain_value x \<and> h_value hp = Some (array_text (h_array hp)))"

lemma append_header:
  "ev_inv event \<Longrightarrow> stack AND SWITCH_STACK_TOP = 0 \<Longrightarrow>
   link_header stack hp event = event\<lparr>headers := headers event @
     [hp\<lparr>h_hash := switch_ci_hashfunc_default (h_name hp)\<rparr>], last_header := Some (length (headers event))\<rparr>"
  by (auto simp: link_header_def Let_def ev_inv_def last_of_def split: option.split)

lemma copy_array:
  assumes "ev_inv event" "lookup nm (headers event) = None" "plain_name nm" "plain_value x"
  shows "fold (base_add SWITCH_STACK_PUSH nm) (x # xs) event =
    event\<lparr>headers := headers event @ [\<lparr>h_name = nm, h_value = Some (array_text (x # xs)),
       h_array = x # xs, h_hash = switch_ci_hashfunc_default nm\<rparr>],
     last_header := Some (length (headers event))\<rparr>"
proof -
  define hp where "hp = (\<lambda>ys. \<lparr>h_name = nm, h_value = Some (array_text ys), h_array = ys,
    h_hash = switch_ci_hashfunc_default nm\<rparr>)"
  let ?e = "event\<lparr>headers := headers event @ [hp [x]], last_header := Some (length (headers event))\<rparr>"
  have step: "base_add SWITCH_STACK_PUSH nm x event = ?e"
    using base_add_push_new [OF assms(3,4) pushes_simps(1) assms(1,2)] assms(1)
    by (simp add: append_header push_header_def new_header_def redraw_def stack_flags hp_def Let_def)
  have "ev_inv ?e" using assms(1) base_add_inv step by metis
  moreover have "lookup nm (headers ?e) = Some (hp [x])"
    using assms(2) by (simp add: lookup_append hp_def)
  ultimately obtain i where i: "switch_event_get_header_ptr ?e nm = Some i"
    using get_ptr_lookup(1) by (metis not_None_eq option.distinct(1))
  have "find_header nm (headers event) = None"
    using assms(1,2) get_ptr_lookup(1) by (simp add: switch_event_get_header_ptr_def)
  moreover have "find_header nm (xs @ [h]) = Some i \<Longrightarrow> find_header nm xs = None \<Longrightarrow> i = length xs" for xs h i
    by (induction xs arbitrary: i) (auto split: if_splits)
  ultimately have "i = length (headers event)"
    using i by (simp add: switch_event_get_header_ptr_def)
  with push_all [OF assms(3) i, of "hp [x]" xs] step show ?thesis
    by (auto simp: hp_def)
qed

lemma copy_header_append:
  assumes "ev_inv event" "lookup (h_name hp) (headers event) = None" "copyable hp"
  shows "copy_header (h_name hp) hp event =
    event\<lparr>headers := headers event @ [hp], last_header := Some (length (headers event))\<rparr>"
proof -
  obtain nm val arr hsh where hp: "hp = \<lparr>h_name = nm, h_value = val, h_array = arr, h_hash = hsh\<rparr>"
    by (cases hp)
  have c: "plain_name nm" "hsh = switch_ci_hashfunc_default nm"
    using assms(3) by (simp_all add: copyable_def hp hash_ok_def)
  have absent: "lookup nm (headers event) = None" using assms(2) by (simp add: hp)
  show ?thesis
  proof (cases arr)
    case Nil
    then obtain v where v: "val = Some v" "plain_value v"
      using assms(3) by (auto simp: copyable_def hp split: option.splits)
    have "base_add SWITCH_STACK_BOTTOM nm v event =
        link_header SWITCH_STACK_BOTTOM ((new_header nm)\<lparr>h_value := Some v\<rparr>) event"
      using base_add_plain [OF c(1) v(2) pushes_simps(2), of event] del_header_absent [OF assms(1) absent]
      by simp
    with assms(1) show ?thesis
      by (simp add: hp Nil v(1) c(2) copy_header_def append_header new_header_def stack_flags)
  next
    case (Cons x xs)
    then have v: "plain_value x" "val = Some (array_text (x # xs))"
      using assms(3) by (auto simp: copyable_def hp)
    show ?thesis
      using copy_array [OF assms(1) absent c(1) v(1), of xs]
      by (simp add: hp Cons v(2) c(2) copy_header_def del: fold_simps)
  qed
qed

lemma copy_headers_append:
  assumes "ev_inv event" "\<forall>hp \<in> set hs. copyable hp"
    "\<forall>hp \<in> set hs. lookup (h_name hp) (headers event) = None"
    "sorted_wrt (\<lambda>a b. \<not> strcaseeq (h_name a) (h_name b)) hs"
  shows "headers (fold (\<lambda>hp. copy_header (h_name hp) hp) hs event) = headers event @ hs"
  using assms
proof (induction hs arbitrary: event)
  case (Cons hp hs)
  let ?e = "event\<lparr>headers := headers event @ [hp], last_header := Some (length (headers event))\<rparr>"
  have step: "copy_header (h_name hp) hp event = ?e"
    using Cons.prems by (intro copy_header_append) auto
  have "ev_inv ?e" using Cons.prems(1) copy_header_inv step by metis
  moreover have "\<forall>x \<in> set hs. lookup (h_name x) (headers ?e) = None"
    using Cons.prems(3,4) by (auto simp: lookup_append)
  ultimately have "headers (fold (\<lambda>hp. copy_header (h_name hp) hp) hs ?e) = headers ?e @ hs"
    using Cons.prems(2,4) by (intro Cons.IH) auto
  then show ?case by (simp add: step)
qed simp

lemma array_pieces_text:
  assumes "1 < length xs" "\<And>x. x \<in> set xs \<Longrightarrow> split_first bar x = None"
  shows "array_pieces (array_text xs) = xs"
proof -
  have "xs \<noteq> []" using assms(1) by auto
  have "count_first bar (join bar xs) = length xs - 1"
    using \<open>xs \<noteq> []\<close> assms(2) by (rule count_join)
  moreover have "0 < length (join bar xs)"
    using assms(1) by (cases xs; cases "tl xs") (auto simp: join_def bar_def)
  ultimately show ?thesis
    using assms(1) separate_join [OF \<open>xs \<noteq> []\<close> assms(2)]
    by (simp add: array_pieces_def array_text_def switch_separate_string_string_def)
qed

lemma zero_event_inv [simp]: "ev_inv zero_event"
  by (simp add: ev_inv_def zero_event_def last_of_def)

lemma dup_start_inv: "ev_inv (dup_start todup)"
  by (auto simp: dup_start_def switch_event_create_subclass_def event_ids Let_def
      intro!: base_add_inv split: option.split)

section \<open>Properties\<close>

text \<open>
  C13: Setting a header of an event with unique headers, or putting it on top, is a map update on
  case-insensitive names: afterwards the name in any case gives the new value, every other
  name what it gave before, and the header list stays well formed.  This is for a well-formed event, a
  name without a bracket that is not \<^verbatim>\<open>_body\<close>, a value that is not empty (an empty one deletes the header) and does
  not begin with \<^verbatim>\<open>ARRAY::\<close>, and a stack argument that pushes on neither end of an array.\<close>
theorem event_add_get:
  assumes "ev_inv event" "plain_name nm" "plain_value data" "\<not> pushes stack"
    and "flags event AND EF_UNIQ_HEADERS \<noteq> 0 \<or> stack AND SWITCH_STACK_TOP \<noteq> 0"
  shows "\<exists>event'. switch_event_add_header_string event stack nm (Some data) =
      (SWITCH_STATUS_SUCCESS, event') \<and> ev_inv event' \<and>
    (\<forall>n. switch_event_get_header event' n =
       (if strcaseeq nm n then Some data else switch_event_get_header event n))"
proof -
  let ?h = "(new_header nm)\<lparr>h_value := Some data\<rparr>"
  define e where "e = (if flags event AND EF_UNIQ_HEADERS \<noteq> 0 then switch_event_del_header event nm else event)"
  define e' where "e' = link_header stack ?h e"
  have e: "ev_inv e"
    using assms(1) del_header_inv by (simp add: e_def switch_event_del_header_def)
  have add: "switch_event_add_header_string event stack nm (Some data) = (SWITCH_STATUS_SUCCESS, e')"
    using base_add_plain [OF assms(2-4), of event]
    by (simp add: switch_event_add_header_string_def switch_event_base_add_header_def e'_def e_def)
  have inv: "ev_inv e'" using e by (simp add: e'_def link_header_spec)
  have bd: "body e' = body event" using e by (simp add: e'_def e_def link_header_spec del_header_other)
  have "lookup n (headers e') = (if strcaseeq nm n
      then Some (?h\<lparr>h_hash := switch_ci_hashfunc_default nm\<rparr>) else lookup n (headers event))" for n
    using e assms(1,5)
    by (auto simp: e'_def link_header_spec lookup_append new_header_def e_def del_header_headers lookup_filter
        split: option.split)
  then have "switch_event_get_header e' n =
      (if strcaseeq nm n then Some data else switch_event_get_header event n)" for n
    using inv assms(1) bd by (simp add: get_header_lookup split: option.split)
  with add inv show ?thesis by blast
qed

lemma event_add_get_witness:
  "\<exists>event'. switch_event_add_header_string (zero_event\<lparr>flags := EF_UNIQ_HEADERS\<rparr>) SWITCH_STACK_BOTTOM
      ''Answer'' (Some ''yes'') = (SWITCH_STATUS_SUCCESS, event') \<and>
    switch_event_get_header event' ''ANSWER'' = Some ''yes''"
proof -
  have "strcaseeq ''Answer'' ''ANSWER''" by code_simp
  then show ?thesis
    using event_add_get [of "zero_event\<lparr>flags := EF_UNIQ_HEADERS\<rparr>" "''Answer''" "''yes''" SWITCH_STACK_BOTTOM]
    by (auto simp: plain_name_def plain_value_def EF_UNIQ_HEADERS_def)
qed

text \<open>
  C35: Deleting a header removes every header of that name in any case, and only those: the
  result says whether there was one, the other names keep their headers, and the tail
  pointer again points to the last header, so that the next header is appended to the whole list.\<close>
theorem event_del_removes:
  assumes "ev_inv event"
  shows "\<exists>event'. switch_event_del_header_val event nm None =
      (if lookup nm (headers event) = None then SWITCH_STATUS_FALSE else SWITCH_STATUS_SUCCESS, event') \<and>
    ev_inv event' \<and>
    switch_event_get_header_ptr event' nm = None \<and>
    (\<forall>n idx. \<not> strcaseeq nm n \<longrightarrow>
       switch_event_get_header_idx event' n idx = switch_event_get_header_idx event n idx)"
proof -
  let ?e = "snd (switch_event_del_header_val event nm None)"
  have hd: "headers ?e = filter (\<lambda>hp. \<not> strcaseeq (h_name hp) nm) (headers event)"
    using del_header_headers [OF assms, of nm] by (simp add: switch_event_del_header_def)
  have "body ?e = body event" using del_header_other(1) [of event nm] by (simp add: switch_event_del_header_def)
  moreover have inv: "ev_inv ?e" using assms by (rule del_header_inv)
  moreover have "fst (switch_event_del_header_val event nm None) =
      (if lookup nm (headers event) = None then SWITCH_STATUS_FALSE else SWITCH_STATUS_SUCCESS)"
    using assms by (auto simp: del_header_spec val_matches_def lookup_def find_None_iff)
  ultimately show ?thesis
    using get_ptr_lookup(1) [OF inv, of nm] assms
    by (intro exI [of _ ?e]) (simp add: hd lookup_filter get_header_lookup prod_eq_iff split: option.split)
qed

definition sample_event :: switch_event where
  "sample_event = base_add SWITCH_STACK_BOTTOM ''b'' ''2'' (base_add SWITCH_STACK_BOTTOM ''a'' ''1'' zero_event)"

lemma sample_event_inv: "ev_inv sample_event"
  by (simp add: sample_event_def base_add_inv)

lemma event_del_removes_witness:
  "ev_inv sample_event \<and>
   switch_event_get_header_ptr (snd (switch_event_del_header_val sample_event ''B'' None)) ''B'' = None"
  using event_del_removes [OF sample_event_inv, of "''B''"] sample_event_inv by auto

text \<open>
  C30: Array values round trip: storing the text of an array under a name the event has not, as the
  channel variable code does, gives back each element by its index and the whole text as the
  value, provided no element contains the separator and the first is neither empty nor itself
  an array text.\<close>
theorem event_array_roundtrip:
  assumes "ev_inv event" "plain_name nm" "lookup nm (headers event) = None"
    and "1 < length xs" "\<forall>x \<in> set xs. split_first bar x = None" "plain_value (hd xs)"
  shows "\<exists>event'. switch_event_add_header_string event SWITCH_STACK_BOTTOM nm (Some (array_text xs)) =
      (SWITCH_STATUS_SUCCESS, event') \<and> ev_inv event' \<and>
    switch_event_get_header event' nm = Some (array_text xs) \<and>
    (\<forall>i < length xs. switch_event_get_header_idx event' nm (int i) = Some (xs ! i)) \<and>
    switch_event_get_header_idx event' nm (int (length xs)) = None"
proof -
  obtain x ys where xs: "xs = x # ys" using assms(4) by (cases xs) auto
  define hp where "hp = \<lparr>h_name = nm, h_value = Some (array_text xs), h_array = xs,
    h_hash = switch_ci_hashfunc_default nm\<rparr>"
  let ?e = "event\<lparr>headers := headers event @ [hp], last_header := Some (length (headers event))\<rparr>"
  have pre: "prefix ''ARRAY::'' (array_text xs)" using assms(4) by (simp add: array_text_def)
  have "base_add SWITCH_STACK_BOTTOM nm (array_text xs) event =
      fold (base_add SWITCH_STACK_PUSH nm) (array_pieces (array_text xs)) event"
    using assms(2) pre del_header_absent [OF assms(1,3)] pushes_simps(2)
    by (subst base_add.simps) (auto simp: plain_name_def pushes_def)
  also have "\<dots> = ?e"
  proof -
    have "array_pieces (array_text xs) = x # ys"
      using array_pieces_text [OF assms(4)] assms(5) xs by blast
    then show ?thesis
      using copy_array [OF assms(1,3,2), of x ys] assms(6)
      by (simp only: xs list.sel) (simp add: hp_def xs)
  qed
  finally have add: "base_add SWITCH_STACK_BOTTOM nm (array_text xs) event = ?e" .
  have inv: "ev_inv ?e" using base_add_inv [OF assms(1)] add by metis
  have "lookup nm (headers ?e) = Some hp"
    using assms(3) by (simp add: lookup_append hp_def)
  then show ?thesis
    using add inv by (auto simp: switch_event_add_header_string_def switch_event_base_add_header_def
        get_header_lookup hp_def)
qed

lemma event_array_roundtrip_witness:
  "\<exists>event'. switch_event_add_header_string sample_event SWITCH_STACK_BOTTOM ''v''
      (Some ''ARRAY::one|:two'') = (SWITCH_STATUS_SUCCESS, event') \<and>
    switch_event_get_header_idx event' ''v'' 1 = Some ''two''"
proof -
  have "lookup ''v'' (headers sample_event) = None"
    by (simp add: sample_event_def base_add_plain plain_name_def plain_value_def append_header
        zero_event_def EF_UNIQ_HEADERS_def SWITCH_STACK_BOTTOM_def SWITCH_STACK_TOP_def ev_inv_def
        last_of_def lookup_def new_header_def strcaseeq_def c_tolower_def Let_def pushes_def
        SWITCH_STACK_PUSH_def SWITCH_STACK_UNSHIFT_def hash_ok_def)
  then show ?thesis
    using event_array_roundtrip [OF sample_event_inv, of "''v''" "[''one'', ''two'']"]
    by (simp add: plain_name_def plain_value_def bar_def array_text_def join_def prefix_def)
      (metis One_nat_def lessI nth_Cons_0 nth_Cons_Suc of_nat_1 numeral_2_eq_2)
qed

text \<open>
  Duplicating an event without a subclass whose header names differ beyond their case gives an event with
  the very same list of headers, arrays included, and the same body, flags and key.\<close>
theorem event_dup_copies:
  assumes "subclass_name todup = None" "\<forall>hp \<in> set (headers todup). copyable hp"
    and "sorted_wrt (\<lambda>a b. \<not> strcaseeq (h_name a) (h_name b)) (headers todup)"
  shows "\<exists>event. switch_event_dup todup = (SWITCH_STATUS_SUCCESS, event) \<and> ev_inv event \<and>
    headers event = headers todup \<and> key event = key todup \<and>
    (\<forall>nm idx. nm \<noteq> ''_body'' \<longrightarrow> ev_inv todup \<longrightarrow>
       switch_event_get_header_idx event nm idx = switch_event_get_header_idx todup nm idx)"
proof -
  have start: "dup_start todup = zero_event\<lparr>event_id := event_id todup, event_user_data := event_user_data todup,
      bind_user_data := bind_user_data todup, flags := flags todup\<rparr>"
    using assms(1) by (simp add: dup_start_def switch_event_create_subclass_def event_ids)
  have "filter (\<lambda>hp. \<not> dup_skips todup hp) (headers todup) = headers todup"
    using assms(1) by (simp add: dup_skips_def)
  moreover have "headers (fold (\<lambda>hp. copy_header (h_name hp) hp) (headers todup) (dup_start todup)) = headers todup"
    using copy_headers_append [OF dup_start_inv assms(2) _ assms(3), of todup]
    by (simp add: start) (simp add: zero_event_def)
  moreover have "ev_inv (fold (\<lambda>hp. copy_header (h_name hp) hp) (headers todup) (dup_start todup))"
    by (intro copy_headers_inv dup_start_inv)
  ultimately show ?thesis
    by (auto simp: switch_event_dup_def Let_def get_header_lookup split: option.split)
qed

lemma event_dup_copies_witness:
  "\<exists>event. switch_event_dup (zero_event\<lparr>headers := [\<lparr>h_name = ''a'', h_value = Some ''1'', h_array = [],
       h_hash = switch_ci_hashfunc_default ''a''\<rparr>]\<rparr>) = (SWITCH_STATUS_SUCCESS, event) \<and>
     length (headers event) = 1"
  using event_dup_copies [of "zero_event\<lparr>headers := [\<lparr>h_name = ''a'', h_value = Some ''1'', h_array = [],
       h_hash = switch_ci_hashfunc_default ''a''\<rparr>]\<rparr>"]
  by (auto simp: zero_event_def copyable_def plain_name_def plain_value_def hash_ok_def)

text \<open>
  Writing an element \<^verbatim>\<open>name[k]\<close> that the array has already changes the element but not the text of the
  header: reading by index gives the new element, reading the whole header still the text
  rendered before.\<close>
theorem event_index_write_stale:
  assumes "ev_inv event" "lookup nm (headers event) = Some hp" "k < length (h_array hp)" "k \<le> 4000"
  shows "switch_event_get_header_idx (add_indexed stack nm (int k) data event) nm (int k) = Some data \<and>
    switch_event_get_header (add_indexed stack nm (int k) data event) nm = h_value hp"
proof -
  obtain i where i: "switch_event_get_header_ptr event nm = Some i"
    using assms(1,2) get_ptr_lookup(1) [OF assms(1), of nm] by auto
  then have ih: "i < length (headers event)" "headers event ! i = hp"
    using get_ptr_lookup(2) [OF assms(1) i] assms(2) by auto
  let ?hp = "hp\<lparr>h_array := (h_array hp)[k := data]\<rparr>"
  let ?e = "event\<lparr>headers := (headers event)[i := ?hp]\<rparr>"
  have add: "add_indexed stack nm (int k) data event = ?e"
    using i ih assms(3,4) by (simp add: add_indexed_def)
  have inv: "ev_inv ?e" using assms(1) ih by (intro update_header_inv) simp_all
  have "switch_event_get_header_ptr ?e nm = Some i"
    using i ih find_header_update [of i "headers event" ?hp nm]
    by (simp add: switch_event_get_header_ptr_def)
  then have "lookup nm (headers ?e) = Some ?hp"
    using get_ptr_lookup(2) [OF inv] ih by simp
  then show ?thesis
    using inv assms(3) by (simp add: add get_header_lookup)
qed

lemma event_index_write_stale_witness:
  "\<exists>event hp. ev_inv event \<and> lookup ''v'' (headers event) = Some hp \<and>
     switch_event_get_header (add_indexed SWITCH_STACK_BOTTOM ''v'' 0 ''new'' event) ''v'' = h_value hp"
proof -
  define hp where "hp = \<lparr>h_name = ''v'', h_value = Some ''ARRAY::a|:b'', h_array = [''a'', ''b''],
    h_hash = switch_ci_hashfunc_default ''v''\<rparr>"
  define event where "event = zero_event\<lparr>headers := [hp], last_header := Some 0\<rparr>"
  have "ev_inv event" "lookup ''v'' (headers event) = Some hp"
    by (simp_all add: event_def hp_def ev_inv_def last_of_def hash_ok_def lookup_def)
  then show ?thesis
    using event_index_write_stale [of event "''v''" hp 0 SWITCH_STACK_BOTTOM "''new''"]
    by (auto simp: hp_def)
qed

end
