(* ===== verification/Scheduler.thy ===== *)
theory Scheduler
  imports Event
begin

text \<open>
  The task scheduler, \<^verbatim>\<open>src/switch_scheduler.c\<close>.  The list of tasks is shared by the task thread, by the
  threads of tasks that run on their own, and by the threads that add and delete tasks; every
  stretch of code under the task mutex is one step.  A task container has its address, so that
  its deallocation is visible.  The clock and the effect of a task function on its task are parameters of
  the steps.  Times are integers.
\<close>

section \<open>Tasks\<close>

definition SSHF_OWN_THREAD :: u32 where "SSHF_OWN_THREAD = 1"
definition SSHF_FREE_ARG :: u32 where "SSHF_FREE_ARG = 2"
definition SSHF_NO_DEL :: u32 where "SSHF_NO_DEL = 4"

lemmas sshf_flags = SSHF_OWN_THREAD_def SSHF_FREE_ARG_def SSHF_NO_DEL_def

record 'a task_container =
  addr :: nat
  task_id :: u32
  created :: int
  runtime :: int
  rpt :: nat
  cmd_id :: u32
  grp :: string
  cmd_arg :: "'a option"
  thash :: u32
  executed :: int
  in_thread :: bool
  destroyed :: nat
  running :: bool
  destroy_requested :: nat
  func :: nat
  tflags :: u32
  desc :: string

text \<open>The events carry the number, the description, the group and the time of the task.\<close>

datatype sched_kind = ADD_SCHEDULE | RE_SCHEDULE | DEL_SCHEDULE

record sched_event =
  ev_kind :: sched_kind
  ev_task :: u32
  ev_desc :: string
  ev_group :: string
  ev_runtime :: int

definition task_event :: "sched_kind \<Rightarrow> 'a task_container \<Rightarrow> sched_event" where
  "task_event k tp = \<lparr>ev_kind = k, ev_task = task_id tp, ev_desc = desc tp, ev_group = grp tp, ev_runtime = runtime tp\<rparr>"

section \<open>Adding and deleting\<close>

text \<open>The counter skips zero.\<close>

definition next_id :: "u32 \<Rightarrow> u32" where
  "next_id c = (if c + 1 \<noteq> 0 then c + 1 else c + 2)"

definition new_container :: "nat \<Rightarrow> u32 \<Rightarrow> int \<Rightarrow> int \<Rightarrow> nat \<Rightarrow> string option \<Rightarrow> string option \<Rightarrow> u32 \<Rightarrow>
    'a option \<Rightarrow> u32 \<Rightarrow> 'a task_container" where
  "new_container p n now task_runtime fn ds g cid arg fl =
     (let gr = (case g of Some x \<Rightarrow> x | None \<Rightarrow> ''none'')
      in \<lparr>addr = p, task_id = n, created = now,
          runtime = (if task_runtime < now then task_runtime + now else task_runtime),
          rpt = (if task_runtime < now then nat (task_runtime mod 2 ^ 32) else 0),
          cmd_id = cid, grp = gr, cmd_arg = arg, thash = switch_ci_hashfunc_default gr,
          executed = 0, in_thread = False, destroyed = 0, running = False, destroy_requested = 0, func = fn,
          tflags = fl, desc = (case ds of Some x \<Rightarrow> x | None \<Rightarrow> ''none'')\<rparr>)"

definition mark_deleted :: "'a task_container \<Rightarrow> 'a task_container" where
  "mark_deleted tp =
     (if running tp then tp\<lparr>destroy_requested := destroy_requested tp + 1\<rparr>
      else tp\<lparr>destroyed := destroyed tp + 1\<rparr>)"

fun switch_scheduler_del_task_id :: "u32 \<Rightarrow> 'a task_container list \<Rightarrow> nat \<times> 'a task_container list" where
  "switch_scheduler_del_task_id n [] = (0, [])"
| "switch_scheduler_del_task_id n (tp # ts) =
     (if task_id tp = n then
        (if switch_test_flag (tflags tp) SSHF_NO_DEL then (0, tp # ts) else (1, mark_deleted tp # ts))
      else (let (k, ts') = switch_scheduler_del_task_id n ts in (k, tp # ts')))"

fun del_group :: "u32 \<Rightarrow> string \<Rightarrow> 'a task_container list \<Rightarrow> nat \<times> 'a task_container list" where
  "del_group h g [] = (0, [])"
| "del_group h g (tp # ts) =
     (let (k, ts') = del_group h g ts
      in if destroyed tp > 0 then (k, tp # ts')
         else if h = thash tp \<and> grp tp = g then
           (if switch_test_flag (tflags tp) SSHF_NO_DEL then (k, tp # ts') else (k + 1, mark_deleted tp # ts'))
         else (k, tp # ts'))"

definition switch_scheduler_del_task_group :: "string option \<Rightarrow> 'a task_container list \<Rightarrow> nat \<times> 'a task_container list" where
  "switch_scheduler_del_task_group g ts =
     (case g of None \<Rightarrow> (0, ts)
      | Some s \<Rightarrow> if s = [] then (0, ts) else del_group (switch_ci_hashfunc_default s) s ts)"

section \<open>The task thread\<close>

text \<open>
  The locked end of \<^verbatim>\<open>switch_scheduler_execute\<close>, after the function has left its task with the time and the
  period of \<open>tp\<close>.
\<close>

definition execute_end :: "int \<Rightarrow> 'a task_container \<Rightarrow> 'a task_container \<times> sched_event list" where
  "execute_end now tp =
     (let tp = (if rpt tp \<noteq> 0 then tp\<lparr>runtime := now + int (rpt tp)\<rparr> else tp)
      in if destroy_requested tp = 0 \<and> runtime tp > executed tp
         then (let tp = tp\<lparr>executed := 0\<rparr> in (tp, [task_event RE_SCHEDULE tp]))
         else (tp\<lparr>destroyed := 1\<rparr>, []))"

text \<open>
  The first loop of \<^verbatim>\<open>task_thread_loop\<close>, from one task on, as far as it runs under the mutex: the
  result has the tasks for which it creates a thread and the position of the task it has marked as
  running and will execute itself, once it has given up the mutex.  \<open>now k\<close> is the time read at position \<open>k\<close>.
\<close>

fun scan :: "bool \<Rightarrow> (nat \<Rightarrow> int) \<Rightarrow> nat \<Rightarrow> 'a task_container list \<Rightarrow> 'a task_container list \<times> nat list \<times> nat option" where
  "scan fin now k [] = ([], [], None)"
| "scan fin now k (tp # ts) =
     (if fin then (let (ts', own, stop) = scan fin now (Suc k) ts in (tp\<lparr>destroyed := 1\<rparr> # ts', own, stop))
      else if destroyed tp = 0 \<and> now k \<ge> runtime tp \<and> \<not> in_thread tp then
        (let tp = tp\<lparr>executed := now k\<rparr>
         in if switch_test_flag (tflags tp) SSHF_OWN_THREAD
            then (let (ts', own, stop) = scan fin now (Suc k) ts in (tp\<lparr>in_thread := True\<rparr> # ts', addr tp # own, stop))
            else (tp\<lparr>running := True\<rparr> # ts, [], Some k))
      else (let (ts', own, stop) = scan fin now (Suc k) ts in (tp # ts', own, stop)))"

text \<open>The second loop takes the destroyed tasks out of the list.\<close>

definition sweepable :: "'a task_container \<Rightarrow> bool" where
  "sweepable tp \<longleftrightarrow> destroyed tp > 0 \<and> \<not> in_thread tp"

fun sweep :: "'a task_container list \<Rightarrow> 'a task_container list \<times> sched_event list \<times> nat list \<times> 'a list" where
  "sweep [] = ([], [], [], [])"
| "sweep (tp # ts) =
     (let (ts', evs, gone, args) = sweep ts
      in if sweepable tp
         then (ts', task_event DEL_SCHEDULE tp # evs, addr tp # gone,
               (case cmd_arg tp of Some x \<Rightarrow> if switch_test_flag (tflags tp) SSHF_FREE_ARG then [x] else [] | None \<Rightarrow> []) @ args)
         else (tp # ts', evs, gone, args))"

section \<open>The threads\<close>

text \<open>
  Where the task thread is between two steps: before a pass, between giving up the mutex and calling the
  function of the task at a position, in that function, between the end of \<^verbatim>\<open>switch_scheduler_execute\<close> and taking the mutex again, before the second loop
  (with \<^verbatim>\<open>done\<close>), or past its end.  A thread of a task's own is created, in the function of the task, or
  past \<^verbatim>\<open>switch_scheduler_execute\<close>.
\<close>

datatype sched_pc = Top | Starting nat | Executing nat | Executed nat | Sweeping bool | Stopped

datatype own_pc = Absent | Created | In_Func | Leaving

record 'a sched =
  task_list :: "'a task_container list"
  task_counter :: u32
  event_queue :: "sched_event list"
  pc :: sched_pc
  own_threads :: "nat \<Rightarrow> own_pc"
  stopping :: bool
  next_addr :: nat
  released :: "nat list"
  freed_args :: "'a list"

definition sched_init :: "'a sched" where
  "sched_init = \<lparr>task_list = [], task_counter = 0, event_queue = [], pc = Top, own_threads = (\<lambda>a. Absent), stopping = False,
     next_addr = 0, released = [], freed_args = []\<rparr>"

definition switch_scheduler_add_task_ex :: "int \<Rightarrow> int \<Rightarrow> nat \<Rightarrow> string option \<Rightarrow> string option \<Rightarrow> u32 \<Rightarrow> 'a option \<Rightarrow> u32 \<Rightarrow>
    'a sched \<Rightarrow> u32 \<times> 'a sched" where
  "switch_scheduler_add_task_ex now task_runtime fn ds g cid arg fl s =
     (let n = next_id (task_counter s);
          tp = new_container (next_addr s) n now task_runtime fn ds g cid arg fl
      in (n, s\<lparr>task_list := task_list s @ [tp], task_counter := n,
               event_queue := event_queue s @ [task_event ADD_SCHEDULE tp], next_addr := next_addr s + 1\<rparr>))"

definition scan_from :: "bool \<Rightarrow> (nat \<Rightarrow> int) \<Rightarrow> nat \<Rightarrow> 'a sched \<Rightarrow> 'a sched" where
  "scan_from fin now k s =
     (let (ts, own, stop) = scan fin now k (drop k (task_list s))
      in s\<lparr>task_list := take k (task_list s) @ ts,
           own_threads := (\<lambda>a. if a \<in> set own then Created else own_threads s a),
           pc := (case stop of Some j \<Rightarrow> Starting j | None \<Rightarrow> Sweeping fin)\<rparr>)"

definition at_addr :: "nat \<Rightarrow> ('a task_container \<Rightarrow> 'a task_container) \<Rightarrow> 'a task_container list \<Rightarrow> 'a task_container list" where
  "at_addr a f ts = map (\<lambda>tp. if addr tp = a then f tp else tp) ts"

definition end_events :: "nat \<Rightarrow> int \<Rightarrow> int \<Rightarrow> nat \<Rightarrow> 'a task_container list \<Rightarrow> sched_event list" where
  "end_events a now r p ts =
     concat (map (\<lambda>tp. if addr tp = a then snd (execute_end now (tp\<lparr>runtime := r, rpt := p\<rparr>)) else []) ts)"

inductive sched_step :: "'a sched \<Rightarrow> 'a sched \<Rightarrow> bool" where
  step_add: "sched_step s (snd (switch_scheduler_add_task_ex now t fn ds g cid arg fl s))"
| step_del: "sched_step s (s\<lparr>task_list := snd (switch_scheduler_del_task_id n (task_list s))\<rparr>)"
| step_del_group: "sched_step s (s\<lparr>task_list := snd (switch_scheduler_del_task_group g (task_list s))\<rparr>)"
| step_pass: "pc s = Top \<Longrightarrow> \<not> stopping s \<Longrightarrow> sched_step s (scan_from False now 0 s)"
| step_call: "pc s = Starting j \<Longrightarrow> sched_step s (s\<lparr>pc := Executing j\<rparr>)"
| step_execute: "pc s = Executing j \<Longrightarrow>
    sched_step s (s\<lparr>task_list := (task_list s)[j := fst (execute_end now ((task_list s ! j)\<lparr>runtime := r, rpt := p\<rparr>))],
      event_queue := event_queue s @ snd (execute_end now ((task_list s ! j)\<lparr>runtime := r, rpt := p\<rparr>)), pc := Executed j\<rparr>)"
| step_resume: "pc s = Executed j \<Longrightarrow>
    sched_step s (scan_from False now (Suc j)
      (s\<lparr>task_list := (task_list s)[j := (task_list s ! j)\<lparr>running := False\<rparr>]\<rparr>))"
| step_sweep: "pc s = Sweeping fin \<Longrightarrow> sweep (task_list s) = (ts, evs, gone, args) \<Longrightarrow>
    sched_step s (s\<lparr>task_list := ts, event_queue := event_queue s @ evs, released := released s @ gone,
      freed_args := freed_args s @ args, pc := (if fin then Stopped else Top)\<rparr>)"
| step_fire: "event_queue s = ev # evs \<Longrightarrow> pc s = Top \<or> pc s = Stopped \<Longrightarrow> sched_step s (s\<lparr>event_queue := evs\<rparr>)"
| step_stop: "sched_step s (s\<lparr>stopping := True\<rparr>)"
| step_last_pass: "pc s = Top \<Longrightarrow> stopping s \<Longrightarrow> sched_step s (scan_from True now 0 s)"
| step_own_call: "own_threads s a = Created \<Longrightarrow> sched_step s (s\<lparr>own_threads := (own_threads s)(a := In_Func)\<rparr>)"
| step_own_execute: "own_threads s a = In_Func \<Longrightarrow>
    sched_step s (s\<lparr>task_list := at_addr a (\<lambda>tp. fst (execute_end now (tp\<lparr>runtime := r, rpt := p\<rparr>))) (task_list s),
      event_queue := event_queue s @ end_events a now r p (task_list s), own_threads := (own_threads s)(a := Leaving)\<rparr>)"
| step_own_exit: "own_threads s a = Leaving \<Longrightarrow>
    sched_step s (s\<lparr>task_list := at_addr a (\<lambda>tp. tp\<lparr>in_thread := False\<rparr>) (task_list s),
      own_threads := (own_threads s)(a := Absent)\<rparr>)"

section \<open>Which containers are alive\<close>

definition addrs :: "'a task_container list \<Rightarrow> nat list" where
  "addrs ts = map addr ts"

definition at_work :: "sched_pc \<Rightarrow> nat \<Rightarrow> bool" where
  "at_work p i \<longleftrightarrow> p = Starting i \<or> p = Executing i \<or> p = Executed i"

definition sched_inv :: "'a sched \<Rightarrow> bool" where
  "sched_inv s \<longleftrightarrow> distinct (addrs (task_list s)) \<and> (\<forall>a \<in> set (addrs (task_list s)). a < next_addr s) \<and>
     distinct (released s) \<and> (\<forall>a \<in> set (released s). a < next_addr s \<and> a \<notin> set (addrs (task_list s))) \<and>
     map in_thread (task_list s) = map (\<lambda>a. own_threads s a \<noteq> Absent) (addrs (task_list s)) \<and>
     (\<forall>a. own_threads s a \<noteq> Absent \<longrightarrow> a \<in> set (addrs (task_list s))) \<and>
     map running (task_list s) = map (at_work (pc s)) [0..<length (task_list s)] \<and>
     (\<forall>j. at_work (pc s) j \<longrightarrow> j < length (task_list s) \<and> own_threads s (addrs (task_list s) ! j) = Absent)"

lemma length_addrs [simp]: "length (addrs ts) = length ts"
  by (simp add: addrs_def)

lemma addrs_nth [simp]: "i < length ts \<Longrightarrow> addrs ts ! i = addr (ts ! i)"
  by (simp add: addrs_def)

lemma at_work_simps [simp]: "\<not> at_work Top i" "\<not> at_work (Sweeping f) i" "\<not> at_work Stopped i"
  "at_work (Starting j) i \<longleftrightarrow> i = j" "at_work (Executing j) i \<longleftrightarrow> i = j" "at_work (Executed j) i \<longleftrightarrow> i = j"
  by (auto simp: at_work_def)

lemma inv_running:
  assumes "sched_inv s" "i < length (task_list s)"
  shows "running (task_list s ! i) \<longleftrightarrow> at_work (pc s) i"
proof -
  have "map running (task_list s) ! i = map (at_work (pc s)) [0..<length (task_list s)] ! i"
    using assms(1) unfolding sched_inv_def by presburger
  then show ?thesis using assms(2) by simp
qed

text \<open>Steps that change neither which tasks there are nor who runs them.\<close>

lemma inv_same:
  assumes "sched_inv s" "addrs (task_list s') = addrs (task_list s)" "map in_thread (task_list s') = map in_thread (task_list s)"
    "map running (task_list s') = map running (task_list s)"
    "own_threads s' = own_threads s \<or> (\<forall>a. own_threads s' a = Absent \<longleftrightarrow> own_threads s a = Absent)"
    "at_work (pc s') = at_work (pc s)" "next_addr s' = next_addr s" "released s' = released s"
  shows "sched_inv s'"
proof -
  have "length (task_list s') = length (task_list s)" using assms(2) by (metis length_addrs)
  moreover have "own_threads s' a = Absent \<longleftrightarrow> own_threads s a = Absent" for a using assms(5) by auto
  ultimately show ?thesis using assms by (simp add: sched_inv_def del: addrs_nth)
qed

definition only_marks :: "'a task_container list \<Rightarrow> 'a task_container list \<Rightarrow> bool" where
  "only_marks ts ts' \<longleftrightarrow> length ts' = length ts \<and> (\<forall>i < length ts. ts' ! i = ts ! i \<or> ts' ! i = mark_deleted (ts ! i))"

lemma only_marks_Cons: "only_marks ts ts' \<Longrightarrow> tp' = tp \<or> tp' = mark_deleted tp \<Longrightarrow> only_marks (tp # ts) (tp' # ts')"
  by (auto simp: only_marks_def nth_Cons split: nat.splits)

lemma only_marks_refl [simp]: "only_marks ts ts"
  by (simp add: only_marks_def)

lemma del_id_marks: "only_marks ts (snd (switch_scheduler_del_task_id n ts))"
  by (induction n ts rule: switch_scheduler_del_task_id.induct) (auto simp: only_marks_Cons split: prod.splits)

lemma del_group_list_marks: "only_marks ts (snd (del_group h g ts))"
  by (induction h g ts rule: del_group.induct) (auto simp: only_marks_Cons Let_def split: prod.splits)

lemma del_group_marks: "only_marks ts (snd (switch_scheduler_del_task_group g ts))"
  by (auto simp: switch_scheduler_del_task_group_def del_group_list_marks split: option.splits)

lemma mark_fields [simp]: "addr (mark_deleted tp) = addr tp" "in_thread (mark_deleted tp) = in_thread tp"
  "running (mark_deleted tp) = running tp"
  by (simp_all add: mark_deleted_def)

lemma only_marks_same:
  assumes "only_marks ts ts'"
  shows "addrs ts' = addrs ts" "map in_thread ts' = map in_thread ts" "map running ts' = map running ts"
  using assms by (force simp: only_marks_def addrs_def intro!: nth_equalityI)+

lemma execute_end_fields [simp]:
  "addr (fst (execute_end now tp)) = addr tp" "in_thread (fst (execute_end now tp)) = in_thread tp"
  "running (fst (execute_end now tp)) = running tp" "task_id (fst (execute_end now tp)) = task_id tp"
  by (simp_all add: execute_end_def Let_def)

lemma map_update_same: "f x = f (xs ! i) \<Longrightarrow> map f (xs[i := x]) = map f xs"
  by (cases "i < length xs") (simp_all add: map_update list_update_same_conv list_update_beyond)

lemma addrs_update: "addr x = addr (ts ! i) \<Longrightarrow> addrs (ts[i := x]) = addrs ts"
  unfolding addrs_def by (rule map_update_same)

section \<open>Passes over the list\<close>

lemma scan_addrs: "scan fin now k ts = (ts', own, stop) \<Longrightarrow> addrs ts' = addrs ts \<and> set own \<subseteq> set (addrs ts)"
  by (induction fin now k ts arbitrary: ts' own stop rule: scan.induct)
    (auto simp: addrs_def Let_def split: prod.splits if_splits)

lemma scan_threads:
  "scan fin now k ts = (ts', own, stop) \<Longrightarrow> distinct (addrs ts) \<Longrightarrow>
   map in_thread ts' = map (\<lambda>tp. in_thread tp \<or> addr tp \<in> set own) ts"
proof (induction fin now k ts arbitrary: ts' own stop rule: scan.induct)
  case (2 fin now k tp ts)
  obtain us ow st where r: "scan fin now (Suc k) ts = (us, ow, st)" by (cases "scan fin now (Suc k) ts") auto
  have "addr tp \<notin> set ow" "\<forall>t \<in> set ts. addr t \<noteq> addr tp"
    using scan_addrs [OF r] 2(5) by (auto simp: addrs_def image_iff)
  then show ?case using 2 r by (auto simp: addrs_def Let_def split: if_splits)
qed simp

lemma scan_stop:
  "scan fin now k ts = (ts', own, Some j) \<Longrightarrow>
   \<not> fin \<and> k \<le> j \<and> j < k + length ts \<and> destroyed (ts ! (j - k)) = 0 \<and> \<not> in_thread (ts' ! (j - k))"
proof (induction fin now k ts arbitrary: ts' own rule: scan.induct)
  case (2 fin now k tp ts)
  obtain us ow st where r: "scan fin now (Suc k) ts = (us, ow, st)" by (cases "scan fin now (Suc k) ts") auto
  show ?case
  proof (cases "j = k")
    case True
    then show ?thesis using 2 r by (auto simp: Let_def split: if_splits)
  next
    case False
    then have "st = Some j" using 2(4) r by (auto simp: Let_def split: if_splits)
    with 2 r have "\<not> fin \<and> Suc k \<le> j \<and> j < Suc k + length ts \<and> destroyed (ts ! (j - Suc k)) = 0 \<and> \<not> in_thread (us ! (j - Suc k))"
      using False by (auto simp: Let_def split: if_splits)
    moreover have "\<exists>t. ts' = t # us" using 2(4) r False by (auto simp: Let_def split: if_splits)
    ultimately show ?thesis by (auto simp: nth_Cons')
  qed
qed simp

lemma scan_running:
  "scan fin now k ts = (ts', own, stop) \<Longrightarrow> i < length ts \<Longrightarrow>
   running (ts' ! i) \<longleftrightarrow> running (ts ! i) \<or> stop = Some (k + i)"
proof (induction fin now k ts arbitrary: ts' own stop i rule: scan.induct)
  case (2 fin now k tp ts)
  obtain us ow st where r: "scan fin now (Suc k) ts = (us, ow, st)" by (cases "scan fin now (Suc k) ts") auto
  have "st \<noteq> Some k" using scan_stop [of fin now "Suc k" ts us ow k] r by auto
  then show ?case using 2 r by (cases i) (auto simp: Let_def split: if_splits)
qed simp

lemma scan_own: "scan fin now k ts = (ts', own, stop) \<Longrightarrow> a \<in> set own \<Longrightarrow> \<exists>tp \<in> set ts. addr tp = a \<and> destroyed tp = 0"
  by (induction fin now k ts arbitrary: ts' own stop rule: scan.induct)
    (auto simp: Let_def split: prod.splits if_splits)

lemma scan_destroyed:
  "scan fin now k ts = (ts', own, stop) \<Longrightarrow> i < length ts \<Longrightarrow> destroyed (ts ! i) > 0 \<Longrightarrow> destroyed (ts' ! i) > 0"
proof (induction fin now k ts arbitrary: ts' own stop i rule: scan.induct)
  case (2 fin now k tp ts)
  obtain us ow st where r: "scan fin now (Suc k) ts = (us, ow, st)" by (cases "scan fin now (Suc k) ts") auto
  show ?case using 2 r by (cases i) (auto simp: Let_def split: if_splits)
qed simp

lemma scan_task_ids: "scan fin now k ts = (ts', own, stop) \<Longrightarrow> map task_id ts' = map task_id ts"
  by (induction fin now k ts arbitrary: ts' own stop rule: scan.induct)
    (auto simp: Let_def split: prod.splits if_splits)

lemma scan_from_fields [simp]:
  "next_addr (scan_from fin now k s) = next_addr s" "released (scan_from fin now k s) = released s"
  "addrs (task_list (scan_from fin now k s)) = addrs (task_list s)"
  "map task_id (task_list (scan_from fin now k s)) = map task_id (task_list s)"
  "task_counter (scan_from fin now k s) = task_counter s"
proof -
  obtain ts own stop where r: "scan fin now k (drop k (task_list s)) = (ts, own, stop)"
    by (cases "scan fin now k (drop k (task_list s))") auto
  have "addrs (task_list s) = addrs (take k (task_list s)) @ addrs (drop k (task_list s))"
    by (simp add: addrs_def flip: map_append)
  then show "addrs (task_list (scan_from fin now k s)) = addrs (task_list s)"
    using scan_addrs [OF r] by (simp add: scan_from_def r addrs_def)
  have "map task_id (task_list s) = map task_id (take k (task_list s)) @ map task_id (drop k (task_list s))"
    by (simp flip: map_append)
  then show "map task_id (task_list (scan_from fin now k s)) = map task_id (task_list s)"
    using scan_task_ids [OF r] by (simp add: scan_from_def r)
qed (simp_all add: scan_from_def split: prod.splits)

text \<open>A pass from position \<open>k\<close> on, when no task is being executed by the task thread.\<close>

lemma scan_from_inv:
  assumes "sched_inv (s\<lparr>pc := Top\<rparr>)"
  shows "sched_inv (scan_from fin now k s)"
proof -
  obtain ts own stop where r: "scan fin now k (drop k (task_list s)) = (ts, own, stop)"
    by (cases "scan fin now k (drop k (task_list s))") auto
  let ?s = "scan_from fin now k s" and ?n = "length (task_list s)"
  have eq: "task_list ?s = take k (task_list s) @ ts" "own_threads ?s = (\<lambda>a. if a \<in> set own then Created else own_threads s a)"
    "pc ?s = (case stop of Some j \<Rightarrow> Starting j | None \<Rightarrow> Sweeping fin)"
    by (simp_all add: scan_from_def r)
  have len: "length (task_list ?s) = ?n" using scan_from_fields(3) [of fin now k s] by (metis length_addrs)
  have d: "distinct (addrs (take k (task_list s)) @ addrs (drop k (task_list s)))"
    using assms by (simp add: sched_inv_def addrs_def flip: map_append)
  have sub: "set own \<subseteq> set (addrs (drop k (task_list s)))" using scan_addrs [OF r] by simp
  have "map in_thread (take k (task_list s)) = map (\<lambda>tp. in_thread tp \<or> addr tp \<in> set own) (take k (task_list s))"
    using d sub by (auto simp: addrs_def)
  then have "map in_thread (task_list ?s) = map (\<lambda>tp. in_thread tp \<or> addr tp \<in> set own) (take k (task_list s)) @
      map (\<lambda>tp. in_thread tp \<or> addr tp \<in> set own) (drop k (task_list s))"
    using scan_threads [OF r] d by (simp add: eq)
  also have "\<dots> = map (\<lambda>tp. in_thread tp \<or> addr tp \<in> set own) (task_list s)" by (simp flip: map_append)
  also have "\<dots> = map (\<lambda>a. own_threads ?s a \<noteq> Absent) (addrs (task_list s))"
    using assms by (auto simp: eq(2) sched_inv_def addrs_def)
  finally have th: "map in_thread (task_list ?s) = map (\<lambda>a. own_threads ?s a \<noteq> Absent) (addrs (task_list s))" .
  have stop: "j < ?n \<and> k \<le> j \<and> own_threads ?s (addrs (task_list s) ! j) = Absent" if "stop = Some j" for j
  proof -
    have j: "k \<le> j" "j < ?n" "\<not> in_thread (ts ! (j - k))" using scan_stop r that by fastforce+
    then have "\<not> map in_thread (task_list ?s) ! j" using len by (simp add: eq(1) nth_append min_def)
    then show ?thesis using j by (simp add: th)
  qed
  have work: "at_work (pc ?s) i \<longleftrightarrow> stop = Some i" for i by (auto simp: eq(3) split: option.splits)
  have run: "running (task_list ?s ! i) \<longleftrightarrow> stop = Some i" if "i < ?n" for i
  proof -
    have "\<not> running (task_list s ! i)" using inv_running [OF assms] that by simp
    then show ?thesis
      using that stop scan_running [OF r, of "i - k"] by (auto simp: eq(1) nth_append)
  qed
  have "map running (task_list ?s) = map (at_work (pc ?s)) [0..<length (task_list ?s)]"
    using run work by (intro nth_equalityI) (simp_all add: len)
  moreover have "a \<in> set (addrs (task_list s))" if "own_threads ?s a \<noteq> Absent" for a
    using that sub assms set_drop_subset [of k "task_list s"] by (auto simp: eq(2) sched_inv_def addrs_def split: if_splits)
  ultimately show ?thesis using assms th work stop by (auto simp: sched_inv_def len)
qed

lemma sweep_filter:
  "fst (sweep ts) = filter (\<lambda>tp. \<not> sweepable tp) ts" "fst (snd (snd (sweep ts))) = addrs (filter sweepable ts)"
  by (induction ts) (simp_all add: addrs_def case_prod_beta)

lemma sweep_spec:
  "sweep ts = (ts', evs, gone, args) \<Longrightarrow>
   ts' = filter (\<lambda>tp. \<not> sweepable tp) ts \<and> gone = addrs (filter sweepable ts)"
  using sweep_filter [of ts] by simp

lemma sweep_inv:
  assumes "sched_inv s" "pc s = Sweeping fin" "sweep (task_list s) = (ts, evs, gone, args)"
  shows "sched_inv (s\<lparr>task_list := ts, event_queue := evs', released := released s @ gone, freed_args := args',
    pc := (if fin then Stopped else Top)\<rparr>)"
proof -
  note sw = sweep_spec [OF assms(3)]
  have d: "distinct (addrs (task_list s))" using assms(1) by (simp add: sched_inv_def)
  have sub: "set (addrs ts) \<subseteq> set (addrs (task_list s))" "set gone \<subseteq> set (addrs (task_list s))" "set gone \<inter> set (addrs ts) = {}"
    using sw d by (auto simp: addrs_def inj_on_def distinct_map)
  have dd: "distinct (addrs ts)" "distinct gone" using sw d by (simp_all add: addrs_def distinct_map_filter)
  have sub_ts: "set ts \<subseteq> set (task_list s)" using sw by auto
  have "\<forall>tp \<in> set (task_list s). \<not> running tp"
    using inv_running [OF assms(1)] assms(2) by (auto simp: in_set_conv_nth)
  then have "\<not> running (ts ! i)" if "i < length ts" for i using sub_ts nth_mem [OF that] by blast
  then have run: "map running ts = map (at_work (if fin then Stopped else Top)) [0..<length ts]"
    by (intro nth_equalityI) simp_all
  have th: "\<forall>tp \<in> set (task_list s). in_thread tp \<longleftrightarrow> own_threads s (addr tp) \<noteq> Absent"
    using assms(1) by (auto simp: sched_inv_def addrs_def)
  then have th_ts: "map in_thread ts = map (\<lambda>a. own_threads s a \<noteq> Absent) (addrs ts)"
    using sub_ts by (auto simp: addrs_def)
  have "a \<in> set (addrs ts)" if own: "own_threads s a \<noteq> Absent" for a
  proof -
    obtain tp where "tp \<in> set (task_list s)" "addr tp = a" using own assms(1) by (auto simp: sched_inv_def addrs_def)
    with th own sw show ?thesis by (auto simp: addrs_def sweepable_def)
  qed
  moreover have "distinct (released s @ gone)" "\<forall>a \<in> set (released s @ gone). a < next_addr s \<and> a \<notin> set (addrs ts)"
    "\<forall>a \<in> set (addrs ts). a < next_addr s"
    using assms(1) sub dd unfolding sched_inv_def by auto
  ultimately show ?thesis using dd(1) run th_ts by (simp add: sched_inv_def)
qed

lemma add_inv:
  assumes "sched_inv s"
  shows "sched_inv (snd (switch_scheduler_add_task_ex now t fn ds g cid arg fl s))"
proof -
  have "next_addr s \<notin> set (addrs (task_list s))" "own_threads s (next_addr s) = Absent" "\<not> at_work (pc s) (length (task_list s))"
    using assms by (auto simp: sched_inv_def)
  then show ?thesis
    using assms by (auto simp: sched_inv_def switch_scheduler_add_task_ex_def new_container_def Let_def addrs_def less_Suc_eq nth_append)
qed

lemma stop_work_inv:
  assumes "sched_inv s" "pc s = Executed j"
  shows "sched_inv (s\<lparr>task_list := (task_list s)[j := (task_list s ! j)\<lparr>running := False\<rparr>], pc := Top\<rparr>)"
proof -
  let ?ts = "(task_list s)[j := (task_list s ! j)\<lparr>running := False\<rparr>]"
  have same: "addrs ?ts = addrs (task_list s)" "map in_thread ?ts = map in_thread (task_list s)"
    unfolding addrs_def by (rule map_update_same; simp)+
  have "\<not> running (?ts ! i)" if "i < length (task_list s)" for i
    using inv_running [OF assms(1)] assms(2) that by (cases "i = j") simp_all
  then have "map running ?ts = map (at_work Top) [0..<length ?ts]" by (intro nth_equalityI) simp_all
  then show ?thesis using assms same by (simp add: sched_inv_def)
qed

lemma own_exit_inv:
  assumes "sched_inv s" "own_threads s a = Leaving"
  shows "sched_inv (s\<lparr>task_list := at_addr a (\<lambda>tp. tp\<lparr>in_thread := False\<rparr>) (task_list s), own_threads := (own_threads s)(a := Absent)\<rparr>)"
proof -
  let ?ts = "at_addr a (\<lambda>tp. tp\<lparr>in_thread := False\<rparr>) (task_list s)"
  have "addrs ?ts = addrs (task_list s)" "map running ?ts = map running (task_list s)" "length ?ts = length (task_list s)"
    by (simp_all add: at_addr_def addrs_def)
  moreover have "map in_thread ?ts = map (\<lambda>b. ((own_threads s)(a := Absent)) b \<noteq> Absent) (addrs (task_list s))"
    using assms(1) by (auto simp: sched_inv_def at_addr_def addrs_def)
  ultimately show ?thesis using assms by (simp add: sched_inv_def del: addrs_nth)
qed

lemma sched_step_inv: "sched_step s s' \<Longrightarrow> sched_inv s \<Longrightarrow> sched_inv s'"
proof (induction rule: sched_step.induct)
  case (step_add s now t fn ds g cid arg fl)
  then show ?case by (rule add_inv)
next
  case (step_del s n)
  then show ?case by (rule inv_same) (use only_marks_same [OF del_id_marks] in simp_all)
next
  case (step_del_group s g)
  then show ?case by (rule inv_same) (use only_marks_same [OF del_group_marks] in simp_all)
next
  case (step_pass s now)
  then show ?case by (intro scan_from_inv) (simp add: sched_inv_def)
next
  case (step_call s j)
  from step_call(2) show ?case by (rule inv_same) (simp_all add: step_call(1) fun_eq_iff)
next
  case (step_execute s j now r p)
  from step_execute(2) show ?case
    by (rule inv_same) (simp_all add: step_execute(1) addrs_def map_update_same fun_eq_iff)
next
  case (step_resume s j now)
  show ?case by (rule scan_from_inv) (use stop_work_inv [OF step_resume(2,1)] in simp)
next
  case (step_sweep s fin ts evs gone args)
  then show ?case by (intro sweep_inv)
next
  case (step_fire s ev evs)
  from step_fire(3) show ?case by (rule inv_same) simp_all
next
  case (step_stop s)
  then show ?case by (rule inv_same) simp_all
next
  case (step_last_pass s now)
  then show ?case by (intro scan_from_inv) (simp add: sched_inv_def)
next
  case (step_own_call s a)
  from step_own_call(2) show ?case by (rule inv_same) (use step_own_call(1) in auto)
next
  case (step_own_execute s a now r p)
  from step_own_execute(2) show ?case
    by (rule inv_same) (use step_own_execute(1) in \<open>auto simp: at_addr_def addrs_def\<close>)
next
  case (step_own_exit s a)
  then show ?case by (intro own_exit_inv)
qed

lemma sched_init_inv: "sched_inv sched_init"
  by (simp add: sched_init_def sched_inv_def addrs_def)

definition sched_reach :: "'a sched \<Rightarrow> bool" where
  "sched_reach s \<longleftrightarrow> sched_step\<^sup>*\<^sup>* sched_init s"

lemma sched_reach_inv: "sched_reach s \<Longrightarrow> sched_inv s"
  unfolding sched_reach_def by (induction rule: rtranclp_induct) (auto simp: sched_init_inv intro: sched_step_inv)

lemma sched_reach_step: "sched_reach s \<Longrightarrow> sched_step s s' \<Longrightarrow> sched_reach s'"
  unfolding sched_reach_def by (rule rtranclp.rtrancl_into_rtrancl)

lemma sched_two_steps: "sched_step s t \<Longrightarrow> sched_step t u \<Longrightarrow> sched_step\<^sup>*\<^sup>* s u"
  by (meson converse_rtranclp_into_rtranclp r_into_rtranclp)

section \<open>Numbers\<close>

definition ids_ok :: "'a sched \<Rightarrow> bool" where
  "ids_ok s \<longleftrightarrow> (next_addr s < 2 ^ 32 \<longrightarrow> unat (task_counter s) = next_addr s \<and>
     map (\<lambda>tp. unat (task_id tp)) (task_list s) = map Suc (addrs (task_list s)))"

lemma ids_ok_same:
  assumes "ids_ok s" "addrs (task_list s') = addrs (task_list s)" "map task_id (task_list s') = map task_id (task_list s)"
    "task_counter s' = task_counter s" "next_addr s' = next_addr s"
  shows "ids_ok s'"
proof -
  have "map (\<lambda>tp. unat (task_id tp)) (task_list s') = map (\<lambda>tp. unat (task_id tp)) (task_list s)"
    using arg_cong [OF assms(3), of "map unat"] by (simp add: comp_def)
  then show ?thesis using assms(1,2,4,5) unfolding ids_ok_def by simp
qed

lemma next_id_unat: "Suc (unat c) < 2 ^ 32 \<Longrightarrow> unat (next_id c) = Suc (unat c)"
proof -
  assume "Suc (unat c) < 2 ^ 32"
  then have n: "unat (c + 1) = Suc (unat c)" by (simp add: unat_word_ariths(1))
  then have "c + 1 \<noteq> 0" by (metis nat.distinct(1) unat_0)
  with n show ?thesis by (simp add: next_id_def)
qed

lemma only_marks_ids: "only_marks ts ts' \<Longrightarrow> map task_id ts' = map task_id ts"
  by (auto simp: only_marks_def mark_deleted_def intro!: nth_equalityI)

lemma sched_step_ids: "sched_step s s' \<Longrightarrow> ids_ok s \<Longrightarrow> ids_ok s'"
proof (induction rule: sched_step.induct)
  case (step_add s now t fn ds g cid arg fl)
  then show ?case
    using next_id_unat [of "task_counter s"]
    by (auto simp: ids_ok_def switch_scheduler_add_task_ex_def new_container_def Let_def addrs_def)
next
  case (step_sweep s fin ts evs gone args)
  then have ts: "ts = filter (\<lambda>tp. \<not> sweepable tp) (task_list s)" using sweep_spec by blast
  have "\<forall>tp \<in> set (task_list s). unat (task_id tp) = Suc (addr tp)" if "next_addr s < 2 ^ 32"
    using step_sweep(3) that by (auto simp: ids_ok_def addrs_def)
  then show ?case using step_sweep(3) by (auto simp: ids_ok_def addrs_def ts)
next
  case (step_del s n)
  then show ?case by (rule ids_ok_same) (use only_marks_same [OF del_id_marks] only_marks_ids [OF del_id_marks] in simp_all)
next
  case (step_del_group s g)
  then show ?case
    by (rule ids_ok_same) (use only_marks_same [OF del_group_marks] only_marks_ids [OF del_group_marks] in simp_all)
next
  case (step_resume s j now)
  from step_resume(2) show ?case by (rule ids_ok_same) (simp_all add: addrs_update map_update_same)
next
  case (step_execute s j now r p)
  from step_execute(2) show ?case by (rule ids_ok_same) (simp_all add: addrs_def map_update_same)
next
  case (step_own_execute s a now r p)
  from step_own_execute(2) show ?case by (rule ids_ok_same) (simp_all add: addrs_def at_addr_def)
next
  case (step_own_exit s a)
  from step_own_exit(2) show ?case by (rule ids_ok_same) (simp_all add: addrs_def at_addr_def)
qed (erule ids_ok_same; simp)+

lemma sched_init_ids: "ids_ok sched_init"
  by (simp add: sched_init_def ids_ok_def addrs_def)

lemma sched_reach_ids: "sched_reach s \<Longrightarrow> ids_ok s"
  unfolding sched_reach_def by (induction rule: rtranclp_induct) (auto simp: sched_init_ids intro: sched_step_ids)

section \<open>Deleted tasks\<close>

text \<open>The function of the task at an address is called in a step.\<close>

definition starts :: "'a sched \<Rightarrow> 'a sched \<Rightarrow> nat \<Rightarrow> bool" where
  "starts s s' a \<longleftrightarrow> own_threads s' a = In_Func \<and> own_threads s a \<noteq> In_Func \<or>
     (\<exists>i < length (task_list s'). pc s' = Executing i \<and> pc s \<noteq> Executing i \<and> addr (task_list s' ! i) = a)"

text \<open>
  A thread has already taken the task to run it, without having called its function yet: the task
  thread has given up the mutex for it, or a thread of its own has been created for it.
\<close>

definition chosen :: "'a sched \<Rightarrow> nat \<Rightarrow> bool" where
  "chosen s a \<longleftrightarrow> own_threads s a = Created \<or>
     (\<exists>i < length (task_list s). pc s = Starting i \<and> addr (task_list s ! i) = a)"

text \<open>
  The task at an address is in the list only with a mark that a pass or the end of its execution
  respects.
\<close>

definition marked :: "'a sched \<Rightarrow> nat \<Rightarrow> bool" where
  "marked s i \<longleftrightarrow> destroyed (task_list s ! i) > 0 \<or>
     destroy_requested (task_list s ! i) > 0 \<and> (pc s = Starting i \<or> pc s = Executing i)"

definition doomed :: "'a sched \<Rightarrow> nat \<Rightarrow> bool" where
  "doomed s a \<longleftrightarrow> a < next_addr s \<and>
     (\<forall>i < length (task_list s). addr (task_list s ! i) = a \<longrightarrow> marked s i)"

lemma doomed_pointwise:
  assumes "doomed s a" "addrs (task_list s') = addrs (task_list s)" "next_addr s' = next_addr s"
    and "\<And>i. i < length (task_list s) \<Longrightarrow> marked s i \<Longrightarrow> marked s' i"
  shows "doomed s' a"
proof -
  have "length (task_list s') = length (task_list s)" using assms(2) by (metis length_addrs)
  moreover have "addr (task_list s' ! i) = addr (task_list s ! i)" if "i < length (task_list s)" for i
    using that calculation arg_cong [OF assms(2), of "\<lambda>xs. xs ! i"] by simp
  ultimately show ?thesis using assms by (simp add: doomed_def)
qed

lemma mark_mono: "destroyed tp > 0 \<Longrightarrow> destroyed (mark_deleted tp) > 0"
  "destroy_requested tp > 0 \<Longrightarrow> destroy_requested (mark_deleted tp) > 0"
  by (simp_all add: mark_deleted_def)

lemma doomed_marks:
  assumes "doomed s a" "only_marks (task_list s) ts"
  shows "doomed (s\<lparr>task_list := ts\<rparr>) a"
proof (rule doomed_pointwise [OF assms(1)])
  fix i assume "i < length (task_list s)"
  then have "ts ! i = task_list s ! i \<or> ts ! i = mark_deleted (task_list s ! i)"
    using assms(2) by (simp add: only_marks_def)
  then show "marked s i \<Longrightarrow> marked (s\<lparr>task_list := ts\<rparr>) i"
    using mark_mono [of "task_list s ! i"] by (auto simp: marked_def)
qed (use only_marks_same [OF assms(2)] in simp_all)

lemma chosen_addrs:
  "chosen s a \<longleftrightarrow> own_threads s a = Created \<or>
     (\<exists>i < length (addrs (task_list s)). pc s = Starting i \<and> addrs (task_list s) ! i = a)"
  by (auto simp: chosen_def)

lemma execute_end_dooms:
  "destroyed tp > 0 \<or> destroy_requested tp > 0 \<Longrightarrow> destroyed (fst (execute_end now (tp\<lparr>runtime := r, rpt := p\<rparr>))) > 0"
  "destroyed tp > 0 \<or> destroy_requested tp > 0 \<Longrightarrow> destroyed (fst (execute_end now (tp\<lparr>runtime := r, rpt := p\<rparr>))) \<noteq> 0"
  by (auto simp: execute_end_def Let_def)

lemma scan_from_doomed:
  assumes "\<And>tp. tp \<in> set (task_list s) \<Longrightarrow> addr tp = a \<Longrightarrow> destroyed tp > 0" "a < next_addr s"
  shows "doomed (scan_from fin now k s) a"
    "chosen (scan_from fin now k s) a \<Longrightarrow> own_threads s a = Created"
    "\<not> starts s (scan_from fin now k s) b"
proof -
  obtain ts own stop where r: "scan fin now k (drop k (task_list s)) = (ts, own, stop)"
    by (cases "scan fin now k (drop k (task_list s))") auto
  have eq: "task_list (scan_from fin now k s) = take k (task_list s) @ ts"
    "own_threads (scan_from fin now k s) = (\<lambda>a. if a \<in> set own then Created else own_threads s a)"
    "pc (scan_from fin now k s) = (case stop of Some j \<Rightarrow> Starting j | None \<Rightarrow> Sweeping fin)"
    by (simp_all add: scan_from_def r)
  have len: "length ts = length (drop k (task_list s))" using scan_addrs [OF r] by (metis length_addrs)
  have ad: "addr (task_list (scan_from fin now k s) ! i) = addr (task_list s ! i)" if "i < length (task_list s)" for i
    using that len arg_cong [OF scan_from_fields(3) [of fin now k s], of "\<lambda>xs. xs ! i"] by (simp add: eq(1))
  show "doomed (scan_from fin now k s) a"
    unfolding doomed_def
  proof (intro conjI allI impI)
    fix i assume i: "i < length (task_list (scan_from fin now k s))" "addr (task_list (scan_from fin now k s) ! i) = a"
    then have i': "i < length (task_list s)" using len by (auto simp: eq(1))
    then have "destroyed (task_list s ! i) > 0" using assms(1) ad i(2) by simp
    then show "marked (scan_from fin now k s) i"
      using i' scan_destroyed [OF r, of "i - k"] by (auto simp: marked_def eq(1) nth_append)
  qed (use assms(2) in simp)
  have own: "a \<notin> set own" using scan_own [OF r, of a] assms(1) in_set_dropD by fastforce
  have "addr (task_list (scan_from fin now k s) ! i) \<noteq> a" if "stop = Some i" for i
  proof -
    have "i < length (task_list s)" "destroyed (task_list s ! i) = 0"
      using scan_stop [of fin now k "drop k (task_list s)" ts own i] r that by auto
    then show ?thesis using ad assms(1) [of "task_list s ! i"] by auto
  qed
  then show "chosen (scan_from fin now k s) a \<Longrightarrow> own_threads s a = Created"
    using own by (auto simp: chosen_def eq(2,3) split: option.splits)
  show "\<not> starts s (scan_from fin now k s) b" by (simp add: starts_def eq(2,3) split: option.splits)
qed

lemma doomed_idle:
  "doomed s a \<Longrightarrow> (\<And>i. pc s \<noteq> Starting i \<and> pc s \<noteq> Executing i) \<Longrightarrow> tp \<in> set (task_list s) \<Longrightarrow> addr tp = a \<Longrightarrow> destroyed tp > 0"
  by (auto simp: doomed_def marked_def in_set_conv_nth)

lemma at_addr_nth: "i < length ts \<Longrightarrow> at_addr a f ts ! i = (if addr (ts ! i) = a then f (ts ! i) else ts ! i)"
  by (simp add: at_addr_def)

lemma nth_update: "xs[j := x] ! i = (if i = j \<and> j < length xs then x else xs ! i)"
  by (cases "j < length xs") (auto simp: nth_list_update list_update_beyond)

lemma at_addr_addrs: "(\<And>tp. addr (f tp) = addr tp) \<Longrightarrow> addrs (at_addr a f ts) = addrs ts"
  by (simp add: at_addr_def addrs_def)

text \<open>A step of the scheduler keeps a task doomed, chooses it no more, and calls its function only if it was chosen.\<close>

definition winds_down :: "'a sched \<Rightarrow> 'a sched \<Rightarrow> nat \<Rightarrow> bool" where
  "winds_down s s' a \<longleftrightarrow> doomed s' a \<and> (chosen s' a \<longrightarrow> chosen s a) \<and> (starts s s' a \<longrightarrow> chosen s a)"

lemma scan_winds_down:
  assumes "\<And>tp. tp \<in> set (task_list s) \<Longrightarrow> addr tp = a \<Longrightarrow> destroyed tp > 0" "a < next_addr s"
    "own_threads s' = own_threads s" "\<not> starts s (scan_from fin now k s) a \<Longrightarrow> \<not> starts s' (scan_from fin now k s) a"
  shows "winds_down s' (scan_from fin now k s) a"
  using scan_from_doomed [OF assms(1,2), where fin = fin and now = now and k = k] assms(3,4)
  by (auto simp: winds_down_def chosen_def)

lemma sched_step_doomed: "sched_step s s' \<Longrightarrow> doomed s a \<Longrightarrow> winds_down s s' a"
proof (induction rule: sched_step.induct)
  case (step_add s now t fn ds g cid arg fl)
  then show ?case
    by (auto simp: winds_down_def chosen_def doomed_def marked_def starts_def switch_scheduler_add_task_ex_def new_container_def
        Let_def nth_append less_Suc_eq)
next
  case (step_del s n)
  note same = only_marks_same(1) [OF del_id_marks [of "task_list s" n]]
  then show ?case using doomed_marks [OF step_del del_id_marks] by (auto simp: winds_down_def starts_def chosen_addrs simp del: length_addrs addrs_nth)
next
  case (step_del_group s g)
  note same = only_marks_same(1) [OF del_group_marks [of "task_list s" g]]
  then show ?case using doomed_marks [OF step_del_group del_group_marks] by (auto simp: winds_down_def starts_def chosen_addrs simp del: length_addrs addrs_nth)
next
  case (step_pass s now)
  show ?case
    by (rule scan_winds_down) (use doomed_idle [OF step_pass(3)] step_pass in \<open>auto simp: doomed_def\<close>)
next
  case (step_last_pass s now)
  show ?case
    by (rule scan_winds_down) (use doomed_idle [OF step_last_pass(3)] step_last_pass in \<open>auto simp: doomed_def\<close>)
next
  case (step_call s j)
  then show ?case by (auto simp: winds_down_def doomed_def marked_def chosen_def starts_def)
next
  case (step_execute s j)
  have "doomed (s\<lparr>task_list := (task_list s)[j := fst (execute_end now ((task_list s ! j)\<lparr>runtime := r, rpt := p\<rparr>))],
      event_queue := ev, pc := Executed j\<rparr>) a" for now r p ev
    by (rule doomed_pointwise [OF step_execute(2)])
      (use step_execute(1) in \<open>auto simp: addrs_update nth_update marked_def execute_end_dooms\<close>)
  then show ?case by (simp add: winds_down_def chosen_def starts_def)
next
  case (step_resume s j now)
  show ?case
  proof (rule scan_winds_down)
    fix tp assume "tp \<in> set (task_list (s\<lparr>task_list := (task_list s)[j := (task_list s ! j)\<lparr>running := False\<rparr>]\<rparr>))" "addr tp = a"
    then show "destroyed tp > 0"
      using step_resume by (auto simp: doomed_def marked_def in_set_conv_nth nth_update split: if_splits)
  qed (use step_resume in \<open>simp_all add: doomed_def starts_def\<close>)
next
  case (step_sweep s fin ts evs gone args)
  then have "ts = filter (\<lambda>tp. \<not> sweepable tp) (task_list s)" using sweep_spec by blast
  then have "destroyed tp > 0" if "tp \<in> set ts" "addr tp = a" for tp
    using that doomed_idle [OF step_sweep(3)] step_sweep(1) by simp
  then show ?case using step_sweep(3) by (simp add: winds_down_def doomed_def marked_def chosen_def starts_def)
next
  case (step_own_execute s b now r p)
  have "doomed (s\<lparr>task_list := at_addr b (\<lambda>tp. fst (execute_end now (tp\<lparr>runtime := r, rpt := p\<rparr>))) (task_list s),
      event_queue := ev, own_threads := th\<rparr>) a" for ev th
    by (rule doomed_pointwise [OF step_own_execute(2)])
      (auto simp: at_addr_nth at_addr_addrs marked_def execute_end_dooms)
  then show ?case by (auto simp: winds_down_def chosen_addrs at_addr_addrs starts_def split: if_splits simp del: length_addrs addrs_nth)
next
  case (step_own_exit s b)
  have "doomed (s\<lparr>task_list := at_addr b (\<lambda>tp. tp\<lparr>in_thread := False\<rparr>) (task_list s), own_threads := th\<rparr>) a" for th
    by (rule doomed_pointwise [OF step_own_exit(2)]) (auto simp: at_addr_nth at_addr_addrs marked_def)
  then show ?case by (auto simp: winds_down_def chosen_addrs at_addr_addrs starts_def split: if_splits simp del: length_addrs addrs_nth)
qed (auto simp: winds_down_def doomed_def marked_def chosen_def starts_def)

text \<open>Calling the function uses the choice up: a task is not run by two threads.\<close>

lemma starts_unchosen:
  assumes "sched_step s s'" "sched_inv s'" "starts s s' a"
  shows "\<not> chosen s' a"
proof
  assume ch: "chosen s' a"
  have own: "own_threads s' (addr (task_list s' ! i)) = Absent" if "at_work (pc s') i" "i < length (task_list s')" for i
    using assms(2) that by (auto simp: sched_inv_def)
  from assms(3) ch show False
    unfolding starts_def chosen_def using own by (auto simp: at_work_def)
qed

lemma doomed_steps:
  assumes "sched_step\<^sup>*\<^sup>* s s'" "doomed s a"
  shows "doomed s' a \<and> (chosen s' a \<longrightarrow> chosen s a)"
  using assms by (induction rule: rtranclp_induct) (auto dest: sched_step_doomed simp: winds_down_def)

lemma del_id_first:
  "switch_scheduler_del_task_id n ts = (1, ts') \<Longrightarrow> i < length ts \<Longrightarrow> task_id (ts ! i) = n \<Longrightarrow>
   (\<And>k. k < i \<Longrightarrow> task_id (ts ! k) \<noteq> n) \<Longrightarrow> ts' = ts[i := mark_deleted (ts ! i)]"
proof (induction n ts arbitrary: ts' i rule: switch_scheduler_del_task_id.induct)
  case (2 n tp ts)
  show ?case
  proof (cases i)
    case 0
    then show ?thesis using 2 by (auto split: if_splits)
  next
    case (Suc m)
    have "task_id tp \<noteq> n" using 2(5) [of 0] Suc by simp
    moreover have "\<And>k. k < m \<Longrightarrow> task_id (ts ! k) \<noteq> n" using 2(5) [of "Suc k" for k] Suc by simp
    ultimately show ?thesis using 2(1,2,3,4) Suc by (auto split: prod.splits)
  qed
qed simp

lemma deleted_doomed:
  assumes "sched_inv s" "switch_scheduler_del_task_id n (task_list s) = (1, ts)"
    "i < length (task_list s)" "task_id (task_list s ! i) = n" "\<And>k. k < i \<Longrightarrow> task_id (task_list s ! k) \<noteq> n" "pc s \<noteq> Executed i"
  shows "doomed (s\<lparr>task_list := ts\<rparr>) (addr (task_list s ! i))"
proof -
  have ts: "ts = (task_list s)[i := mark_deleted (task_list s ! i)]" by (rule del_id_first [OF assms(2-5)])
  have "distinct (addrs (task_list s))" using assms(1) by (simp add: sched_inv_def)
  then have only: "k = i" if "k < length (task_list s)" "addr (task_list s ! k) = addr (task_list s ! i)" for k
    using that assms(3) by (simp add: addrs_def nth_eq_iff_index_eq [symmetric])
  have "destroyed (mark_deleted (task_list s ! i)) > 0 \<or>
      destroy_requested (mark_deleted (task_list s ! i)) > 0 \<and> (pc s = Starting i \<or> pc s = Executing i)"
    using inv_running [OF assms(1,3)] assms(6) by (auto simp: mark_deleted_def at_work_def)
  moreover have "addr (task_list s ! i) < next_addr s" using assms(1,3) by (simp add: sched_inv_def addrs_def)
  ultimately show ?thesis using only assms(3) by (auto simp: doomed_def marked_def ts nth_list_update)
qed

section \<open>Properties\<close>

text \<open>
  C28: No container is used after it was freed, for all interleavings: a task being executed,
  by the task thread or by a thread of its own, or about to be, is still in the list, and no container is freed
  twice.\<close>
theorem sched_no_use_after_free:
  assumes "sched_reach s"
  shows "distinct (released s) \<and>
    (\<forall>a. own_threads s a \<noteq> Absent \<longrightarrow> a \<in> set (addrs (task_list s)) \<and> a \<notin> set (released s)) \<and>
    (\<forall>j. pc s = Starting j \<or> pc s = Executing j \<or> pc s = Executed j \<longrightarrow>
       j < length (task_list s) \<and> running (task_list s ! j) \<and> addr (task_list s ! j) \<notin> set (released s))"
proof -
  note inv = sched_reach_inv [OF assms]
  have rel: "a \<notin> set (released s)" if "a \<in> set (addrs (task_list s))" for a using inv that by (auto simp: sched_inv_def)
  have "j < length (task_list s) \<and> running (task_list s ! j) \<and> addr (task_list s ! j) \<notin> set (released s)"
    if "at_work (pc s) j" for j
  proof -
    have "j < length (task_list s)" using inv that by (simp add: sched_inv_def)
    then show ?thesis using inv_running [OF inv] that rel [of "addr (task_list s ! j)"] by (simp add: addrs_def)
  qed
  then show ?thesis using inv rel by (auto simp: sched_inv_def at_work_def)
qed

definition sample_sched :: "nat sched" where
  "sample_sched = scan_from False (\<lambda>k. 10) 0
     (snd (switch_scheduler_add_task_ex 10 10 7 None None 0 None 0 sched_init))"

lemma sample_sched_reach: "sched_reach sample_sched"
proof -
  let ?s = "snd (switch_scheduler_add_task_ex 10 10 7 None None 0 None 0 sched_init) :: nat sched"
  have "sched_step sched_init ?s" by (rule step_add)
  moreover have "sched_step ?s sample_sched" unfolding sample_sched_def
    by (rule step_pass) (simp_all add: switch_scheduler_add_task_ex_def sched_init_def Let_def)
  ultimately show ?thesis unfolding sched_reach_def by (meson converse_rtranclp_into_rtranclp rtranclp.rtrancl_refl)
qed

lemma sample_sched_eq:
  "sample_sched = \<lparr>task_list = [\<lparr>addr = 0, task_id = 1, created = 10, runtime = 10, rpt = 0, cmd_id = 0, grp = ''none'',
      cmd_arg = None, thash = switch_ci_hashfunc_default ''none'', executed = 10, in_thread = False, destroyed = 0, running = True,
      destroy_requested = 0, func = 7, tflags = 0, desc = ''none''\<rparr>],
    task_counter = 1,
    event_queue = [\<lparr>ev_kind = ADD_SCHEDULE, ev_task = 1, ev_desc = ''none'', ev_group = ''none'', ev_runtime = 10\<rparr>],
    pc = Starting 0, own_threads = (\<lambda>a. Absent), stopping = False, next_addr = 1, released = [], freed_args = []\<rparr>"
  by (simp add: sample_sched_def scan_from_def switch_scheduler_add_task_ex_def sched_init_def Let_def new_container_def
      next_id_def task_event_def switch_test_flag_def sshf_flags)

theorem sched_no_use_after_free_witness:
  "distinct (released sample_sched) \<and> running (task_list sample_sched ! 0) \<and> addr (task_list sample_sched ! 0) \<notin> set (released sample_sched)"
proof -
  have "pc sample_sched = Starting 0" by (simp add: sample_sched_eq)
  then show ?thesis using sched_no_use_after_free [OF sample_sched_reach] by blast
qed

text \<open>
  C23: A task that was deleted is not chosen to run any more.  When \<^verbatim>\<open>switch_scheduler_del_task_id\<close> has counted a task,
  and the task thread is not between the end of \<^verbatim>\<open>switch_scheduler_execute\<close> for that task and taking the mutex again:
  a later step of any thread calls the task's function only if a thread had already been given the task at
  the time of the deletion, and after such a call it is never called again.  A task that was waiting, or whose
  function was running, at the time of its deletion is therefore never called again.\<close>
theorem sched_deleted_not_started:
  assumes "sched_reach s" "switch_scheduler_del_task_id n (task_list s) = (1, ts)"
    "i < length (task_list s)" "task_id (task_list s ! i) = n" "\<And>k. k < i \<Longrightarrow> task_id (task_list s ! k) \<noteq> n"
    "pc s \<noteq> Executed i" "sched_step\<^sup>*\<^sup>* (s\<lparr>task_list := ts\<rparr>) s'" "sched_step s' s''" "starts s' s'' (addr (task_list s ! i))"
  shows "chosen s (addr (task_list s ! i)) \<and>
    (\<forall>t t'. sched_step\<^sup>*\<^sup>* s'' t \<longrightarrow> sched_step t t' \<longrightarrow> \<not> starts t t' (addr (task_list s ! i)))"
proof -
  let ?d = "s\<lparr>task_list := ts\<rparr>" and ?a = "addr (task_list s ! i)"
  have d: "doomed ?d ?a" by (rule deleted_doomed [OF sched_reach_inv [OF assms(1)] assms(2-6)])
  have ts: "ts = snd (switch_scheduler_del_task_id n (task_list s))" using assms(2) by simp
  have same: "chosen ?d ?a \<longleftrightarrow> chosen s ?a"
    unfolding chosen_addrs using only_marks_same(1) [OF del_id_marks [of "task_list s" n]] by (simp add: ts del: length_addrs addrs_nth)
  have "sched_reach ?d" using sched_reach_step [OF assms(1) step_del [of s n]] by (simp add: ts)
  then have "sched_reach s''" using assms(7,8) unfolding sched_reach_def by (meson rtranclp.rtrancl_into_rtrancl rtranclp_trans)
  then have un: "\<not> chosen s'' ?a" by (intro starts_unchosen [OF assms(8) _ assms(9)] sched_reach_inv)
  note s' = doomed_steps [OF assms(7) d]
  note s'' = sched_step_doomed [OF assms(8) conjunct1 [OF s'], unfolded winds_down_def]
  have "\<not> starts t t' ?a" if "sched_step\<^sup>*\<^sup>* s'' t" "sched_step t t'" for t t'
    using doomed_steps [OF that(1) conjunct1 [OF s'']] sched_step_doomed [OF that(2)] un by (auto simp: winds_down_def)
  then show ?thesis using s' s'' assms(9) same by blast
qed

text \<open>
  Two tasks: the first is deleted while it waits, and the second is called; and the first is deleted after the
  task thread has given up the mutex for it, and is called once.\<close>

definition two_tasks :: "nat sched" where
  "two_tasks = snd (switch_scheduler_add_task_ex 10 10 8 None None 0 None 0
     (snd (switch_scheduler_add_task_ex 10 10 7 None None 0 None 0 sched_init)))"

lemma two_tasks_reach: "sched_reach two_tasks"
proof -
  have "sched_reach (sched_init :: nat sched)" by (simp add: sched_reach_def)
  then show ?thesis unfolding two_tasks_def by (intro sched_reach_step [OF _ step_add])
qed

lemmas sample_eval = scan_from_def switch_scheduler_add_task_ex_def sched_init_def Let_def new_container_def next_id_def
  task_event_def switch_test_flag_def sshf_flags mark_deleted_def starts_def chosen_def

theorem sched_deleted_not_started_witness:
  "(let d = two_tasks\<lparr>task_list := snd (switch_scheduler_del_task_id 1 (task_list two_tasks))\<rparr>; s' = scan_from False (\<lambda>k. 10) 0 d
    in pc s' = Starting 1 \<and> sched_step s' (s'\<lparr>pc := Executing 1\<rparr>) \<and> \<not> starts s' (s'\<lparr>pc := Executing 1\<rparr>) (addr (task_list two_tasks ! 0))) \<and>
   (let d = sample_sched\<lparr>task_list := snd (switch_scheduler_del_task_id 1 (task_list sample_sched))\<rparr>
    in starts d (d\<lparr>pc := Executing 0\<rparr>) 0 \<and> chosen sample_sched 0 \<and>
      (\<forall>t t'. sched_step\<^sup>*\<^sup>* (d\<lparr>pc := Executing 0\<rparr>) t \<longrightarrow> sched_step t t' \<longrightarrow> \<not> starts t t' 0))"
proof -
  let ?d = "two_tasks\<lparr>task_list := snd (switch_scheduler_del_task_id 1 (task_list two_tasks))\<rparr>"
  let ?s = "scan_from False (\<lambda>k. 10) 0 ?d"
  let ?c = "sample_sched\<lparr>task_list := snd (switch_scheduler_del_task_id 1 (task_list sample_sched))\<rparr>"
  have w: "pc ?d = Top" "\<not> stopping ?d" "pc ?s = Starting 1" "pc ?c = Starting 0" "pc two_tasks = Top"
    by (simp_all add: two_tasks_def sample_sched_eq sample_eval)
  note steps = step_pass [OF w(1,2), of "\<lambda>k. 10"] step_call [OF w(3)] step_call [OF w(4)]
  have "\<not> starts ?s (?s\<lparr>pc := Executing 1\<rparr>) (addr (task_list two_tasks ! 0))"
  proof
    assume "starts ?s (?s\<lparr>pc := Executing 1\<rparr>) (addr (task_list two_tasks ! 0))"
    from sched_deleted_not_started [OF two_tasks_reach _ _ _ _ _ r_into_rtranclp [where r = sched_step, OF steps(1)] steps(2) this]
    have "chosen two_tasks (addr (task_list two_tasks ! 0))" by (simp add: two_tasks_def sample_eval)
    then show False by (simp add: two_tasks_def sample_eval)
  qed
  moreover have st: "starts ?c (?c\<lparr>pc := Executing 0\<rparr>) (addr (task_list sample_sched ! 0))"
    by (simp add: sample_sched_eq sample_eval)
  have "chosen sample_sched (addr (task_list sample_sched ! 0)) \<and>
      (\<forall>t t'. sched_step\<^sup>*\<^sup>* (?c\<lparr>pc := Executing 0\<rparr>) t \<longrightarrow> sched_step t t' \<longrightarrow> \<not> starts t t' (addr (task_list sample_sched ! 0)))"
    by (rule sched_deleted_not_started [OF sample_sched_reach _ _ _ _ _ rtranclp.rtrancl_refl steps(3) st, where n = 1])
      (simp_all add: sample_sched_eq switch_test_flag_def sshf_flags)
  moreover have "addr (task_list sample_sched ! 0) = 0" by (simp add: sample_sched_eq)
  ultimately show ?thesis using w(3) steps(2) st by (simp add: Let_def)
qed

text \<open>
  C38: The exception is real: a task deleted in that window, with the deletion counted, is
  kept in the list and its function is called once more.\<close>
theorem sched_delete_window:
  "\<exists>(s :: nat sched) s' s''. sched_reach s \<and> fst (switch_scheduler_del_task_id 1 (task_list s)) = 1 \<and> pc s = Executed 0 \<and>
     sched_step\<^sup>*\<^sup>* (s\<lparr>task_list := snd (switch_scheduler_del_task_id 1 (task_list s))\<rparr>) s' \<and> sched_step s' s'' \<and>
     starts s' s'' (addr (task_list s ! 0))"
proof -
  let ?e = "sample_sched\<lparr>pc := Executing 0\<rparr>"
  let ?s = "?e\<lparr>task_list := (task_list ?e)[0 := fst (execute_end 10 ((task_list ?e ! 0)\<lparr>runtime := 20, rpt := 0\<rparr>))],
      event_queue := event_queue ?e @ snd (execute_end 10 ((task_list ?e ! 0)\<lparr>runtime := 20, rpt := 0\<rparr>)), pc := Executed 0\<rparr>"
  let ?d = "?s\<lparr>task_list := snd (switch_scheduler_del_task_id 1 (task_list ?s))\<rparr>"
  let ?r = "scan_from False (\<lambda>k. 10) (Suc 0) (?d\<lparr>task_list := (task_list ?d)[0 := (task_list ?d ! 0)\<lparr>running := False\<rparr>]\<rparr>)"
  let ?w = "?r\<lparr>task_list := task_list ?r, event_queue := event_queue ?r @ [], released := released ?r @ [],
      freed_args := freed_args ?r @ [], pc := (if False then Stopped else Top)\<rparr>"
  let ?p = "scan_from False (\<lambda>k. 20) 0 ?w"
  have s: "pc sample_sched = Starting 0" "pc ?e = Executing 0" "pc ?s = Executed 0" "pc ?d = Executed 0" by (simp_all add: sample_sched_eq)
  have reach: "sched_reach ?s"
    by (rule sched_reach_step [OF sched_reach_step [OF sample_sched_reach step_call [OF s(1)]] step_execute [OF s(2)]])
  have one: "fst (switch_scheduler_del_task_id 1 (task_list ?s)) = 1"
    by (simp add: sample_sched_eq execute_end_def sample_eval)
  have pr: "pc ?r = Sweeping False" "sweep (task_list ?r) = (task_list ?r, [], [], [])" "pc ?w = Top" "\<not> stopping ?w" "pc ?p = Starting 0"
    by (simp_all add: sample_sched_eq execute_end_def sample_eval sweepable_def)
  have path: "sched_step\<^sup>*\<^sup>* ?d ?p"
    using sched_two_steps [OF step_resume [OF s(4)] step_sweep [OF pr(1,2)]] step_pass [OF pr(3,4)] by (rule rtranclp.rtrancl_into_rtrancl)
  have start: "starts ?p (?p\<lparr>pc := Executing 0\<rparr>) (addr (task_list ?s ! 0))"
    by (simp add: sample_sched_eq execute_end_def sample_eval)
  show ?thesis
    by (rule exI [of _ ?s], rule exI [of _ ?p], rule exI [of _ "?p\<lparr>pc := Executing 0\<rparr>"])
      (intro conjI reach one s(3) path step_call [OF pr(5)] start)
qed

text \<open>
  Until the 32 bit counter wraps, the numbers of the tasks in the list are distinct and
  none is zero.\<close>
theorem sched_ids_distinct:
  assumes "sched_reach s" "next_addr s < 2 ^ 32"
  shows "distinct (map task_id (task_list s)) \<and> 0 \<notin> set (map task_id (task_list s))"
proof -
  have ids: "map unat (map task_id (task_list s)) = map Suc (addrs (task_list s))"
    using sched_reach_ids [OF assms(1)] assms(2) by (simp add: ids_ok_def comp_def)
  have "distinct (map Suc (addrs (task_list s)))"
    using sched_reach_inv [OF assms(1)] by (simp add: sched_inv_def distinct_map)
  then have "distinct (map task_id (task_list s))" unfolding ids [symmetric] by (auto simp: distinct_map intro: inj_on_imageI2)
  moreover have "unat 0 \<notin> set (map unat (map task_id (task_list s)))" unfolding ids by auto
  then have "0 \<notin> set (map task_id (task_list s))" by force
  ultimately show ?thesis by blast
qed

theorem sched_ids_distinct_witness: "0 \<notin> set (map task_id (task_list sample_sched))"
proof -
  have "next_addr sample_sched < 2 ^ 32" by (simp add: sample_sched_eq)
  then show ?thesis using sched_ids_distinct [OF sample_sched_reach] by blast
qed

end
