(* ===== verification/Separate.thy ===== *)
theory Separate
  imports Cstring
begin

text \<open>
  Separating a command line into its arguments, \<^verbatim>\<open>switch_separate_string\<close> of \<^verbatim>\<open>src/switch_utils.c\<close>, with quotes and
  escapes.  The text is what lies before the terminating zero; \<open>None\<close> is a read behind that
  zero.  An argument of the array is the text from its start to the zero that was written
  over its delimiter.
\<close>

section \<open>Escapes\<close>

abbreviation ESCAPE_META :: char where "ESCAPE_META \<equiv> CHR 0x5C"
abbreviation QUOTE :: char where "QUOTE \<equiv> CHR 0x27"
abbreviation DQUOTE :: char where "DQUOTE \<equiv> CHR 0x22"
abbreviation BLANK :: char where "BLANK \<equiv> CHR 0x20"
abbreviation DOLLAR :: char where "DOLLAR \<equiv> CHR 0x24"
abbreviation CARET :: char where "CARET \<equiv> CHR 0x5E"
abbreviation LF :: char where "LF \<equiv> CHR 0x0A"
abbreviation CR :: char where "CR \<equiv> CHR 0x0D"
abbreviation TAB :: char where "TAB \<equiv> CHR 0x09"
abbreviation NUL :: char where "NUL \<equiv> CHR 0x00"

definition unescape_char :: "char \<Rightarrow> char" where
  "unescape_char escaped =
     (if escaped = CHR ''n'' then LF
      else if escaped = CHR ''r'' then CR
      else if escaped = CHR ''t'' then TAB
      else if escaped = CHR ''s'' then BLANK
      else escaped)"

definition escape_char :: "char \<Rightarrow> string" where
  "escape_char c =
     (if c = LF then [ESCAPE_META, CHR ''n'']
      else if c = CR then [ESCAPE_META, CHR ''r'']
      else if c = TAB then [ESCAPE_META, CHR ''t'']
      else if c = BLANK then [ESCAPE_META, CHR ''s'']
      else if c = DOLLAR then [ESCAPE_META, DOLLAR]
      else [c])"

definition switch_escape_string :: "string \<Rightarrow> string" where
  "switch_escape_string s = concat (map escape_char s)"

section \<open>Cleaning up one argument\<close>

text \<open>What an escape stands for that is followed by \<open>e\<close>, when it is one.\<close>

definition esc_value :: "char \<Rightarrow> char \<Rightarrow> char option" where
  "esc_value delim e =
     (if e = QUOTE \<or> e = DQUOTE \<or> (delim \<noteq> NUL \<and> e = delim) \<or> e = ESCAPE_META then Some e
      else if unescape_char e \<noteq> e then Some (unescape_char e)
      else None)"

text \<open>\<open>out\<close> is what was written and \<open>fin\<close> the length up to which it is kept.\<close>

fun cleanup_loop :: "char \<Rightarrow> bool \<Rightarrow> string \<Rightarrow> string \<Rightarrow> nat \<Rightarrow> string" where
  "cleanup_loop delim q [] out fin = take fin out"
| "cleanup_loop delim q (c # s) out fin =
     (case (if c = ESCAPE_META \<and> s \<noteq> [] then esc_value delim (hd s) else None) of
        Some e \<Rightarrow> cleanup_loop delim q (tl s) (out @ [e]) (length out + 1)
      | None \<Rightarrow>
          if c = QUOTE \<and> (q \<or> QUOTE \<in> set s)
          then cleanup_loop delim (\<not> q) s out (if \<not> q then length out else fin)
          else cleanup_loop delim q s (out @ [c]) (if c \<noteq> BLANK \<or> q then length out + 1 else fin))"

definition cleanup_separated_string :: "string \<Rightarrow> char \<Rightarrow> string" where
  "cleanup_separated_string str delim = cleanup_loop delim False (dropWhile (\<lambda>c. c = BLANK) str) [] 0"

section \<open>Finding the arguments\<close>

text \<open>
  The state \<^verbatim>\<open>FIND_DELIM\<close>: the argument that ends at the next delimiter, and what is behind the delimiter, if
  there is one.
\<close>

fun find_delim :: "char \<Rightarrow> bool \<Rightarrow> string \<Rightarrow> (string \<times> string option) option" where
  "find_delim delim q [] = Some ([], None)"
| "find_delim delim q (c # s) =
     (if c = ESCAPE_META then
        (case s of [] \<Rightarrow> None
         | e # s' \<Rightarrow> map_option (\<lambda>(t, r). (c # e # t, r)) (find_delim delim q s'))
      else if c = QUOTE \<and> (q \<or> QUOTE \<in> set s) then map_option (\<lambda>(t, r). (c # t, r)) (find_delim delim (\<not> q) s)
      else if c = delim \<and> \<not> q then Some ([], Some s)
      else map_option (\<lambda>(t, r). (c # t, r)) (find_delim delim q s))"

fun find_blank :: "bool \<Rightarrow> string \<Rightarrow> (string \<times> string option \<times> bool) option" where
  "find_blank q [] = Some ([], None, q)"
| "find_blank q (c # s) =
     (if c = ESCAPE_META then
        (case s of [] \<Rightarrow> None
         | e # s' \<Rightarrow> map_option (\<lambda>(t, r). (c # e # t, r)) (find_blank q s'))
      else if c = QUOTE then map_option (\<lambda>(t, r). (c # t, r)) (find_blank (\<not> q) s)
      else if c = BLANK \<and> \<not> q then Some ([], Some s, q)
      else map_option (\<lambda>(t, r). (c # t, r)) (find_blank q s))"

text \<open>
  The loops from the state \<^verbatim>\<open>START\<close>; \<open>n\<close> is the room left in the array.  The last argument the array
  has room for is the whole rest.
\<close>

fun char_loop :: "char \<Rightarrow> nat \<Rightarrow> string \<Rightarrow> string list option" where
  "char_loop delim 0 s = Some []"
| "char_loop delim (Suc n) s =
     (if s = [] then Some []
      else if n = 0 then Some [s]
      else case find_delim delim False s of
        None \<Rightarrow> None
      | Some (t, None) \<Rightarrow> Some [t]
      | Some (t, Some r) \<Rightarrow> map_option (\<lambda>ts. t # ts) (char_loop delim n r))"

fun blank_loop :: "nat \<Rightarrow> bool \<Rightarrow> string \<Rightarrow> string list option" where
  "blank_loop 0 q s = Some []"
| "blank_loop (Suc n) q s =
     (if s = [] then Some []
      else if n = 0 then Some [s]
      else case find_blank q (dropWhile (\<lambda>c. c = BLANK) s) of
        None \<Rightarrow> None
      | Some (t, None, q') \<Rightarrow> Some [takeWhile (\<lambda>c. c = BLANK) s @ t]
      | Some (t, Some r, q') \<Rightarrow>
          map_option (\<lambda>ts. (takeWhile (\<lambda>c. c = BLANK) s @ t) # ts)
            (blank_loop n q' (dropWhile (\<lambda>c. c = BLANK) r)))"

definition separate_string_char_delim :: "string \<Rightarrow> char \<Rightarrow> nat \<Rightarrow> string list option" where
  "separate_string_char_delim buf delim arraylen =
     map_option (map (\<lambda>t. cleanup_separated_string t delim)) (char_loop delim arraylen buf)"

definition separate_string_blank_delim :: "string \<Rightarrow> nat \<Rightarrow> string list option" where
  "separate_string_blank_delim buf arraylen =
     map_option (map (\<lambda>t. cleanup_separated_string t NUL)) (blank_loop arraylen False buf)"

text \<open>A text that begins with \<^verbatim>\<open>^^\<close> brings its own delimiter.\<close>

definition pick_delim :: "char \<Rightarrow> string \<Rightarrow> char \<times> string" where
  "pick_delim delim s =
     (case s of a # b # d # c # r \<Rightarrow> if a = CARET \<and> b = CARET then (d, c # r) else (delim, s) | _ \<Rightarrow> (delim, s))"

definition switch_separate_string :: "string option \<Rightarrow> char \<Rightarrow> nat \<Rightarrow> string list option" where
  "switch_separate_string buf delim arraylen =
     (case buf of None \<Rightarrow> Some []
      | Some s \<Rightarrow>
          if arraylen = 0 then Some []
          else
            (let (delim, s) = pick_delim delim s
             in if delim = BLANK then separate_string_blank_delim s arraylen
                else separate_string_char_delim s delim arraylen))"

section \<open>Writing arguments down\<close>

text \<open>A way to write any argument so that it survives the separation at \<open>delim\<close>.\<close>

definition enc_char :: "char \<Rightarrow> char \<Rightarrow> string" where
  "enc_char delim c =
     (if c = BLANK then [ESCAPE_META, CHR ''s'']
      else if c = ESCAPE_META \<or> c = QUOTE \<or> c = delim then [ESCAPE_META, c] else [c])"

definition enc_arg :: "char \<Rightarrow> string \<Rightarrow> string" where
  "enc_arg delim s = concat (map (enc_char delim) s)"

definition usable_delim :: "char \<Rightarrow> bool" where
  "usable_delim delim \<longleftrightarrow> delim \<notin> {ESCAPE_META, QUOTE, BLANK, NUL, CHR ''s''}"

lemma enc_arg_simps [simp]: "enc_arg delim [] = []" "enc_arg delim (c # s) = enc_char delim c @ enc_arg delim s"
  by (simp_all add: enc_arg_def)

lemma find_delim_enc:
  assumes "usable_delim delim" "rest = [] \<or> hd rest = delim"
  shows "find_delim delim False (enc_arg delim s @ rest) =
    Some (enc_arg delim s, if rest = [] then None else Some (tl rest))"
proof (induction s)
  case Nil
  then show ?case using assms by (cases rest) (auto simp: usable_delim_def)
next
  case (Cons c s)
  then show ?case using assms(1) by (auto simp: enc_char_def usable_delim_def)
qed

lemma cleanup_enc:
  assumes "usable_delim delim"
  shows "cleanup_loop delim False (enc_arg delim s) out (length out) = out @ s"
proof (induction s arbitrary: out)
  case (Cons c s)
  have "cleanup_loop delim False (enc_arg delim s) (out @ [c]) (Suc (length out)) = out @ c # s"
    using Cons [of "out @ [c]"] by simp
  then show ?case
    using assms by (auto simp: enc_char_def usable_delim_def esc_value_def unescape_char_def)
qed simp

lemma enc_no_blank: "dropWhile (\<lambda>c. c = BLANK) (enc_arg delim s) = enc_arg delim s"
  by (cases s) (auto simp: enc_char_def)

lemma cleanup_enc_arg: "usable_delim delim \<Longrightarrow> cleanup_separated_string (enc_arg delim s) delim = s"
  using cleanup_enc [of delim s "[]"] by (simp add: cleanup_separated_string_def enc_no_blank)

lemma enc_ne: "s \<noteq> [] \<Longrightarrow> enc_arg delim s \<noteq> []"
  by (cases s) (auto simp: enc_char_def)

lemma char_loop_enc:
  "usable_delim delim \<Longrightarrow> args \<noteq> [] \<Longrightarrow> last args \<noteq> [] \<Longrightarrow> length args \<le> n \<Longrightarrow>
   char_loop delim n (join [delim] (map (enc_arg delim) args)) = Some (map (enc_arg delim) args)"
proof (induction args arbitrary: n)
  case (Cons x xs)
  obtain m where n: "n = Suc m" using Cons.prems(4) by (cases n) auto
  show ?case
  proof (cases "xs = []")
    case True
    have "join [delim] (map (enc_arg delim) (x # xs)) = enc_arg delim x" using True by (simp add: join_def)
    then show ?thesis
      using True Cons.prems(1,3) find_delim_enc [of delim "[]" x] by (auto simp: n enc_ne)
  next
    case False
    let ?r = "join [delim] (map (enc_arg delim) xs)"
    have j: "join [delim] (map (enc_arg delim) (x # xs)) = enc_arg delim x @ delim # ?r"
      using False by (simp add: join_Cons)
    have "m \<noteq> 0" using Cons.prems(4) False n by (cases xs) auto
    then show ?thesis
      using Cons False find_delim_enc [of delim "delim # ?r" x] unfolding j n by simp
  qed
qed simp

section \<open>Reads behind the end\<close>

text \<open>The last character is an escape that escapes nothing; an escaped escape is not one.\<close>

fun dangling :: "string \<Rightarrow> bool" where
  "dangling [] = False"
| "dangling [c] = (c = ESCAPE_META)"
| "dangling (c # e # s) = (if c = ESCAPE_META then dangling s else dangling (e # s))"

lemma dangling_Cons [simp]: "c \<noteq> ESCAPE_META \<Longrightarrow> dangling (c # s) = dangling s"
  by (cases s) simp_all

text \<open>What a search for a delimiter leaves: the rest dangles like the whole, is shorter, and lies behind a delimiter.\<close>

definition rest_ok :: "char \<Rightarrow> string \<Rightarrow> string option \<Rightarrow> bool" where
  "rest_ok delim s r \<longleftrightarrow>
     (case r of None \<Rightarrow> \<not> dangling s | Some u \<Rightarrow> dangling u = dangling s \<and> length u < length s \<and> delim \<in> set s)"

lemma rest_ok_Cons: "c \<noteq> ESCAPE_META \<Longrightarrow> rest_ok delim s r \<Longrightarrow> rest_ok delim (c # s) r"
  by (auto simp: rest_ok_def split: option.splits)

lemma rest_ok_escape: "rest_ok delim s r \<Longrightarrow> rest_ok delim (ESCAPE_META # e # s) r"
  by (auto simp: rest_ok_def split: option.splits)

lemma find_delim_rest: "case find_delim delim q s of None \<Rightarrow> dangling s | Some (t, r) \<Rightarrow> rest_ok delim s r"
proof (induction delim q s rule: find_delim.induct)
  case (2 delim q c s)
  consider (esc) "c = ESCAPE_META" | (quote) "c \<noteq> ESCAPE_META" "c = QUOTE \<and> (q \<or> QUOTE \<in> set s)"
    | (delim) "c \<noteq> ESCAPE_META" "\<not> (c = QUOTE \<and> (q \<or> QUOTE \<in> set s))" "c = delim \<and> \<not> q"
    | (other) "c \<noteq> ESCAPE_META" "\<not> (c = QUOTE \<and> (q \<or> QUOTE \<in> set s))" "\<not> (c = delim \<and> \<not> q)" by blast
  then show ?case
  proof cases
    case esc
    with 2(1) [OF esc] show ?thesis by (cases s) (auto simp: rest_ok_escape split: option.splits)
  next
    case quote
    from 2(2) [OF quote] quote show ?thesis by (auto simp: rest_ok_Cons split: option.splits)
  next
    case delim
    then show ?thesis by (auto simp: rest_ok_def)
  next
    case other
    from 2(3) [OF other] other show ?thesis by (auto simp: rest_ok_Cons split: option.splits)
  qed
qed (simp add: rest_ok_def)

lemma find_blank_rest: "case find_blank q s of None \<Rightarrow> dangling s | Some (t, r, q') \<Rightarrow> rest_ok BLANK s r"
proof (induction q s rule: find_blank.induct)
  case (2 q c s)
  consider (esc) "c = ESCAPE_META" | (quote) "c \<noteq> ESCAPE_META" "c = QUOTE"
    | (delim) "c \<noteq> ESCAPE_META" "c \<noteq> QUOTE" "c = BLANK \<and> \<not> q"
    | (other) "c \<noteq> ESCAPE_META" "c \<noteq> QUOTE" "\<not> (c = BLANK \<and> \<not> q)" by blast
  then show ?case
  proof cases
    case esc
    with 2(1) [OF esc] show ?thesis by (cases s) (auto simp: rest_ok_escape split: option.splits)
  next
    case quote
    from 2(2) [OF quote] quote show ?thesis by (auto simp: rest_ok_Cons split: option.splits)
  next
    case delim
    then show ?thesis by (auto simp: rest_ok_def)
  next
    case other
    from 2(3) [OF other] other show ?thesis by (auto simp: rest_ok_Cons split: option.splits)
  qed
qed (simp add: rest_ok_def)

lemma dangling_blanks: "dangling (dropWhile (\<lambda>c. c = BLANK) s) = dangling s"
  by (induction s) simp_all

text \<open>The array has room for all arguments: more than characters, or two and no delimiter.\<close>

definition roomy :: "char \<Rightarrow> nat \<Rightarrow> string \<Rightarrow> bool" where
  "roomy delim n s \<longleftrightarrow> length s < n \<or> 2 \<le> n \<and> delim \<notin> set s"

text \<open>A loop over the arguments: it fills at most the array, and fails only on a text that dangles, on each that it reads to the end.\<close>

definition loop_ok :: "char \<Rightarrow> nat \<Rightarrow> string \<Rightarrow> string list option \<Rightarrow> bool" where
  "loop_ok delim n s res \<longleftrightarrow>
     (case res of None \<Rightarrow> dangling s | Some ts \<Rightarrow> length ts \<le> n \<and> (roomy delim n s \<longrightarrow> \<not> dangling s))"

lemma loop_ok_next:
  assumes "loop_ok delim n u res" "dangling u = dangling s" "length u < length s" "delim \<in> set s"
  shows "loop_ok delim (Suc n) s (map_option (\<lambda>ts. t # ts) res)"
  using assms by (auto simp: loop_ok_def roomy_def split: option.splits)

lemma char_loop_ok: "loop_ok delim n s (char_loop delim n s)"
proof (induction delim n s rule: char_loop.induct)
  case (2 delim n s)
  note f = find_delim_rest [where delim = delim and q = False and s = s]
  show ?case
  proof (cases "s = [] \<or> n = 0")
    case True
    then show ?thesis by (cases s) (auto simp: loop_ok_def roomy_def)
  next
    case False
    consider "find_delim delim False s = None" | t where "find_delim delim False s = Some (t, None)"
      | t u where "find_delim delim False s = Some (t, Some u)" by (metis not_None_eq surj_pair)
    then show ?thesis
    proof cases
      case (3 t u)
      have "loop_ok delim n u (char_loop delim n u)" using 2 False 3 by auto
      then have "loop_ok delim (Suc n) s (map_option (\<lambda>ts. t # ts) (char_loop delim n u))"
        by (rule loop_ok_next) (use f 3 in \<open>simp_all add: rest_ok_def\<close>)
      then show ?thesis using False 3 by simp
    qed (use False f in \<open>auto simp: loop_ok_def rest_ok_def\<close>)
  qed
qed (simp add: loop_ok_def roomy_def)

lemma blank_loop_ok: "loop_ok BLANK n s (blank_loop n q s)"
proof (induction n q s rule: blank_loop.induct)
  case (2 n q s)
  let ?d = "dropWhile (\<lambda>c. c = BLANK)"
  note f = find_blank_rest [where q = q and s = "?d s"]
  show ?case
  proof (cases "s = [] \<or> n = 0")
    case True
    then show ?thesis by (cases s) (auto simp: loop_ok_def roomy_def)
  next
    case False
    consider "find_blank q (?d s) = None" | t q' where "find_blank q (?d s) = Some (t, None, q')"
      | t u q' where "find_blank q (?d s) = Some (t, Some u, q')" by (metis not_None_eq prod_cases3)
    then show ?thesis
    proof cases
      case (3 t u q')
      have "loop_ok BLANK n (?d u) (blank_loop n q' (?d u))" using 2 False 3 by auto
      moreover have "length (?d u) < length s" "BLANK \<in> set s" "dangling (?d u) = dangling s"
        using f 3 length_dropWhile_le [of "\<lambda>c. c = BLANK" u] length_dropWhile_le [of "\<lambda>c. c = BLANK" s]
        by (auto simp: rest_ok_def dangling_blanks dest: set_dropWhileD)
      ultimately have "loop_ok BLANK (Suc n) s (map_option (\<lambda>ts. (takeWhile (\<lambda>c. c = BLANK) s @ t) # ts) (blank_loop n q' (?d u)))"
        by (intro loop_ok_next)
      then show ?thesis using False 3 by simp
    qed (use False f in \<open>auto simp: loop_ok_def rest_ok_def dangling_blanks\<close>)
  qed
qed (simp add: loop_ok_def roomy_def)

section \<open>Properties\<close>



text \<open>
  C36: \<^verbatim>\<open>switch_separate_string\<close> reads behind the end of its text only if the text, without the delimiter it may bring
  itself, ends in an escape character that is not itself escaped; and on every such text it does, whichever delimiter is
  used, if the array has more places than the text has characters, or two places and there is no delimiter in the
  text.  Otherwise it gives at most as many arguments as the array has room for.\<close>
theorem separate_overreads:
  assumes "pick_delim delim s = (d, t)"
  shows "(switch_separate_string (Some s) delim n = None \<longrightarrow> dangling t) \<and>
    (dangling t \<and> (length t < n \<or> 2 \<le> n \<and> d \<notin> set t) \<longrightarrow> switch_separate_string (Some s) delim n = None) \<and>
    (\<forall>args. switch_separate_string (Some s) delim n = Some args \<longrightarrow> length args \<le> n)"
  using char_loop_ok [of d n t] blank_loop_ok [of n t False] assms
  by (auto simp: switch_separate_string_def separate_string_blank_delim_def separate_string_char_delim_def loop_ok_def roomy_def
      split: option.splits)

theorem separate_overreads_witness:
  "switch_separate_string (Some [CHR ''a'', CHR '','', CHR ''b'', ESCAPE_META]) CHR '','' 5 = None \<and>
   switch_separate_string (Some [CHR ''a'', CHR '','', CHR ''b'', ESCAPE_META, ESCAPE_META]) CHR '','' 5 \<noteq> None \<and>
   switch_separate_string (Some [CARET, CARET, CHR '':'', CHR ''b'', ESCAPE_META]) CHR '','' 2 = None"
  using separate_overreads [of "CHR '',''" "[CHR ''a'', CHR '','', CHR ''b'', ESCAPE_META]" "CHR '',''" _ 5]
    separate_overreads [of "CHR '',''" "[CHR ''a'', CHR '','', CHR ''b'', ESCAPE_META, ESCAPE_META]" "CHR '',''" _ 5]
    separate_overreads [of "CHR '',''" "[CARET, CARET, CHR '':'', CHR ''b'', ESCAPE_META]" "CHR '':''" _ 2]
  by (simp add: pick_delim_def)

text \<open>
  Cleaning up an argument undoes \<^verbatim>\<open>switch_escape_string\<close>, blanks at its ends included, for texts without an escape
  character, a quote or a dollar sign; a dollar sign keeps its escape, because the separation does
  not know that escape.\<close>
theorem escape_roundtrip:
  assumes "ESCAPE_META \<notin> set s" "QUOTE \<notin> set s"
  shows "cleanup_separated_string (switch_escape_string s) NUL =
    concat (map (\<lambda>c. if c = DOLLAR then [ESCAPE_META, DOLLAR] else [c]) s)"
proof -
  let ?f = "\<lambda>c. if c = DOLLAR then [ESCAPE_META, DOLLAR] else [c]"
  have step: "cleanup_loop NUL False (escape_char c @ t) out (length out) = cleanup_loop NUL False t (out @ ?f c) (length (out @ ?f c))"
    if "c \<noteq> ESCAPE_META" "c \<noteq> QUOTE" for c t out
    using that by (simp add: escape_char_def esc_value_def unescape_char_def)
  have "cleanup_loop NUL False (switch_escape_string s) out (length out) = out @ concat (map ?f s)" for out
    using assms
  proof (induction s arbitrary: out)
    case (Cons c s)
    have c: "c \<noteq> ESCAPE_META" "c \<noteq> QUOTE" using Cons.prems by auto
    have "switch_escape_string (c # s) = escape_char c @ switch_escape_string s" by (simp add: switch_escape_string_def)
    then have "cleanup_loop NUL False (switch_escape_string (c # s)) out (length out) =
        cleanup_loop NUL False (switch_escape_string s) (out @ ?f c) (length (out @ ?f c))" by (simp only: step [OF c])
    also have "\<dots> = (out @ ?f c) @ concat (map ?f s)" by (rule Cons.IH) (use Cons.prems in auto)
    finally show ?case by simp
  qed (simp add: switch_escape_string_def)
  from this [of "[]"] have "cleanup_loop NUL False (switch_escape_string s) [] 0 = concat (map ?f s)" by simp
  moreover have "dropWhile (\<lambda>c. c = BLANK) (switch_escape_string s) = switch_escape_string s"
    by (cases s) (auto simp: switch_escape_string_def escape_char_def)
  ultimately show ?thesis by (simp only: cleanup_separated_string_def)
qed

theorem escape_roundtrip_witness: "cleanup_separated_string (switch_escape_string '' a b '') NUL = '' a b ''"
  using escape_roundtrip [of "'' a b ''"] by simp

end
