(* ===== verification/Dtmf.thy ===== *)
theory Dtmf
  imports Queue Separate
begin

text \<open>
  The touch tones of a channel: the functions of \<^verbatim>\<open>src/switch_channel.c\<close> that queue and take digits, the receiving hook of
  \<^verbatim>\<open>src/switch_core_io.c\<close> and the limits of \<^verbatim>\<open>src/switch_core.c\<close>.  The queues are those of the theory \<open>Queue\<close>, used
  through the interface \<open>bounded_fifo\<close>.  Each queued digit is a heap cell; \<open>live\<close> counts the cells
  allocated and not freed.  The dialled-digit machine and the hooks are parameters.  All functions
  of a channel run under its DTMF mutex.
\<close>

unbundle bit_operations_syntax

section \<open>Digits and limits\<close>

datatype switch_dtmf_source =
  SWITCH_DTMF_UNKNOWN | SWITCH_DTMF_INBAND_AUDIO | SWITCH_DTMF_RTP | SWITCH_DTMF_ENDPOINT | SWITCH_DTMF_APP

record switch_dtmf =
  digit :: char
  duration :: nat
  dtmf_flags :: u32
  dtmf_source :: switch_dtmf_source

definition DTMF_FLAG_SKIP_PROCESS :: u32 where "DTMF_FLAG_SKIP_PROCESS = 1"
definition DTMF_FLAG_SENSITIVE :: u32 where "DTMF_FLAG_SENSITIVE = 2"
definition SWITCH_DTMF_LOG_LEN :: nat where "SWITCH_DTMF_LOG_LEN = 1000"
definition SWITCH_MIN_DTMF_DURATION :: nat where "SWITCH_MIN_DTMF_DURATION = 400"
definition SWITCH_MAX_DTMF_DURATION :: nat where "SWITCH_MAX_DTMF_DURATION = 192000"
definition SWITCH_DEFAULT_DTMF_DURATION :: nat where "SWITCH_DEFAULT_DTMF_DURATION = 2000"

definition is_dtmf :: "char \<Rightarrow> bool" where
  "is_dtmf c \<longleftrightarrow> (let key = of_char c :: nat in
     (47 < key \<and> key < 58) \<or> (64 < key \<and> key < 69) \<or> (96 < key \<and> key < 101) \<or>
     key = 35 \<or> key = 42 \<or> key = 87 \<or> key = 119 \<or> key = 70 \<or> key = 102)"

record dtmf_limits =
  max_dtmf_duration :: nat
  default_dtmf_duration :: nat
  min_dtmf_duration :: nat

definition initial_limits :: dtmf_limits where
  "initial_limits = \<lparr>max_dtmf_duration = SWITCH_MAX_DTMF_DURATION, default_dtmf_duration = SWITCH_DEFAULT_DTMF_DURATION,
     min_dtmf_duration = SWITCH_MIN_DTMF_DURATION\<rparr>"

definition limit_duration :: "nat \<Rightarrow> nat" where
  "limit_duration d =
     (let d = (if d > SWITCH_MAX_DTMF_DURATION then SWITCH_MAX_DTMF_DURATION else d)
      in if d < SWITCH_MIN_DTMF_DURATION then SWITCH_MIN_DTMF_DURATION else d)"

definition switch_core_max_dtmf_duration :: "nat \<Rightarrow> dtmf_limits \<Rightarrow> nat \<times> dtmf_limits" where
  "switch_core_max_dtmf_duration d l =
     (let l = (if d \<noteq> 0 then
                 (let d = limit_duration d;
                      l = l\<lparr>max_dtmf_duration := d\<rparr>
                  in if d < min_dtmf_duration l then l\<lparr>min_dtmf_duration := d\<rparr> else l)
               else l)
      in (max_dtmf_duration l, l))"

definition switch_core_default_dtmf_duration :: "nat \<Rightarrow> dtmf_limits \<Rightarrow> nat \<times> dtmf_limits" where
  "switch_core_default_dtmf_duration d l =
     (let l = (if d \<noteq> 0 then
                 (let d = limit_duration d;
                      l = l\<lparr>default_dtmf_duration := d\<rparr>;
                      l = (if d < min_dtmf_duration l then l\<lparr>min_dtmf_duration := d\<rparr> else l)
                  in if d > max_dtmf_duration l then l\<lparr>max_dtmf_duration := d\<rparr> else l)
               else l)
      in (default_dtmf_duration l, l))"

definition switch_core_min_dtmf_duration :: "nat \<Rightarrow> dtmf_limits \<Rightarrow> nat \<times> dtmf_limits" where
  "switch_core_min_dtmf_duration d l =
     (let l = (if d \<noteq> 0 then
                 (let d = limit_duration d;
                      l = l\<lparr>min_dtmf_duration := d\<rparr>
                  in if d > max_dtmf_duration l then l\<lparr>max_dtmf_duration := d\<rparr> else l)
               else l)
      in (min_dtmf_duration l, l))"

text \<open>The test that several functions make on the length of a digit.\<close>

definition bound_duration :: "dtmf_limits \<Rightarrow> switch_dtmf \<Rightarrow> switch_dtmf" where
  "bound_duration l d =
     (if duration d > max_dtmf_duration l then d\<lparr>duration := max_dtmf_duration l\<rparr>
      else if duration d < min_dtmf_duration l then d\<lparr>duration := min_dtmf_duration l\<rparr>
      else d)"

definition default_duration :: "dtmf_limits \<Rightarrow> switch_dtmf \<Rightarrow> switch_dtmf" where
  "default_duration l d = (if duration d = 0 then d\<lparr>duration := default_dtmf_duration l\<rparr> else d)"

definition fit_duration :: "dtmf_limits \<Rightarrow> switch_dtmf \<Rightarrow> switch_dtmf" where
  "fit_duration l d =
     (if duration d > max_dtmf_duration l then d\<lparr>duration := max_dtmf_duration l\<rparr>
      else if duration d < min_dtmf_duration l then d\<lparr>duration := min_dtmf_duration l\<rparr>
      else default_duration l d)"

section \<open>The receiving hooks\<close>

text \<open>
  The session: whether its channel is down, whether it has a machine for dialled digits, and its
  hooks.  The result lists the digits the machine and the hooks were given.
\<close>

record dtmf_session =
  down :: bool
  dmachine :: bool
  recv_hooks :: "(switch_dtmf \<Rightarrow> switch_status) list"

fun run_hooks :: "(switch_dtmf \<Rightarrow> switch_status) list \<Rightarrow> switch_dtmf \<Rightarrow> switch_status \<times> switch_dtmf list" where
  "run_hooks [] d = (SWITCH_STATUS_SUCCESS, [])"
| "run_hooks (h # hs) d =
     (if h d \<noteq> SWITCH_STATUS_SUCCESS then (h d, [d])
      else (let (st, seen) = run_hooks hs d in (st, d # seen)))"

definition switch_core_session_recv_dtmf ::
  "dtmf_limits \<Rightarrow> dtmf_session \<Rightarrow> switch_dtmf \<Rightarrow> switch_status \<times> switch_dtmf list" where
  "switch_core_session_recv_dtmf l ses dtmf =
     (if down ses then (SWITCH_STATUS_FALSE, [])
      else if switch_test_flag (dtmf_flags dtmf) DTMF_FLAG_SENSITIVE then (SWITCH_STATUS_SUCCESS, [])
      else
        (let new_dtmf = fit_duration l dtmf
         in if switch_test_flag (dtmf_flags dtmf) DTMF_FLAG_SKIP_PROCESS then (SWITCH_STATUS_SUCCESS, [])
            else
              (let fed = (if dmachine ses then [dtmf] else []);
                   (st, seen) = run_hooks (recv_hooks ses) new_dtmf
               in (if st \<noteq> SWITCH_STATUS_SUCCESS then st
                   else if dmachine ses then SWITCH_STATUS_FALSE else SWITCH_STATUS_SUCCESS,
                   fed @ seen))))"

section \<open>The channel\<close>

record dtmf_channel =
  dtmf_queue :: "switch_dtmf switch_apr_queue"
  dtmf_log_queue :: "switch_dtmf switch_apr_queue"
  live :: nat
  dtmf_events :: "(char \<times> nat \<times> string) list"

definition dtmf_channel_alloc :: dtmf_channel where
  "dtmf_channel_alloc = \<lparr>dtmf_queue = switch_apr_queue_create SWITCH_DTMF_LOG_LEN,
     dtmf_log_queue = switch_apr_queue_create SWITCH_DTMF_LOG_LEN, live = 0, dtmf_events = []\<rparr>"

definition switch_channel_has_dtmf :: "dtmf_channel \<Rightarrow> nat" where
  "switch_channel_has_dtmf ch = switch_apr_queue_size (dtmf_queue ch)"

text \<open>
  The loop that makes room for the digit: \<open>n\<close> failed attempts are still allowed.  The result says
  whether the digit was stored; a digit that is not is freed.
\<close>

fun push_loop :: "nat \<Rightarrow> switch_dtmf \<Rightarrow> dtmf_channel \<Rightarrow> bool \<times> dtmf_channel" where
  "push_loop n dt ch =
     (case switch_apr_queue_trypush (dtmf_queue ch) dt of (st, q) \<Rightarrow>
        if st = APR_SUCCESS then (True, ch\<lparr>dtmf_queue := q\<rparr>)
        else
          (let ch = (case switch_apr_queue_trypop q of (st', pop, q') \<Rightarrow>
                       if st' = APR_SUCCESS then ch\<lparr>dtmf_queue := q', live := live ch - 1\<rparr> else ch\<lparr>dtmf_queue := q'\<rparr>)
           in case n of 0 \<Rightarrow> (False, ch\<lparr>live := live ch - 1\<rparr>) | Suc m \<Rightarrow> push_loop m dt ch))"

definition queued_dtmf :: "dtmf_limits \<Rightarrow> switch_dtmf \<Rightarrow> switch_dtmf" where
  "queued_dtmf l new_dtmf =
     default_duration l (if digit new_dtmf \<noteq> CHR ''w'' \<and> digit new_dtmf \<noteq> CHR ''W'' then bound_duration l new_dtmf else new_dtmf)"

text \<open>\<open>sensitive\<close> is the value of the channel variable.  The status of the hooks is assigned as the result of a comparison.\<close>

definition switch_channel_queue_dtmf ::
  "dtmf_limits \<Rightarrow> bool \<Rightarrow> dtmf_session \<Rightarrow> switch_dtmf \<Rightarrow> dtmf_channel \<Rightarrow> switch_status \<times> switch_dtmf list \<times> dtmf_channel" where
  "switch_channel_queue_dtmf l sensitive ses dtmf ch =
     (let new_dtmf = (if sensitive then dtmf\<lparr>dtmf_flags := switch_set_flag (dtmf_flags dtmf) DTMF_FLAG_SENSITIVE\<rparr> else dtmf);
          (st, seen) = switch_core_session_recv_dtmf l ses dtmf
      in if st \<noteq> SWITCH_STATUS_SUCCESS then (SWITCH_STATUS_FALSE, seen, ch)
         else if is_dtmf (digit new_dtmf) then
           (let (stored, ch) = push_loop 100 (queued_dtmf l new_dtmf) (ch\<lparr>live := live ch + 1\<rparr>)
            in (if stored then SWITCH_STATUS_SUCCESS else SWITCH_STATUS_FALSE, seen, ch))
         else (SWITCH_STATUS_SUCCESS, seen, ch))"

definition source_str :: "switch_dtmf_source \<Rightarrow> string" where
  "source_str s =
     (case s of SWITCH_DTMF_INBAND_AUDIO \<Rightarrow> ''INBAND_AUDIO'' | SWITCH_DTMF_RTP \<Rightarrow> ''RTP''
      | SWITCH_DTMF_ENDPOINT \<Rightarrow> ''ENDPOINT'' | SWITCH_DTMF_APP \<Rightarrow> ''APP'' | SWITCH_DTMF_UNKNOWN \<Rightarrow> ''UNKNOWN'')"

definition log_or_free :: "switch_dtmf \<Rightarrow> dtmf_channel \<Rightarrow> dtmf_channel" where
  "log_or_free dt ch =
     (case switch_apr_queue_trypush (dtmf_log_queue ch) dt of (st, lq) \<Rightarrow>
        if st = APR_SUCCESS then ch\<lparr>dtmf_log_queue := lq\<rparr> else ch\<lparr>live := live ch - 1\<rparr>)"

definition switch_channel_dequeue_dtmf ::
  "dtmf_limits \<Rightarrow> dtmf_channel \<Rightarrow> switch_status \<times> switch_dtmf option \<times> dtmf_channel" where
  "switch_channel_dequeue_dtmf l ch =
     (case switch_apr_queue_trypop (dtmf_queue ch) of
        (APR_SUCCESS, Some dt, q) \<Rightarrow>
          (let ch = ch\<lparr>dtmf_queue := q\<rparr>;
               sensitive = switch_test_flag (dtmf_flags dt) DTMF_FLAG_SENSITIVE;
               ch = (if sensitive then ch else log_or_free dt ch);
               dtmf = fit_duration l dt;
               ch = (if sensitive then ch
                     else ch\<lparr>dtmf_events := dtmf_events ch @ [(digit dtmf, duration dtmf, source_str (dtmf_source dtmf))]\<rparr>)
           in (SWITCH_STATUS_SUCCESS, Some dtmf, ch))
      | (_, _, q) \<Rightarrow> (SWITCH_STATUS_FALSE, None, ch\<lparr>dtmf_queue := q\<rparr>))"

text \<open>
  Taking digits into a buffer of \<open>len\<close> bytes; \<open>x\<close> digits were written.  \<open>None\<close> is a write
  outside of the buffer.  The first argument bounds the rounds, one more than the digits queued.
\<close>

fun dequeue_loop :: "nat \<Rightarrow> dtmf_limits \<Rightarrow> nat \<Rightarrow> string \<Rightarrow> dtmf_channel \<Rightarrow> (string \<times> dtmf_channel) option" where
  "dequeue_loop 0 l len out ch = None"
| "dequeue_loop (Suc n) l len out ch =
     (if length out < sz_sub len 1 then
        (case switch_channel_dequeue_dtmf l ch of
           (SWITCH_STATUS_SUCCESS, Some d, ch') \<Rightarrow>
             if length out < len then dequeue_loop n l len (out @ [digit d]) ch' else None
         | (_, _, ch') \<Rightarrow> Some (out, ch'))
      else Some (out, ch))"

definition switch_channel_dequeue_dtmf_string :: "dtmf_limits \<Rightarrow> nat \<Rightarrow> dtmf_channel \<Rightarrow> (string \<times> dtmf_channel) option" where
  "switch_channel_dequeue_dtmf_string l len ch = dequeue_loop (Suc (nelts (dtmf_queue ch))) l len [] ch"

text \<open>\<open>hungup\<close> is the test \<^verbatim>\<open>channel->state >= CS_HANGUP\<close>.\<close>

fun flush_loop :: "nat \<Rightarrow> bool \<Rightarrow> dtmf_channel \<Rightarrow> dtmf_channel" where
  "flush_loop 0 hungup ch = ch"
| "flush_loop (Suc n) hungup ch =
     (case switch_apr_queue_trypop (dtmf_queue ch) of
        (APR_SUCCESS, Some dt, q) \<Rightarrow>
          flush_loop n hungup
            (let ch = ch\<lparr>dtmf_queue := q\<rparr> in if hungup then ch\<lparr>live := live ch - 1\<rparr> else log_or_free dt ch)
      | (_, _, q) \<Rightarrow> ch\<lparr>dtmf_queue := q\<rparr>)"

definition switch_channel_flush_dtmf :: "bool \<Rightarrow> dtmf_channel \<Rightarrow> dtmf_channel" where
  "switch_channel_flush_dtmf hungup ch = flush_loop (Suc (nelts (dtmf_queue ch))) hungup ch"

section \<open>Digit strings\<close>

text \<open>
  The loops of \<^verbatim>\<open>switch_channel_queue_dtmf_string\<close>: the digits of one argument, and the arguments.  The counters are the digits sent
  and the characters that are none.
\<close>

fun queue_chars :: "dtmf_limits \<Rightarrow> bool \<Rightarrow> dtmf_session \<Rightarrow> string \<Rightarrow> switch_dtmf \<Rightarrow> nat \<Rightarrow> nat \<Rightarrow> dtmf_channel \<Rightarrow>
    switch_dtmf \<times> nat \<times> nat \<times> dtmf_channel" where
  "queue_chars l sens ses [] dtmf sent bad ch = (dtmf, sent, bad, ch)"
| "queue_chars l sens ses (c # s) dtmf sent bad ch =
     (if is_dtmf c then
        (let dtmf = fit_duration l (dtmf\<lparr>digit := c\<rparr>);
             (st, seen, ch) = switch_channel_queue_dtmf l sens ses dtmf ch
         in queue_chars l sens ses s dtmf (if st = SWITCH_STATUS_SUCCESS then sent + 1 else sent) bad ch)
      else queue_chars l sens ses s dtmf sent (bad + 1) ch)"

text \<open>An argument may carry its duration in milliseconds behind an at sign.\<close>

definition arg_duration :: "dtmf_limits \<Rightarrow> string \<Rightarrow> string \<times> nat" where
  "arg_duration l arg =
     (case split_first ''@'' arg of
        None \<Rightarrow> (arg, default_dtmf_duration l)
      | Some (a, p) \<Rightarrow>
          (a, if atoi p > int (min_dtmf_duration l div 8) then nat (atoi p * 8 mod 2 ^ 32) else default_dtmf_duration l))"

fun queue_args :: "dtmf_limits \<Rightarrow> bool \<Rightarrow> dtmf_session \<Rightarrow> string list \<Rightarrow> switch_dtmf \<Rightarrow> nat \<Rightarrow> nat \<Rightarrow> dtmf_channel \<Rightarrow>
    nat \<times> nat \<times> dtmf_channel" where
  "queue_args l sens ses [] dtmf sent bad ch = (sent, bad, ch)"
| "queue_args l sens ses (arg # args) dtmf sent bad ch =
     (let (a, d) = arg_duration l arg;
          (dtmf, sent, bad, ch) = queue_chars l sens ses a (dtmf\<lparr>duration := d\<rparr>) sent bad ch
      in queue_args l sens ses args dtmf sent bad ch)"

definition switch_channel_queue_dtmf_string ::
  "dtmf_limits \<Rightarrow> bool \<Rightarrow> dtmf_session \<Rightarrow> string option \<Rightarrow> dtmf_channel \<Rightarrow> (switch_status \<times> dtmf_channel) option" where
  "switch_channel_queue_dtmf_string l sens ses str ch =
     (case str of None \<Rightarrow> Some (SWITCH_STATUS_GENERR, ch)
      | Some s \<Rightarrow>
          if s = [] then Some (SWITCH_STATUS_GENERR, ch)
          else
            (let dtmf = \<lparr>digit = NUL, duration = default_dtmf_duration l,
                         dtmf_flags = (if hd s = CHR ''~'' then 0 else DTMF_FLAG_SKIP_PROCESS), dtmf_source = SWITCH_DTMF_APP\<rparr>;
                 s = (if hd s = CHR ''~'' then tl s else s)
             in case switch_separate_string (Some s) CHR ''+'' 256 of
                  None \<Rightarrow> None
                | Some args \<Rightarrow>
                    (let (sent, bad, ch) = queue_args l sens ses args dtmf 0 0 ch
                     in Some (if sent > 0 then SWITCH_STATUS_SUCCESS
                              else if bad > 0 then SWITCH_STATUS_GENERR else SWITCH_STATUS_FALSE, ch))))"

section \<open>The queues of a channel\<close>

definition good :: "'a switch_apr_queue \<Rightarrow> bool" where
  "good q \<longleftrightarrow> (q_inv q \<and> \<not> terminated q) \<and> 0 < bounds q"

definition dtmf_ok :: "dtmf_channel \<Rightarrow> bool" where
  "dtmf_ok ch \<longleftrightarrow> good (dtmf_queue ch) \<and> good (dtmf_log_queue ch) \<and>
     nelts (dtmf_queue ch) + nelts (dtmf_log_queue ch) \<le> live ch"

text \<open>Cells that are neither in a queue nor freed.\<close>

definition leaked :: "dtmf_channel \<Rightarrow> nat" where
  "leaked ch = live ch - (nelts (dtmf_queue ch) + nelts (dtmf_log_queue ch))"

definition queued :: "dtmf_channel \<Rightarrow> switch_dtmf list" where
  "queued ch = contents (dtmf_queue ch)"

definition logged :: "dtmf_channel \<Rightarrow> switch_dtmf list" where
  "logged ch = contents (dtmf_log_queue ch)"

lemma events_irrelevant [simp]: "dtmf_ok (ch\<lparr>dtmf_events := e\<rparr>) = dtmf_ok ch" "leaked (ch\<lparr>dtmf_events := e\<rparr>) = leaked ch"
  "queued (ch\<lparr>dtmf_events := e\<rparr>) = queued ch" "logged (ch\<lparr>dtmf_events := e\<rparr>) = logged ch"
  by (simp_all add: dtmf_ok_def leaked_def queued_def logged_def)

lemma nelts_of: "contents q = xs \<Longrightarrow> nelts q = length xs"
  by (metis ring_length)

lemma push_room:
  assumes "good q" "length (contents q) < bounds q"
  obtains q' where "switch_apr_queue_trypush q x = (APR_SUCCESS, q')" "good q'" "contents q' = contents q @ [x]"
    "bounds q' = bounds q" "nelts q' = Suc (nelts q)"
proof -
  have "\<exists>q'. switch_apr_queue_trypush q x = (APR_SUCCESS, q') \<and> (q_inv q' \<and> \<not> terminated q') \<and> contents q' = contents q @ [x] \<and>
      bounds q' = bounds q" using assms by (intro ring.trypush_stores) (simp_all add: good_def)
  then obtain q' where q: "switch_apr_queue_trypush q x = (APR_SUCCESS, q')" "q_inv q' \<and> \<not> terminated q'" "contents q' = contents q @ [x]"
    "bounds q' = bounds q" by blast
  show ?thesis by (rule that [OF q(1) _ q(3,4)]) (use q(2,4) assms(1) nelts_of [OF q(3)] in \<open>simp_all add: good_def\<close>)
qed

lemma push_full: "good q \<Longrightarrow> \<not> length (contents q) < bounds q \<Longrightarrow> switch_apr_queue_trypush q x = (APR_EAGAIN, q)"
  using ring.trypush_full [of q x] ring.within [of q] unfolding good_def by simp

lemma pop_first:
  assumes "good q" "contents q = x # xs"
  obtains q' where "switch_apr_queue_trypop q = (APR_SUCCESS, Some x, q')" "good q'" "contents q' = xs" "bounds q' = bounds q"
    "nelts q = Suc (nelts q')"
proof -
  have "\<exists>q'. switch_apr_queue_trypop q = (APR_SUCCESS, Some x, q') \<and> (q_inv q' \<and> \<not> terminated q') \<and> contents q' = xs \<and>
      bounds q' = bounds q" using assms by (intro ring.trypop_takes) (simp_all add: good_def)
  with that assms show ?thesis by (auto simp: good_def dest: nelts_of)
qed

lemma pop_none: "good q \<Longrightarrow> contents q = [] \<Longrightarrow> switch_apr_queue_trypop q = (APR_EAGAIN, None, q)"
  using ring.trypop_empty [of q] unfolding good_def by simp

lemma full_contents:
  assumes "good q" "\<not> length (contents q) < bounds q"
  obtains x xs where "contents q = x # xs" "length xs < bounds q"
  using assms ring.within [of q] unfolding good_def by (cases "contents q") auto

declare push_loop.simps [simp del]

lemma push_loop_spec:
  assumes "dtmf_ok ch"
  shows "\<exists>ch'. push_loop (Suc n) dt (ch\<lparr>live := live ch + 1\<rparr>) = (True, ch') \<and> dtmf_ok ch' \<and> leaked ch' = leaked ch \<and>
    queued ch' = (if length (queued ch) < bounds (dtmf_queue ch) then queued ch else tl (queued ch)) @ [dt] \<and>
    bounds (dtmf_queue ch') = bounds (dtmf_queue ch) \<and> dtmf_log_queue ch' = dtmf_log_queue ch \<and> dtmf_events ch' = dtmf_events ch"
proof -
  have g: "good (dtmf_queue ch)" "good (dtmf_log_queue ch)" "nelts (dtmf_queue ch) + nelts (dtmf_log_queue ch) \<le> live ch"
    using assms by (simp_all add: dtmf_ok_def)
  show ?thesis
  proof (cases "length (contents (dtmf_queue ch)) < bounds (dtmf_queue ch)")
    case True
    then obtain q' where q: "switch_apr_queue_trypush (dtmf_queue ch) dt = (APR_SUCCESS, q')" "good q'"
      "contents q' = contents (dtmf_queue ch) @ [dt]" "bounds q' = bounds (dtmf_queue ch)" "nelts q' = Suc (nelts (dtmf_queue ch))"
      using push_room [OF g(1)] by blast
    have "push_loop (Suc n) dt (ch\<lparr>live := live ch + 1\<rparr>) = (True, ch\<lparr>live := live ch + 1, dtmf_queue := q'\<rparr>)"
      using q(1) by (simp add: push_loop.simps)
    then show ?thesis using g True q(2-5) by (simp add: dtmf_ok_def leaked_def queued_def)
  next
    case False
    then obtain x xs where x: "contents (dtmf_queue ch) = x # xs" "length xs < bounds (dtmf_queue ch)"
      using full_contents [OF g(1)] by blast
    obtain q1 where q1: "switch_apr_queue_trypop (dtmf_queue ch) = (APR_SUCCESS, Some x, q1)" "good q1" "contents q1 = xs"
      "bounds q1 = bounds (dtmf_queue ch)" "nelts (dtmf_queue ch) = Suc (nelts q1)" using pop_first [OF g(1) x(1)] by blast
    have "length (contents q1) < bounds q1" using q1(3,4) x(2) by simp
    then obtain q2 where q2: "switch_apr_queue_trypush q1 dt = (APR_SUCCESS, q2)" "good q2" "contents q2 = contents q1 @ [dt]"
      "bounds q2 = bounds q1" "nelts q2 = Suc (nelts q1)" using push_room [OF q1(2)] by blast
    have "push_loop (Suc n) dt (ch\<lparr>live := live ch + 1\<rparr>) = (True, ch\<lparr>live := live ch, dtmf_queue := q2\<rparr>)"
      using push_full [OF g(1) False] q1(1) q2(1) by (simp add: push_loop.simps)
    then show ?thesis
      using g False x(1) q1(3-5) q2(2-5) by (simp add: dtmf_ok_def leaked_def queued_def)
  qed
qed

lemma duration_fields [simp]:
  "digit (fit_duration l d) = digit d" "dtmf_flags (fit_duration l d) = dtmf_flags d"
  "digit (queued_dtmf l d) = digit d" "dtmf_flags (queued_dtmf l d) = dtmf_flags d"
  by (simp_all add: fit_duration_def queued_dtmf_def default_duration_def bound_duration_def)

text \<open>The digit as it is stored.\<close>

definition stored_dtmf :: "dtmf_limits \<Rightarrow> bool \<Rightarrow> switch_dtmf \<Rightarrow> switch_dtmf" where
  "stored_dtmf l sensitive dtmf =
     queued_dtmf l (if sensitive then dtmf\<lparr>dtmf_flags := switch_set_flag (dtmf_flags dtmf) DTMF_FLAG_SENSITIVE\<rparr> else dtmf)"

lemma queue_dtmf_spec:
  assumes "dtmf_ok ch" "switch_core_session_recv_dtmf l ses dtmf = (SWITCH_STATUS_SUCCESS, seen)" "is_dtmf (digit dtmf)"
  shows "\<exists>ch'. switch_channel_queue_dtmf l sensitive ses dtmf ch = (SWITCH_STATUS_SUCCESS, seen, ch') \<and> dtmf_ok ch' \<and>
    leaked ch' = leaked ch \<and>
    queued ch' = (if length (queued ch) < bounds (dtmf_queue ch) then queued ch else tl (queued ch)) @ [stored_dtmf l sensitive dtmf] \<and>
    bounds (dtmf_queue ch') = bounds (dtmf_queue ch) \<and> dtmf_log_queue ch' = dtmf_log_queue ch \<and> dtmf_events ch' = dtmf_events ch"
proof -
  obtain ch' where p: "push_loop (Suc 99) (stored_dtmf l sensitive dtmf) (ch\<lparr>live := live ch + 1\<rparr>) = (True, ch')"
    "dtmf_ok ch' \<and> leaked ch' = leaked ch \<and>
     queued ch' = (if length (queued ch) < bounds (dtmf_queue ch) then queued ch else tl (queued ch)) @ [stored_dtmf l sensitive dtmf] \<and>
     bounds (dtmf_queue ch') = bounds (dtmf_queue ch) \<and> dtmf_log_queue ch' = dtmf_log_queue ch \<and> dtmf_events ch' = dtmf_events ch"
    using push_loop_spec [OF assms(1), of 99 "stored_dtmf l sensitive dtmf"] by blast
  have "switch_channel_queue_dtmf l sensitive ses dtmf ch = (SWITCH_STATUS_SUCCESS, seen, ch')"
    using assms(2,3) p(1) by (cases sensitive) (simp_all add: switch_channel_queue_dtmf_def stored_dtmf_def)
  with p(2) show ?thesis by blast
qed

lemma log_or_free_spec:
  assumes "good (dtmf_queue ch)" "good (dtmf_log_queue ch)" "nelts (dtmf_queue ch) + nelts (dtmf_log_queue ch) < live ch"
  shows "dtmf_ok (log_or_free dt ch) \<and> Suc (leaked (log_or_free dt ch)) = leaked ch \<and>
    dtmf_queue (log_or_free dt ch) = dtmf_queue ch \<and> dtmf_events (log_or_free dt ch) = dtmf_events ch \<and>
    logged (log_or_free dt ch) = (if length (logged ch) < bounds (dtmf_log_queue ch) then logged ch @ [dt] else logged ch) \<and>
    bounds (dtmf_log_queue (log_or_free dt ch)) = bounds (dtmf_log_queue ch)"
proof (cases "length (contents (dtmf_log_queue ch)) < bounds (dtmf_log_queue ch)")
  case True
  obtain q' where "switch_apr_queue_trypush (dtmf_log_queue ch) dt = (APR_SUCCESS, q')" "good q'"
    "contents q' = contents (dtmf_log_queue ch) @ [dt]" "bounds q' = bounds (dtmf_log_queue ch)"
    "nelts q' = Suc (nelts (dtmf_log_queue ch))" using push_room [OF assms(2) True] by blast
  with assms True show ?thesis by (simp add: log_or_free_def dtmf_ok_def leaked_def logged_def)
next
  case False
  with assms push_full [OF assms(2) False, of dt] show ?thesis
    by (auto simp: log_or_free_def dtmf_ok_def leaked_def logged_def)
qed

text \<open>A digit leaves the queue, and its cell is not yet accounted for.\<close>

lemma take_first:
  assumes "dtmf_ok ch" "queued ch = dt # rest"
  obtains q where "switch_apr_queue_trypop (dtmf_queue ch) = (APR_SUCCESS, Some dt, q)"
    "good (dtmf_queue (ch\<lparr>dtmf_queue := q\<rparr>))" "good (dtmf_log_queue (ch\<lparr>dtmf_queue := q\<rparr>))"
    "nelts (dtmf_queue (ch\<lparr>dtmf_queue := q\<rparr>)) + nelts (dtmf_log_queue (ch\<lparr>dtmf_queue := q\<rparr>)) < live (ch\<lparr>dtmf_queue := q\<rparr>)"
    "leaked (ch\<lparr>dtmf_queue := q\<rparr>) = Suc (leaked ch)" "contents q = rest" "bounds q = bounds (dtmf_queue ch)"
proof -
  have g: "good (dtmf_queue ch)" "contents (dtmf_queue ch) = dt # rest" using assms by (simp_all add: dtmf_ok_def queued_def)
  obtain q where q: "switch_apr_queue_trypop (dtmf_queue ch) = (APR_SUCCESS, Some dt, q)" "good q" "contents q = rest"
    "bounds q = bounds (dtmf_queue ch)" "nelts (dtmf_queue ch) = Suc (nelts q)" using pop_first [OF g] by blast
  show ?thesis
    by (rule that [OF q(1) _ _ _ _ q(3,4)]) (use assms(1) q(2,5) in \<open>auto simp: dtmf_ok_def leaked_def\<close>)
qed

lemma dequeue_spec:
  assumes "dtmf_ok ch" "queued ch = dt # rest"
  shows "\<exists>ch'. switch_channel_dequeue_dtmf l ch = (SWITCH_STATUS_SUCCESS, Some (fit_duration l dt), ch') \<and> dtmf_ok ch' \<and>
    queued ch' = rest \<and> bounds (dtmf_queue ch') = bounds (dtmf_queue ch) \<and>
    (if switch_test_flag (dtmf_flags dt) DTMF_FLAG_SENSITIVE
     then logged ch' = logged ch \<and> dtmf_events ch' = dtmf_events ch \<and> leaked ch' = Suc (leaked ch)
     else leaked ch' = leaked ch \<and>
       dtmf_events ch' = dtmf_events ch @
         [(digit dt, duration (fit_duration l dt), source_str (dtmf_source (fit_duration l dt)))])"
proof -
  obtain q where q: "switch_apr_queue_trypop (dtmf_queue ch) = (APR_SUCCESS, Some dt, q)"
    "good (dtmf_queue (ch\<lparr>dtmf_queue := q\<rparr>))" "good (dtmf_log_queue (ch\<lparr>dtmf_queue := q\<rparr>))"
    "nelts (dtmf_queue (ch\<lparr>dtmf_queue := q\<rparr>)) + nelts (dtmf_log_queue (ch\<lparr>dtmf_queue := q\<rparr>)) < live (ch\<lparr>dtmf_queue := q\<rparr>)"
    "leaked (ch\<lparr>dtmf_queue := q\<rparr>) = Suc (leaked ch)" "contents q = rest" "bounds q = bounds (dtmf_queue ch)"
    using take_first [OF assms] by blast
  note lf = log_or_free_spec [OF q(2-4), of dt]
  show ?thesis
  proof (cases "switch_test_flag (dtmf_flags dt) DTMF_FLAG_SENSITIVE")
    case True
    then have "switch_channel_dequeue_dtmf l ch = (SWITCH_STATUS_SUCCESS, Some (fit_duration l dt), ch\<lparr>dtmf_queue := q\<rparr>)"
      using q(1) by (simp add: switch_channel_dequeue_dtmf_def)
    then show ?thesis using True q by (simp add: dtmf_ok_def queued_def logged_def)
  next
    case False
    then have "switch_channel_dequeue_dtmf l ch = (SWITCH_STATUS_SUCCESS, Some (fit_duration l dt),
      (log_or_free dt (ch\<lparr>dtmf_queue := q\<rparr>))\<lparr>dtmf_events := dtmf_events (log_or_free dt (ch\<lparr>dtmf_queue := q\<rparr>)) @
        [(digit (fit_duration l dt), duration (fit_duration l dt), source_str (dtmf_source (fit_duration l dt)))]\<rparr>)"
      using q(1) by (simp add: switch_channel_dequeue_dtmf_def Let_def)
    then show ?thesis using False q(5-7) lf by (auto simp: queued_def)
  qed
qed

lemma dequeue_empty: "dtmf_ok ch \<Longrightarrow> queued ch = [] \<Longrightarrow> switch_channel_dequeue_dtmf l ch = (SWITCH_STATUS_FALSE, None, ch)"
  using pop_none [of "dtmf_queue ch"] by (simp add: dtmf_ok_def queued_def switch_channel_dequeue_dtmf_def)

section \<open>Strings of digits\<close>

lemma digit_plain:
  assumes "is_dtmf c"
  shows "c \<noteq> ESCAPE_META" "c \<noteq> QUOTE" "c \<noteq> BLANK" "c \<noteq> CHR ''+''" "c \<noteq> CHR ''@''" "c \<noteq> CHR ''~''" "c \<noteq> CARET"
  using assms by (auto simp: is_dtmf_def)

lemma separate_digits:
  assumes "\<forall>c \<in> set s. is_dtmf c" "s \<noteq> []"
  shows "switch_separate_string (Some s) CHR ''+'' 256 = Some [s]"
proof -
  have d: "usable_delim CHR ''+''" by (simp add: usable_delim_def)
  have e: "enc_arg CHR ''+'' s = s" using assms(1) digit_plain by (induction s) (auto simp: enc_char_def)
  have p: "pick_delim CHR ''+'' s = (CHR ''+'', s)" using assms digit_plain(7) by (auto simp: pick_delim_def split: list.splits)
  have "char_loop CHR ''+'' 256 s = Some [s]"
    using char_loop_enc [OF d, of "[s]" 256] assms(2) e by (simp add: join_def)
  moreover have "cleanup_separated_string s CHR ''+'' = s" using cleanup_enc_arg [OF d, of s] e by simp
  ultimately show ?thesis by (simp add: switch_separate_string_def p separate_string_char_delim_def)
qed

lemma no_at: "\<forall>c \<in> set s. is_dtmf c \<Longrightarrow> split_first ''@'' s = None"
  using digit_plain(5) by (induction s) (auto simp: prefix_def)

lemma queue_chars_spec:
  assumes "dtmf_ok ch" "\<forall>c \<in> set s. is_dtmf c" "\<not> down ses" "switch_test_flag (dtmf_flags dtmf) DTMF_FLAG_SKIP_PROCESS"
    "\<not> switch_test_flag (dtmf_flags dtmf) DTMF_FLAG_SENSITIVE" "length (queued ch) + length s \<le> bounds (dtmf_queue ch)"
  shows "\<exists>dtmf' ch' ds. queue_chars l False ses s dtmf sent bad ch = (dtmf', sent + length s, bad, ch') \<and> dtmf_ok ch' \<and>
    queued ch' = queued ch @ ds \<and> map digit ds = s \<and>
    (\<forall>d \<in> set ds. \<not> switch_test_flag (dtmf_flags d) DTMF_FLAG_SENSITIVE) \<and> dtmf_events ch' = dtmf_events ch \<and> leaked ch' = leaked ch"
  using assms
proof (induction s arbitrary: dtmf sent ch)
  case (Cons c s)
  let ?d = "fit_duration l (dtmf\<lparr>digit := c\<rparr>)"
  have "switch_core_session_recv_dtmf l ses ?d = (SWITCH_STATUS_SUCCESS, [])"
    using Cons.prems(3,4,5) by (simp add: switch_core_session_recv_dtmf_def Let_def)
  then obtain ch1 where q: "switch_channel_queue_dtmf l False ses ?d ch = (SWITCH_STATUS_SUCCESS, [], ch1)" "dtmf_ok ch1"
    "leaked ch1 = leaked ch" "queued ch1 = queued ch @ [stored_dtmf l False ?d]" "bounds (dtmf_queue ch1) = bounds (dtmf_queue ch)"
    "dtmf_events ch1 = dtmf_events ch"
    using queue_dtmf_spec [OF Cons.prems(1), of l ses ?d "[]" False] Cons.prems(2,6) by auto
  have "\<exists>dtmf' ch' ds. queue_chars l False ses s ?d (sent + 1) bad ch1 = (dtmf', sent + 1 + length s, bad, ch') \<and> dtmf_ok ch' \<and>
    queued ch' = queued ch1 @ ds \<and> map digit ds = s \<and>
    (\<forall>d \<in> set ds. \<not> switch_test_flag (dtmf_flags d) DTMF_FLAG_SENSITIVE) \<and> dtmf_events ch' = dtmf_events ch1 \<and> leaked ch' = leaked ch1"
    by (rule Cons.IH [OF q(2)]) (use Cons.prems q(4,5) in auto)
  then obtain dtmf' ch' ds where r: "queue_chars l False ses s ?d (sent + 1) bad ch1 = (dtmf', sent + 1 + length s, bad, ch')"
    "dtmf_ok ch'" "queued ch' = queued ch1 @ ds" "map digit ds = s" "dtmf_events ch' = dtmf_events ch1" "leaked ch' = leaked ch1"
    "\<forall>d \<in> set ds. \<not> switch_test_flag (dtmf_flags d) DTMF_FLAG_SENSITIVE" by blast
  show ?case
    by (rule exI [of _ dtmf'], rule exI [of _ ch'], rule exI [of _ "stored_dtmf l False ?d # ds"])
      (use q r Cons.prems(2,5) in \<open>simp add: Let_def stored_dtmf_def\<close>)
next
  case Nil
  then show ?case by (intro exI [of _ dtmf] exI [of _ ch] exI [of _ "[]"]) simp
qed

lemma dequeue_loop_spec:
  assumes "dtmf_ok ch" "length (queued ch) < n" "length out + length (queued ch) < len" "len < 2 ^ 64"
    "\<forall>d \<in> set (queued ch). \<not> switch_test_flag (dtmf_flags d) DTMF_FLAG_SENSITIVE"
  shows "\<exists>ch'. dequeue_loop n l len out ch = Some (out @ map digit (queued ch), ch') \<and> queued ch' = [] \<and>
    map fst (dtmf_events ch') = map fst (dtmf_events ch) @ map digit (queued ch) \<and> leaked ch' = leaked ch"
  using assms
proof (induction n arbitrary: out ch)
  case (Suc n)
  have len: "sz_sub len 1 = len - 1" using Suc.prems(3,4) by (intro sz_sub_exact) simp_all
  show ?case
  proof (cases "queued ch")
    case Nil
    then show ?thesis using Suc.prems dequeue_empty [OF Suc.prems(1) Nil, of l] len by auto
  next
    case (Cons dt rest)
    obtain ch1 where d: "switch_channel_dequeue_dtmf l ch = (SWITCH_STATUS_SUCCESS, Some (fit_duration l dt), ch1)" "dtmf_ok ch1"
      "queued ch1 = rest" "leaked ch1 = leaked ch"
      "dtmf_events ch1 = dtmf_events ch @ [(digit dt, duration (fit_duration l dt), source_str (dtmf_source (fit_duration l dt)))]"
      using dequeue_spec [OF Suc.prems(1) Cons, of l] Suc.prems(5) Cons by auto
    have "\<exists>ch'. dequeue_loop n l len (out @ [digit dt]) ch1 = Some ((out @ [digit dt]) @ map digit (queued ch1), ch') \<and> queued ch' = [] \<and>
      map fst (dtmf_events ch') = map fst (dtmf_events ch1) @ map digit (queued ch1) \<and> leaked ch' = leaked ch1"
      by (rule Suc.IH [OF d(2)]) (use Suc.prems Cons d(3) in auto)
    then show ?thesis using d Cons len Suc.prems(3) by auto
  qed
qed simp

section \<open>Limits\<close>

definition limits_ok :: "dtmf_limits \<Rightarrow> bool" where
  "limits_ok l \<longleftrightarrow> SWITCH_MIN_DTMF_DURATION \<le> min_dtmf_duration l \<and> min_dtmf_duration l \<le> max_dtmf_duration l \<and>
     max_dtmf_duration l \<le> SWITCH_MAX_DTMF_DURATION"

lemma limit_range: "SWITCH_MIN_DTMF_DURATION \<le> limit_duration d" "limit_duration d \<le> SWITCH_MAX_DTMF_DURATION"
  by (simp_all add: limit_duration_def Let_def SWITCH_MIN_DTMF_DURATION_def SWITCH_MAX_DTMF_DURATION_def)

text \<open>Whatever the configuration sets, the limits stay ordered and within the fixed bounds.\<close>

lemma limits_kept:
  assumes "limits_ok l"
  shows "limits_ok (snd (switch_core_max_dtmf_duration d l))" "limits_ok (snd (switch_core_default_dtmf_duration d l))"
    "limits_ok (snd (switch_core_min_dtmf_duration d l))"
  using assms limit_range [of d]
  by (auto simp: limits_ok_def switch_core_max_dtmf_duration_def switch_core_default_dtmf_duration_def
      switch_core_min_dtmf_duration_def Let_def)

section \<open>Properties\<close>

text \<open>
  C32: A digit that the hooks let pass is always stored, at the end of the queue, and only when the queue is
  full is the oldest digit given up for it.  Its duration is brought between the limits unless it is a
  pause, and no heap cell is lost or freed twice.\<close>
theorem dtmf_queue_newest:
  assumes "dtmf_ok ch" "switch_core_session_recv_dtmf l ses dtmf = (SWITCH_STATUS_SUCCESS, seen)" "is_dtmf (digit dtmf)"
  shows "\<exists>d ch'. switch_channel_queue_dtmf l sensitive ses dtmf ch = (SWITCH_STATUS_SUCCESS, seen, ch') \<and> dtmf_ok ch' \<and>
    queued ch' = (if length (queued ch) < bounds (dtmf_queue ch) then queued ch else tl (queued ch)) @ [d] \<and>
    digit d = digit dtmf \<and> leaked ch' = leaked ch \<and> logged ch' = logged ch \<and>
    (limits_ok l \<longrightarrow> digit d \<noteq> CHR ''w'' \<longrightarrow> digit d \<noteq> CHR ''W'' \<longrightarrow>
       min_dtmf_duration l \<le> duration d \<and> duration d \<le> max_dtmf_duration l)"
proof -
  obtain ch' where q: "switch_channel_queue_dtmf l sensitive ses dtmf ch = (SWITCH_STATUS_SUCCESS, seen, ch')" "dtmf_ok ch'"
    "leaked ch' = leaked ch" "dtmf_log_queue ch' = dtmf_log_queue ch"
    "queued ch' = (if length (queued ch) < bounds (dtmf_queue ch) then queued ch else tl (queued ch)) @ [stored_dtmf l sensitive dtmf]"
    using queue_dtmf_spec [OF assms, of sensitive] by blast
  have "digit (stored_dtmf l sensitive dtmf) = digit dtmf" by (simp add: stored_dtmf_def)
  moreover have "min_dtmf_duration l \<le> duration (stored_dtmf l sensitive dtmf) \<and> duration (stored_dtmf l sensitive dtmf) \<le> max_dtmf_duration l"
    if "limits_ok l" "digit dtmf \<noteq> CHR ''w''" "digit dtmf \<noteq> CHR ''W''"
    using that by (auto simp: stored_dtmf_def queued_dtmf_def default_duration_def bound_duration_def limits_ok_def SWITCH_MIN_DTMF_DURATION_def)
  ultimately show ?thesis using q by (intro exI [of _ "stored_dtmf l sensitive dtmf"] exI [of _ ch']) (simp add: logged_def)
qed

lemma new_channel_ok: "dtmf_ok dtmf_channel_alloc" "queued dtmf_channel_alloc = []" "bounds (dtmf_queue dtmf_channel_alloc) = 1000"
  "dtmf_events dtmf_channel_alloc = []" "leaked dtmf_channel_alloc = 0"
  using create_queue [of SWITCH_DTMF_LOG_LEN] nelts_of [OF create_queue(2), of SWITCH_DTMF_LOG_LEN]
  by (simp_all add: dtmf_ok_def good_def dtmf_channel_alloc_def queued_def leaked_def SWITCH_DTMF_LOG_LEN_def switch_apr_queue_create_def)

lemma initial_limits_ok: "limits_ok initial_limits"
  by (simp add: limits_ok_def initial_limits_def SWITCH_MIN_DTMF_DURATION_def SWITCH_MAX_DTMF_DURATION_def SWITCH_DEFAULT_DTMF_DURATION_def)

theorem dtmf_queue_newest_witness:
  "\<exists>d ch'. switch_channel_queue_dtmf initial_limits False \<lparr>down = False, dmachine = False, recv_hooks = []\<rparr>
      \<lparr>digit = CHR ''5'', duration = 1, dtmf_flags = 0, dtmf_source = SWITCH_DTMF_RTP\<rparr> dtmf_channel_alloc =
        (SWITCH_STATUS_SUCCESS, [], ch') \<and> queued ch' = [d] \<and> 400 \<le> duration d"
proof -
  let ?d = "\<lparr>digit = CHR ''5'', duration = 1, dtmf_flags = 0, dtmf_source = SWITCH_DTMF_RTP\<rparr>"
  let ?s = "\<lparr>down = False, dmachine = False, recv_hooks = []\<rparr>"
  have "switch_core_session_recv_dtmf initial_limits ?s ?d = (SWITCH_STATUS_SUCCESS, [])"
    by (simp add: switch_core_session_recv_dtmf_def switch_test_flag_def)
  moreover have "is_dtmf (digit ?d)" by (simp add: is_dtmf_def)
  ultimately show ?thesis
    using dtmf_queue_newest [OF new_channel_ok(1), of initial_limits ?s ?d "[]" False] new_channel_ok(2,3) initial_limits_ok
    by (fastforce simp: initial_limits_def SWITCH_MIN_DTMF_DURATION_def)
qed

text \<open>
  C19: A string of digits that is queued into an empty queue it fits in is taken out again as the same string: the
  separation at plus signs, the queueing, the ring and the taking compose to the identity, one
  event is fired for each digit, and no heap cell is lost.\<close>
theorem dtmf_string_roundtrip:
  assumes "dtmf_ok ch" "queued ch = []" "s \<noteq> []" "\<forall>c. c \<in> set s \<longrightarrow> is_dtmf c" "length s \<le> bounds (dtmf_queue ch)" "\<not> down ses"
    "length s < len" "len < 2 ^ 64"
  shows "\<exists>ch' ch''. switch_channel_queue_dtmf_string l False ses (Some s) ch = Some (SWITCH_STATUS_SUCCESS, ch') \<and>
    switch_channel_has_dtmf ch' = length s \<and> switch_channel_dequeue_dtmf_string l len ch' = Some (s, ch'') \<and> queued ch'' = [] \<and>
    map fst (dtmf_events ch'') = map fst (dtmf_events ch) @ s \<and> leaked ch'' = leaked ch"
proof -
  have ds: "\<forall>c \<in> set s. is_dtmf c" using assms(4) by blast
  let ?d = "\<lparr>digit = NUL, duration = default_dtmf_duration l, dtmf_flags = DTMF_FLAG_SKIP_PROCESS, dtmf_source = SWITCH_DTMF_APP\<rparr>"
  have fl: "switch_test_flag (dtmf_flags ?d) DTMF_FLAG_SKIP_PROCESS" "\<not> switch_test_flag (dtmf_flags ?d) DTMF_FLAG_SENSITIVE"
    by (simp_all add: switch_test_flag_def DTMF_FLAG_SKIP_PROCESS_def DTMF_FLAG_SENSITIVE_def)
  obtain d' ch' q where c: "queue_chars l False ses s ?d 0 0 ch = (d', length s, 0, ch')" "dtmf_ok ch'" "queued ch' = q" "map digit q = s"
    "\<forall>d \<in> set q. \<not> switch_test_flag (dtmf_flags d) DTMF_FLAG_SENSITIVE" "dtmf_events ch' = dtmf_events ch" "leaked ch' = leaked ch"
    using queue_chars_spec [OF assms(1) ds assms(6) fl, of l 0 0] assms(2,5) by auto
  have "hd s \<noteq> CHR ''~''" using ds assms(3) digit_plain(6) by (cases s) auto
  then have r: "switch_channel_queue_dtmf_string l False ses (Some s) ch = Some (SWITCH_STATUS_SUCCESS, ch')"
    using assms(3) separate_digits [OF ds assms(3)] no_at [OF ds] c(1)
    by (simp add: switch_channel_queue_dtmf_string_def arg_duration_def)
  have len: "nelts (dtmf_queue ch') = length s" using nelts_of [of "dtmf_queue ch'" q] c(3,4) by (auto simp: queued_def)
  obtain ch'' where "dequeue_loop (Suc (nelts (dtmf_queue ch'))) l len [] ch' = Some (s, ch'')" "queued ch'' = []"
    "map fst (dtmf_events ch'') = map fst (dtmf_events ch') @ s" "leaked ch'' = leaked ch'"
    using dequeue_loop_spec [OF c(2), of "Suc (nelts (dtmf_queue ch'))" "[]" len l] c(3-5) assms(7,8) len by auto
  then show ?thesis
    using r len c(6,7) by (simp add: switch_channel_dequeue_dtmf_string_def switch_channel_has_dtmf_def switch_apr_queue_size_def del: dequeue_loop.simps)
qed

theorem dtmf_string_roundtrip_witness:
  "\<exists>ch' ch''. switch_channel_queue_dtmf_string initial_limits False \<lparr>down = False, dmachine = True, recv_hooks = []\<rparr>
      (Some ''12*#'') dtmf_channel_alloc = Some (SWITCH_STATUS_SUCCESS, ch') \<and>
    switch_channel_dequeue_dtmf_string initial_limits 16 ch' = Some (''12*#'', ch'') \<and> leaked ch'' = 0"
  using dtmf_string_roundtrip [OF new_channel_ok(1,2), of "''12*#''" "\<lparr>down = False, dmachine = True, recv_hooks = []\<rparr>" 16 initial_limits]
    new_channel_ok(3,5) by (auto simp: is_dtmf_def)

text \<open>
  The memory of a digit marked sensitive is lost: taking it out of the queue neither logs nor frees
  its cell.  Flushing the queue, on the other hand, puts the sensitive digit into the log it was meant
  to be kept from.\<close>
theorem dtmf_sensitive_cell:
  assumes "dtmf_ok ch" "queued ch = [dt]" "switch_test_flag (dtmf_flags dt) DTMF_FLAG_SENSITIVE"
  shows "(\<exists>ch'. switch_channel_dequeue_dtmf l ch = (SWITCH_STATUS_SUCCESS, Some (fit_duration l dt), ch') \<and>
      queued ch' = [] \<and> logged ch' = logged ch \<and> leaked ch' = Suc (leaked ch)) \<and>
    (length (logged ch) < bounds (dtmf_log_queue ch) \<longrightarrow>
      logged (switch_channel_flush_dtmf False ch) = logged ch @ [dt])"
proof -
  obtain q where q: "switch_apr_queue_trypop (dtmf_queue ch) = (APR_SUCCESS, Some dt, q)"
    "good (dtmf_queue (ch\<lparr>dtmf_queue := q\<rparr>))" "good (dtmf_log_queue (ch\<lparr>dtmf_queue := q\<rparr>))"
    "nelts (dtmf_queue (ch\<lparr>dtmf_queue := q\<rparr>)) + nelts (dtmf_log_queue (ch\<lparr>dtmf_queue := q\<rparr>)) < live (ch\<lparr>dtmf_queue := q\<rparr>)"
    "contents q = []" using take_first [OF assms(1,2)] by blast
  note lf = log_or_free_spec [OF q(2-4), of dt]
  have "nelts (dtmf_queue ch) = Suc 0" using nelts_of [of "dtmf_queue ch" "[dt]"] assms(2) by (simp add: queued_def)
  then have "logged (switch_channel_flush_dtmf False ch) = logged (log_or_free dt (ch\<lparr>dtmf_queue := q\<rparr>))"
    using q(1,2,5) lf pop_none [of q] by (simp add: switch_channel_flush_dtmf_def logged_def)
  then show ?thesis using lf dequeue_spec [OF assms(1,2), of l] assms(3) by (auto simp: logged_def)
qed

theorem dtmf_sensitive_cell_witness:
  "\<exists>ch dt ch'. queued ch = [dt] \<and> digit dt = CHR ''9'' \<and>
     switch_channel_dequeue_dtmf initial_limits ch = (SWITCH_STATUS_SUCCESS, Some (fit_duration initial_limits dt), ch') \<and> leaked ch' = 1"
proof -
  let ?d = "\<lparr>digit = CHR ''9'', duration = 800, dtmf_flags = 0, dtmf_source = SWITCH_DTMF_RTP\<rparr>"
  let ?dt = "stored_dtmf initial_limits True ?d"
  have f: "switch_test_flag (dtmf_flags ?dt) DTMF_FLAG_SENSITIVE"
    by (simp add: stored_dtmf_def switch_test_flag_def switch_set_flag_def DTMF_FLAG_SENSITIVE_def)
  have dg: "digit ?dt = CHR ''9''" by (simp add: stored_dtmf_def)
  obtain ch where ch: "dtmf_ok ch" "queued ch = [?dt]" "leaked ch = 0"
    using push_loop_spec [OF new_channel_ok(1), of 99 ?dt] new_channel_ok(2,3,5) by auto
  with dtmf_sensitive_cell [OF ch(1,2) f, of initial_limits] dg show ?thesis by auto
qed

text \<open>
  A channel variable that makes the digits of a call sensitive does not keep them from the receiving
  hooks: the mark is set on the copy that is queued and not on the digit the hooks are given.\<close>
theorem dtmf_sensitive_hooks:
  assumes "\<not> down ses" "recv_hooks ses = h # hs" "dtmf_flags dtmf = 0"
  shows "\<exists>st seen ch' d. switch_channel_queue_dtmf l True ses dtmf ch = (st, seen, ch') \<and> d \<in> set seen \<and> digit d = digit dtmf"
proof -
  obtain st seen where r: "switch_core_session_recv_dtmf l ses dtmf = (st, seen)" by fastforce
  have "fit_duration l dtmf \<in> set seen"
    using r assms
    by (auto simp: switch_core_session_recv_dtmf_def Let_def switch_test_flag_def split: prod.splits if_splits)
  then have "\<exists>st seen' ch'. switch_channel_queue_dtmf l True ses dtmf ch = (st, seen', ch') \<and> fit_duration l dtmf \<in> set seen'"
    using r by (auto simp: switch_channel_queue_dtmf_def Let_def split: prod.splits)
  then show ?thesis using duration_fields(1) [of l dtmf] by blast
qed

theorem dtmf_sensitive_hooks_witness:
  "\<exists>st seen ch' d. switch_channel_queue_dtmf initial_limits True
       \<lparr>down = False, dmachine = False, recv_hooks = [\<lambda>d. SWITCH_STATUS_SUCCESS]\<rparr>
       \<lparr>digit = CHR ''9'', duration = 800, dtmf_flags = 0, dtmf_source = SWITCH_DTMF_RTP\<rparr> dtmf_channel_alloc =
       (st, seen, ch') \<and> d \<in> set seen \<and> digit d = CHR ''9''"
  using dtmf_sensitive_hooks [of "\<lparr>down = False, dmachine = False, recv_hooks = [\<lambda>d. SWITCH_STATUS_SUCCESS]\<rparr>"
      "\<lambda>d. SWITCH_STATUS_SUCCESS" "[]" "\<lparr>digit = CHR ''9'', duration = 800, dtmf_flags = 0, dtmf_source = SWITCH_DTMF_RTP\<rparr>"
      initial_limits dtmf_channel_alloc] by simp

end
