(* ===== verification/Channel.thy ===== *)
theory Channel
  imports Cstring
begin

text \<open>
  The state of a channel, \<^verbatim>\<open>src/switch_channel.c\<close>: the call state, the flags, the state machine's state, hanging up,
  ringing and answering, and the table of state handlers.  What a function does outside of the
  channel (events, signals to the session, channel variables) is recorded in order as a list of effects.
  The clock and the variables that are read are parameters, and so is the code that a channel function calls and
  that may call back into the channel: the session that receives a message, the
  applications and commands started by a variable, and the hangup handlers.  \<open>None\<close> is a failed assertion or
  an access outside of an array.  The channel is taken to have a caller profile.
\<close>

unbundle bit_operations_syntax

section \<open>States and flags\<close>

datatype channel_state =
    CS_NEW | CS_INIT | CS_ROUTING | CS_SOFT_EXECUTE | CS_EXECUTE | CS_EXCHANGE_MEDIA | CS_PARK | CS_CONSUME_MEDIA
  | CS_HIBERNATE | CS_RESET | CS_HANGUP | CS_REPORTING | CS_DESTROY | CS_NONE

definition all_states :: "channel_state list" where
  "all_states = [CS_NEW, CS_INIT, CS_ROUTING, CS_SOFT_EXECUTE, CS_EXECUTE, CS_EXCHANGE_MEDIA, CS_PARK, CS_CONSUME_MEDIA,
     CS_HIBERNATE, CS_RESET, CS_HANGUP, CS_REPORTING, CS_DESTROY, CS_NONE]"

text \<open>States are compared by their number.\<close>

fun state_number :: "channel_state \<Rightarrow> nat" where
  "state_number CS_NEW = 0"
| "state_number CS_INIT = 1"
| "state_number CS_ROUTING = 2"
| "state_number CS_SOFT_EXECUTE = 3"
| "state_number CS_EXECUTE = 4"
| "state_number CS_EXCHANGE_MEDIA = 5"
| "state_number CS_PARK = 6"
| "state_number CS_CONSUME_MEDIA = 7"
| "state_number CS_HIBERNATE = 8"
| "state_number CS_RESET = 9"
| "state_number CS_HANGUP = 10"
| "state_number CS_REPORTING = 11"
| "state_number CS_DESTROY = 12"
| "state_number CS_NONE = 13"

instantiation channel_state :: linorder
begin

definition less_eq_channel_state :: "channel_state \<Rightarrow> channel_state \<Rightarrow> bool" where
  "less_eq_channel_state a b \<longleftrightarrow> state_number a \<le> state_number b"

definition less_channel_state :: "channel_state \<Rightarrow> channel_state \<Rightarrow> bool" where
  "less_channel_state a b \<longleftrightarrow> state_number a < state_number b"

instance
proof
  fix x y :: channel_state
  show "x \<le> y \<Longrightarrow> y \<le> x \<Longrightarrow> x = y" by (cases x; cases y) (simp_all add: less_eq_channel_state_def)
qed (auto simp: less_eq_channel_state_def less_channel_state_def)

end

datatype channel_callstate =
  CCS_DOWN | CCS_DIALING | CCS_RINGING | CCS_EARLY | CCS_ACTIVE | CCS_HELD | CCS_RING_WAIT | CCS_HANGUP | CCS_UNHELD

datatype call_direction = SWITCH_CALL_DIRECTION_INBOUND | SWITCH_CALL_DIRECTION_OUTBOUND

type_synonym flag = nat

definition CF_ANSWERED :: flag where "CF_ANSWERED = 1"
definition CF_OUTBOUND :: flag where "CF_OUTBOUND = 2"
definition CF_EARLY_MEDIA :: flag where "CF_EARLY_MEDIA = 3"
definition CF_BRIDGE_ORIGINATOR :: flag where "CF_BRIDGE_ORIGINATOR = 4"
definition CF_TRANSFER :: flag where "CF_TRANSFER = 6"
definition CF_BRIDGED :: flag where "CF_BRIDGED = 9"
definition CF_TAGGED :: flag where "CF_TAGGED = 13"
definition CF_PROXY_MODE :: flag where "CF_PROXY_MODE = 17"
definition CF_PROXY_OFF :: flag where "CF_PROXY_OFF = 18"
definition CF_RING_READY :: flag where "CF_RING_READY = 22"
definition CF_VIDEO :: flag where "CF_VIDEO = 26"
definition CF_BLOCK_STATE :: flag where "CF_BLOCK_STATE = 38"
definition CF_ORIGINATOR :: flag where "CF_ORIGINATOR = 43"
definition CF_NOT_READY :: flag where "CF_NOT_READY = 48"
definition CF_LEG_HOLDING :: flag where "CF_LEG_HOLDING = 52"
definition CF_RECOVERED :: flag where "CF_RECOVERED = 59"
definition CF_DIALPLAN :: flag where "CF_DIALPLAN = 62"
definition CF_CONFIRM_BLIND_TRANSFER :: flag where "CF_CONFIRM_BLIND_TRANSFER = 82"
definition CF_RECOVERING :: flag where "CF_RECOVERING = 86"
definition CF_VIDEO_PASSIVE :: flag where "CF_VIDEO_PASSIVE = 116"
definition CF_VIDEO_ECHO :: flag where "CF_VIDEO_ECHO = 119"
definition CF_VIDEO_BLANK :: flag where "CF_VIDEO_BLANK = 120"
definition CF_VIDEO_BREAK :: flag where "CF_VIDEO_BREAK = 123"
definition CF_HANGUP_HELD :: flag where "CF_HANGUP_HELD = 129"
definition CF_VIDEO_DECODED_READ :: flag where "CF_VIDEO_DECODED_READ = 131"
definition CF_NO_RECOVER :: flag where "CF_NO_RECOVER = 134"
definition CF_VIDEO_READY :: flag where "CF_VIDEO_READY = 135"
definition CF_VIDEO_MIRROR_INPUT :: flag where "CF_VIDEO_MIRROR_INPUT = 136"
definition CF_PASSTHRU_PTIME_MISMATCH :: flag where "CF_PASSTHRU_PTIME_MISMATCH = 57"
definition CF_HAS_TEXT :: flag where "CF_HAS_TEXT = 145"
definition CF_RTT :: flag where "CF_RTT = 158"
definition CF_FLAG_MAX :: flag where "CF_FLAG_MAX = 172"

text \<open>The causes the code below sets.\<close>

definition SWITCH_CAUSE_NONE :: nat where "SWITCH_CAUSE_NONE = 0"
definition SWITCH_CAUSE_NORMAL_CLEARING :: nat where "SWITCH_CAUSE_NORMAL_CLEARING = 16"
definition SWITCH_CAUSE_INCOMPATIBLE_DESTINATION :: nat where "SWITCH_CAUSE_INCOMPATIBLE_DESTINATION = 88"

text \<open>
  The messages that the code below sends, or that the receiver of the session treats in a way of their own; the message that
  changes the display has its text and the first two of its arguments.
\<close>

datatype chan_message =
    INDICATE_PROGRESS | INDICATE_RINGING u32 | INDICATE_ANSWER | RING_EVENT | PROGRESS_EVENT | ANSWER_EVENT
  | REDIRECT_AUDIO | INDICATE_BRIDGE | INDICATE_UNBRIDGE | INDICATE_TRANSFER | INDICATE_MEDIA | INDICATE_NOMEDIA
  | INDICATE_HOLD | INDICATE_UNHOLD | INDICATE_REDIRECT | INDICATE_RESPOND | INDICATE_BROADCAST | INDICATE_MEDIA_REDIRECT
  | INDICATE_DEFLECT | INDICATE_DISPLAY "string option" "string option" "string option" | INDICATE_CLEAR_PROGRESS
  | INDICATE_SIGNAL_DATA | OTHER_MESSAGE nat

datatype chan_effect =
    Check_Device channel_callstate
  | Callstate_Event channel_callstate channel_callstate
  | State_Event | Hold_Event bool | Hangup_Event | Progress_Event | Progress_Media_Event | Answer_Event
  | Signal_State_Change | Kill_Channel | Thread_Launch | Break_Originator
  | Set_Variable string "string option" | Set_Partner_Variable string string | Set_Partner_Flag flag
  | Video_Refresh | Video_Thread_Start | Video_Thread_Wake | Recovery_Track | Transfer_Recordings
  | Check_Dtls | Check_Autoadj | Audio_Sync | Enable_Heartbeat nat | Presence string | Sleep_Msec nat
  | Partner_Progress int | Partner_Progress_Media int
  | Break_Channel | Media_Bug_Flush | Blind_Transfer_Response string
  | Run_Application string "string option" bool | Run_Command string "string option"

record hold_record =
  hold_on :: int
  hold_off :: int
  hold_uuid :: "string option"

text \<open>
  The arrays of flags are functions of the number of a flag.  The code indexes its arrays of \<^verbatim>\<open>CF_FLAG_MAX\<close> places without
  a check; a number that the enumeration of the flags does not have would leave them there, and has a flag of its own here.
\<close>

record channel =
  direction :: call_direction
  logical_direction :: call_direction
  cstate :: channel_state
  running_state :: channel_state
  callstate :: channel_callstate
  flags :: "flag \<Rightarrow> u32"
  state_flags :: "flag \<Rightarrow> u8"
  private_flags :: u32
  hangup_cause :: nat
  ocf_hangup :: bool
  last_hold :: int
  hold_accum :: int
  progress :: int
  progress_media :: int
  answered_time :: int
  hold_records :: "hold_record list"
  device_node :: "(channel_callstate \<times> call_direction) option"
  effects :: "chan_effect list"

definition emit :: "chan_effect list \<Rightarrow> channel \<Rightarrow> channel" where
  "emit es ch = ch\<lparr>effects := effects ch @ es\<rparr>"

definition switch_channel_test_flag :: "channel \<Rightarrow> flag \<Rightarrow> bool" where
  "switch_channel_test_flag ch fl \<longleftrightarrow> flags ch fl \<noteq> 0"

section \<open>The call state\<close>

definition switch_channel_perform_set_callstate :: "channel_callstate \<Rightarrow> channel \<Rightarrow> channel" where
  "switch_channel_perform_set_callstate cs ch =
     (let o_callstate = callstate ch
      in if o_callstate = cs \<or> o_callstate = CCS_HANGUP then ch
         else emit [Check_Device cs, Callstate_Event o_callstate cs]
           (ch\<lparr>callstate := cs, device_node := map_option (\<lambda>(c, d). (cs, d)) (device_node ch)\<rparr>))"

section \<open>Flags\<close>

text \<open>
  The environment: the time, the partner's identity, the variables that are read, facts about the
  session, and the code outside of the channel.  \<open>run_hook v\<close> is what \<^verbatim>\<open>switch_channel_execute_on\<close> and
  \<^verbatim>\<open>switch_channel_api_on\<close> do for the variable \<open>v\<close>, \<open>receive\<close> what the session does with a message, whose definition is in
  the theory of the receiver, and \<open>hangup_state\<close>
  is \<^verbatim>\<open>switch_core_session_hangup_state\<close>, whose definition on sessions is in the theory of the session's thread.
\<close>

record chan_env =
  time_now :: int
  partner :: "string option"
  variable :: "string \<Rightarrow> string option"
  session_running :: bool
  session_started :: bool
  session_in_thread :: bool
  has_partner :: bool
  originator_profile :: bool
  originator_found :: bool
  codecs_ready :: bool
  run_hook :: "string \<Rightarrow> channel \<Rightarrow> channel"
  receive :: "chan_message \<Rightarrow> channel \<Rightarrow> switch_status \<times> channel"
  hangup_state :: "channel \<Rightarrow> channel"

definition switch_is_number :: "string \<Rightarrow> bool" where
  "switch_is_number s =
     (let s = (case s of c # t \<Rightarrow> if c = CHR ''-'' \<or> c = CHR ''+'' then t else s | [] \<Rightarrow> s)
      in list_all (\<lambda>c. c = CHR ''.'' \<or> c_isdigit c) s)"

definition switch_true :: "string option \<Rightarrow> bool" where
  "switch_true e =
     (case e of None \<Rightarrow> False
      | Some s \<Rightarrow> strcaseeq s ''yes'' \<or> strcaseeq s ''on'' \<or> strcaseeq s ''true'' \<or> strcaseeq s ''t'' \<or>
          strcaseeq s ''enabled'' \<or> strcaseeq s ''active'' \<or> strcaseeq s ''allow'' \<or> (switch_is_number s \<and> atoi s \<noteq> 0))"

definition push_hold :: "chan_env \<Rightarrow> channel \<Rightarrow> channel" where
  "push_hold env ch =
     (let ch = switch_channel_perform_set_callstate CCS_HELD ch
      in ch\<lparr>last_hold := time_now env,
            hold_records := \<lparr>hold_on = time_now env, hold_off = 0, hold_uuid = partner env\<rparr> # hold_records ch\<rparr>)"

definition switch_channel_set_flag_value :: "chan_env \<Rightarrow> flag \<Rightarrow> u32 \<Rightarrow> channel \<Rightarrow> channel" where
  "switch_channel_set_flag_value env fl v ch =
     (let HELD = (fl = CF_LEG_HOLDING \<and> flags ch fl = 0 \<and> flags ch CF_ANSWERED \<noteq> 0);
          just_set = (flags ch fl \<noteq> v);
          ch = (if just_set then ch\<lparr>flags := (flags ch)(fl := v)\<rparr> else ch);
          ch = (if fl = CF_VIDEO_READY \<and> just_set then emit [Video_Refresh] ch else ch);
          ch = (if fl = CF_ORIGINATOR \<and> switch_channel_test_flag ch CF_ANSWERED \<and> cstate ch < CS_HANGUP
                then switch_channel_perform_set_callstate CCS_RING_WAIT ch else ch);
          ch = (if fl = CF_DIALPLAN then
                  (if direction ch = SWITCH_CALL_DIRECTION_INBOUND
                   then ch\<lparr>logical_direction := SWITCH_CALL_DIRECTION_OUTBOUND,
                           device_node := map_option (\<lambda>(c, d). (c, SWITCH_CALL_DIRECTION_INBOUND)) (device_node ch)\<rparr>
                   else ch\<lparr>logical_direction := SWITCH_CALL_DIRECTION_INBOUND,
                           device_node := map_option (\<lambda>(c, d). (c, SWITCH_CALL_DIRECTION_OUTBOUND)) (device_node ch)\<rparr>)
                else ch);
          ch = (if HELD then push_hold env ch else ch);
          ch = (if fl = CF_OUTBOUND then emit [Set_Variable ''is_outbound'' (Some ''true'')] ch else ch);
          ch = (if fl = CF_RECOVERED then emit [Set_Variable ''recovered'' (Some ''true'')] ch else ch);
          ch = (if fl = CF_VIDEO_ECHO \<or> fl = CF_VIDEO_BLANK \<or> fl = CF_VIDEO_DECODED_READ \<or> fl = CF_VIDEO_PASSIVE
                then emit [Video_Thread_Start] ch else ch)
      in if fl = CF_VIDEO_DECODED_READ \<and> flags ch CF_VIDEO \<noteq> 0 then emit [Video_Refresh] ch else ch)"

abbreviation switch_channel_set_flag :: "chan_env \<Rightarrow> flag \<Rightarrow> channel \<Rightarrow> channel" where
  "switch_channel_set_flag env fl \<equiv> switch_channel_set_flag_value env fl 1"

definition switch_channel_set_flag_recursive :: "flag \<Rightarrow> channel \<Rightarrow> channel" where
  "switch_channel_set_flag_recursive fl ch =
     (let ch = ch\<lparr>flags := (flags ch)(fl := flags ch fl + 1)\<rparr>;
          ch = (if fl = CF_OUTBOUND then emit [Set_Variable ''is_outbound'' (Some ''true'')] ch else ch)
      in if fl = CF_RECOVERED then emit [Set_Variable ''recovered'' (Some ''true'')] ch else ch)"

definition end_hold :: "chan_env \<Rightarrow> channel \<Rightarrow> channel" where
  "end_hold env ch =
     (let ch = switch_channel_perform_set_callstate CCS_UNHELD ch;
          ch = (if last_hold ch \<noteq> 0 then ch\<lparr>hold_accum := hold_accum ch + (time_now env - last_hold ch)\<rparr> else ch);
          ch = (case hold_records ch of [] \<Rightarrow> ch | h # hs \<Rightarrow> ch\<lparr>hold_records := h\<lparr>hold_off := time_now env\<rparr> # hs\<rparr>)
      in if switch_channel_test_flag ch CF_PROXY_MODE \<and> switch_channel_test_flag ch CF_BRIDGED
         then switch_channel_perform_set_callstate CCS_ACTIVE ch else ch)"

definition switch_channel_clear_flag :: "chan_env \<Rightarrow> flag \<Rightarrow> channel \<Rightarrow> channel" where
  "switch_channel_clear_flag env fl ch =
     (let ACTIVE = (fl = CF_LEG_HOLDING \<and> flags ch fl \<noteq> 0 \<and> flags ch CF_ANSWERED \<noteq> 0);
          CLEAR = (fl = CF_VIDEO_PASSIVE \<and> flags ch CF_VIDEO \<noteq> 0 \<and> flags ch fl \<noteq> 0);
          ch = (if fl = CF_VIDEO_PASSIVE \<and> flags ch CF_VIDEO \<noteq> 0 then ch\<lparr>flags := (flags ch)(CF_VIDEO_READY := 1)\<rparr> else ch);
          ch = ch\<lparr>flags := (flags ch)(fl := 0)\<rparr>;
          ch = (if fl = CF_DIALPLAN \<and> direction ch = SWITCH_CALL_DIRECTION_OUTBOUND
                then ch\<lparr>logical_direction := SWITCH_CALL_DIRECTION_OUTBOUND,
                        device_node := map_option (\<lambda>(c, d). (c, SWITCH_CALL_DIRECTION_INBOUND)) (device_node ch)\<rparr>
                else ch);
          ch = (if ACTIVE then end_hold env ch else ch);
          ch = (if fl = CF_ORIGINATOR \<and> switch_channel_test_flag ch CF_ANSWERED \<and> cstate ch < CS_HANGUP
                then switch_channel_perform_set_callstate CCS_ACTIVE ch else ch);
          ch = (if fl = CF_OUTBOUND then emit [Set_Variable ''is_outbound'' None] ch else ch);
          ch = (if fl = CF_RECOVERED then emit [Set_Variable ''recovered'' None] ch else ch);
          ch = (if fl = CF_VIDEO_PASSIVE \<and> CLEAR then emit [Video_Thread_Wake] ch else ch)
      in if fl = CF_RECOVERING \<and> hangup_cause ch = 0 \<and> \<not> switch_channel_test_flag ch CF_NO_RECOVER
         then emit [Recovery_Track] ch else ch)"

definition switch_channel_clear_flag_recursive :: "flag \<Rightarrow> channel \<Rightarrow> channel" where
  "switch_channel_clear_flag_recursive fl ch =
     (let ch = (if flags ch fl \<noteq> 0 then ch\<lparr>flags := (flags ch)(fl := flags ch fl - 1)\<rparr> else ch)
      in if fl = CF_OUTBOUND then emit [Set_Variable ''is_outbound'' None] ch else ch)"

definition switch_channel_set_state_flag :: "flag \<Rightarrow> channel \<Rightarrow> channel" where
  "switch_channel_set_state_flag fl ch = ch\<lparr>state_flags := (state_flags ch)(0 := 1, fl := 1)\<rparr>"

definition switch_channel_clear_state_flag :: "flag \<Rightarrow> channel \<Rightarrow> channel" where
  "switch_channel_clear_state_flag fl ch = ch\<lparr>state_flags := (state_flags ch)(fl := 0)\<rparr>"

definition switch_channel_set_private_flag :: "u32 \<Rightarrow> channel \<Rightarrow> channel" where
  "switch_channel_set_private_flag fl ch = ch\<lparr>private_flags := private_flags ch OR fl\<rparr>"

definition switch_channel_clear_private_flag :: "u32 \<Rightarrow> channel \<Rightarrow> channel" where
  "switch_channel_clear_private_flag fl ch = ch\<lparr>private_flags := private_flags ch AND NOT fl\<rparr>"

definition switch_channel_test_private_flag :: "channel \<Rightarrow> u32 \<Rightarrow> u32" where
  "switch_channel_test_private_flag ch fl = private_flags ch AND fl"

definition switch_channel_mark_hold :: "chan_env \<Rightarrow> bool \<Rightarrow> channel \<Rightarrow> channel" where
  "switch_channel_mark_hold env on ch =
     (let ch = (if on = switch_channel_test_flag ch CF_LEG_HOLDING then ch
                else emit [Hold_Event on]
                  (if on then switch_channel_set_flag env CF_LEG_HOLDING ch
                   else switch_channel_clear_flag env CF_LEG_HOLDING ch))
      in if on \<and> switch_true (variable env ''flip_record_on_hold'') \<and> has_partner env
         then emit [Transfer_Recordings] ch else ch)"

section \<open>The state\<close>

text \<open>The nested switch of \<^verbatim>\<open>switch_channel_perform_set_state\<close>.\<close>

definition state_change_ok :: "channel_state \<Rightarrow> channel_state \<Rightarrow> bool" where
  "state_change_ok last_state state =
     (case last_state of
        CS_NEW \<Rightarrow> True
      | CS_RESET \<Rightarrow> True
      | CS_INIT \<Rightarrow> state \<in> {CS_EXCHANGE_MEDIA, CS_SOFT_EXECUTE, CS_ROUTING, CS_EXECUTE, CS_PARK, CS_CONSUME_MEDIA, CS_HIBERNATE, CS_RESET}
      | CS_EXCHANGE_MEDIA \<Rightarrow> state \<in> {CS_SOFT_EXECUTE, CS_ROUTING, CS_EXECUTE, CS_PARK, CS_CONSUME_MEDIA, CS_HIBERNATE, CS_RESET}
      | CS_SOFT_EXECUTE \<Rightarrow> state \<in> {CS_EXCHANGE_MEDIA, CS_ROUTING, CS_EXECUTE, CS_PARK, CS_CONSUME_MEDIA, CS_HIBERNATE, CS_RESET}
      | CS_PARK \<Rightarrow> state \<in> {CS_EXCHANGE_MEDIA, CS_ROUTING, CS_EXECUTE, CS_SOFT_EXECUTE, CS_HIBERNATE, CS_RESET, CS_CONSUME_MEDIA}
      | CS_CONSUME_MEDIA \<Rightarrow> state \<in> {CS_EXCHANGE_MEDIA, CS_ROUTING, CS_EXECUTE, CS_SOFT_EXECUTE, CS_HIBERNATE, CS_RESET, CS_PARK}
      | CS_HIBERNATE \<Rightarrow> state \<in> {CS_EXCHANGE_MEDIA, CS_INIT, CS_ROUTING, CS_EXECUTE, CS_SOFT_EXECUTE, CS_PARK, CS_CONSUME_MEDIA, CS_RESET}
      | CS_ROUTING \<Rightarrow> state \<in> {CS_EXCHANGE_MEDIA, CS_EXECUTE, CS_SOFT_EXECUTE, CS_PARK, CS_CONSUME_MEDIA, CS_HIBERNATE, CS_RESET}
      | CS_EXECUTE \<Rightarrow> state \<in> {CS_EXCHANGE_MEDIA, CS_SOFT_EXECUTE, CS_ROUTING, CS_PARK, CS_CONSUME_MEDIA, CS_HIBERNATE, CS_RESET}
      | CS_HANGUP \<Rightarrow> state \<in> {CS_REPORTING, CS_DESTROY}
      | CS_REPORTING \<Rightarrow> state = CS_DESTROY
      | _ \<Rightarrow> False)"

definition switch_channel_perform_set_state :: "channel_state \<Rightarrow> channel \<Rightarrow> channel option" where
  "switch_channel_perform_set_state state ch =
     (let last_state = cstate ch
      in if \<not> state \<le> CS_DESTROY \<or> \<not> last_state \<le> CS_DESTROY then None
         else if last_state = state then Some ch
         else if last_state \<ge> CS_HANGUP \<and> state < last_state then Some ch
         else if state_change_ok last_state state then
           (let ch = ch\<lparr>cstate := state\<rparr>;
                ch = (if state = CS_HANGUP \<and> hangup_cause ch = 0 then ch\<lparr>hangup_cause := SWITCH_CAUSE_NORMAL_CLEARING\<rparr> else ch)
            in Some (if state \<le> CS_DESTROY then emit [Signal_State_Change] ch else ch))
         else if cstate ch \<ge> CS_HANGUP then Some ch else None)"

fun apply_state_flags :: "flag list \<Rightarrow> channel \<Rightarrow> channel" where
  "apply_state_flags [] ch = ch"
| "apply_state_flags (x # xs) ch =
     apply_state_flags xs
       (if state_flags ch x \<noteq> 0 then ch\<lparr>flags := (flags ch)(x := 1), state_flags := (state_flags ch)(x := 0)\<rparr> else ch)"

definition switch_channel_perform_set_running_state :: "chan_env \<Rightarrow> channel_state \<Rightarrow> channel \<Rightarrow> channel" where
  "switch_channel_perform_set_running_state env state ch =
     (let ch = (if state_flags ch 0 \<noteq> 0
                then (let ch = apply_state_flags [1..<CF_FLAG_MAX] ch in ch\<lparr>state_flags := (state_flags ch)(0 := 0)\<rparr>)
                else ch);
          ch = switch_channel_clear_flag env CF_TAGGED ch;
          ch = ch\<lparr>running_state := state\<rparr>
      in if state \<le> CS_DESTROY then
           (let ch = (if direction ch = SWITCH_CALL_DIRECTION_INBOUND \<and> state < CS_HANGUP then
                        (if state = CS_ROUTING then switch_channel_perform_set_callstate CCS_RINGING ch
                         else if switch_channel_test_flag ch CF_ANSWERED then switch_channel_perform_set_callstate CCS_ACTIVE ch
                         else if switch_channel_test_flag ch CF_EARLY_MEDIA then switch_channel_perform_set_callstate CCS_EARLY ch
                         else ch)
                      else ch)
            in emit [State_Event] ch)
         else ch)"

definition switch_channel_state_change_pending :: "chan_env \<Rightarrow> channel \<Rightarrow> bool" where
  "switch_channel_state_change_pending env ch \<longleftrightarrow>
     \<not> (cstate ch \<ge> CS_HANGUP \<or> \<not> session_in_thread env) \<and> running_state ch \<noteq> cstate ch"

text \<open>The signals that \<^verbatim>\<open>switch_channel_test_ready\<close> parses first are histories of their own and come before it.\<close>

definition switch_channel_test_ready :: "chan_env \<Rightarrow> bool \<Rightarrow> bool \<Rightarrow> channel \<Rightarrow> bool" where
  "switch_channel_test_ready env check_ready check_media ch =
     (let ret = (check_media \<and> (switch_channel_test_flag ch CF_ANSWERED \<or> switch_channel_test_flag ch CF_EARLY_MEDIA) \<and>
                 \<not> switch_channel_test_flag ch CF_PROXY_MODE \<and> codecs_ready env)
      in if check_media \<and> \<not> ret then False
         else if \<not> check_ready then ret
         else hangup_cause ch = 0 \<and> cstate ch > CS_ROUTING \<and> cstate ch < CS_HANGUP \<and> cstate ch \<noteq> CS_RESET \<and>
           \<not> switch_channel_test_flag ch CF_TRANSFER \<and> \<not> switch_channel_test_flag ch CF_NOT_READY \<and>
           \<not> switch_channel_state_change_pending env ch)"

section \<open>Hanging up\<close>

definition close_hold :: "chan_env \<Rightarrow> channel \<Rightarrow> channel" where
  "close_hold env ch =
     (case hold_records ch of [] \<Rightarrow> ch
      | h # hs \<Rightarrow> if hold_off h = 0 then ch\<lparr>hold_records := h\<lparr>hold_off := time_now env\<rparr> # hs\<rparr> else ch)"

definition hangup_effects :: "chan_env \<Rightarrow> channel \<Rightarrow> chan_effect list" where
  "hangup_effects env ch =
     (case variable env ''proto_specific_hangup_cause'' of None \<Rightarrow> []
      | Some v \<Rightarrow> [Set_Partner_Variable ''last_bridge_proto_specific_hangup_cause'' v]) @
     (if switch_channel_test_flag ch CF_BRIDGE_ORIGINATOR then [Set_Variable ''last_bridge_role'' (Some ''originator'')]
      else if switch_channel_test_flag ch CF_BRIDGED then [Set_Variable ''last_bridge_role'' (Some ''originatee'')] else []) @
     (if \<not> session_running env \<and> \<not> session_started env then [Thread_Launch] else []) @
     [Hangup_Event, Kill_Channel, Signal_State_Change]"

text \<open>\<open>cause_name\<close> is the text of the cause, \<^verbatim>\<open>switch_channel_cause2str\<close>.\<close>

definition switch_channel_perform_hangup :: "chan_env \<Rightarrow> string \<Rightarrow> nat \<Rightarrow> channel \<Rightarrow> channel" where
  "switch_channel_perform_hangup env cause_name cause ch =
     (let ok = (\<not> ocf_hangup ch);
          ch = ch\<lparr>ocf_hangup := True\<rparr>;
          ch = (if switch_channel_test_flag ch CF_LEG_HOLDING
                then switch_channel_set_flag env CF_HANGUP_HELD (switch_channel_mark_hold env False ch)
                else ch)
      in if \<not> ok then ch
         else
           (let ch = switch_channel_clear_flag env CF_BLOCK_STATE ch
            in if cstate ch < CS_HANGUP then
                 (let ch = close_hold env ch;
                      ch = ch\<lparr>cstate := CS_HANGUP\<rparr>;
                      ch = ch\<lparr>hangup_cause := cause\<rparr>;
                      ch = emit [Set_Partner_Variable ''last_bridge_hangup_cause'' cause_name] ch;
                      ch = emit (hangup_effects env ch) ch
                  in hangup_state env ch)
               else ch))"

section \<open>Ringing and answering\<close>

definition note_progress :: "chan_env \<Rightarrow> channel \<Rightarrow> channel" where
  "note_progress env ch =
     (if progress ch = 0 then
        (let ch = ch\<lparr>progress := time_now env\<rparr>
         in if originator_profile env then emit [Partner_Progress (progress ch)] ch else ch)
      else ch)"

definition switch_channel_perform_mark_ring_ready_value :: "chan_env \<Rightarrow> u32 \<Rightarrow> channel \<Rightarrow> switch_status \<times> channel" where
  "switch_channel_perform_mark_ring_ready_value env rv ch =
     (if \<not> switch_channel_test_flag ch CF_RING_READY \<and> \<not> switch_channel_test_flag ch CF_ANSWERED then
        (let ch = switch_channel_set_flag_value env CF_RING_READY rv ch;
             ch = note_progress env ch;
             ch = emit [Progress_Event] ch;
             ch = run_hook env ''execute_on_ring'' ch;
             ch = run_hook env ''api_on_ring'' ch;
             ch = switch_channel_perform_set_callstate CCS_RINGING ch
         in (SWITCH_STATUS_SUCCESS, snd (receive env RING_EVENT ch)))
      else (SWITCH_STATUS_FALSE, ch))"

definition note_progress_media :: "chan_env \<Rightarrow> channel \<Rightarrow> channel" where
  "note_progress_media env ch =
     (let ch = ch\<lparr>progress_media := time_now env\<rparr>
      in if originator_profile env then emit [Partner_Progress_Media (progress_media ch)] ch else ch)"

definition switch_channel_perform_mark_pre_answered :: "chan_env \<Rightarrow> channel \<Rightarrow> switch_status \<times> channel" where
  "switch_channel_perform_mark_pre_answered env ch =
     (if \<not> switch_channel_test_flag ch CF_EARLY_MEDIA \<and> \<not> switch_channel_test_flag ch CF_ANSWERED then
        (let ch = emit [Check_Dtls] ch;
             ch = switch_channel_set_flag env CF_EARLY_MEDIA ch;
             ch = emit [Set_Variable ''endpoint_disposition'' (Some ''EARLY MEDIA'')] ch;
             ch = (if switch_true (variable env ''video_mirror_input'') then switch_channel_set_flag env CF_VIDEO_MIRROR_INPUT ch else ch);
             ch = note_progress_media env ch;
             ch = emit [Progress_Media_Event] ch;
             ch = run_hook env ''execute_on_pre_answer'' ch;
             ch = run_hook env ''execute_on_media'' ch;
             ch = run_hook env ''api_on_pre_answer'' ch;
             ch = run_hook env ''api_on_media'' ch;
             ch = (if switch_true (variable env ''passthru_ptime_mismatch'')
                   then switch_channel_set_flag env CF_PASSTHRU_PTIME_MISMATCH ch else ch);
             ch = (if variable env ''originator'' \<noteq> None \<and> originator_found env then emit [Break_Originator] ch else ch);
             ch = switch_channel_perform_set_callstate CCS_EARLY ch;
             ch = snd (receive env PROGRESS_EVENT ch)
         in (SWITCH_STATUS_SUCCESS, emit [Check_Autoadj] ch))
      else (SWITCH_STATUS_FALSE, ch))"

definition heartbeat_seconds :: "string \<Rightarrow> nat" where
  "heartbeat_seconds v =
     (if switch_is_number v then (if atoi v > 0 then nat (atoi v) else 60)
      else if \<not> switch_true (Some v) then 0 else 60)"

text \<open>What follows the answer event: the break of the originator, the variables, and the applications that wait for it.\<close>

definition answer_hooks :: "chan_env \<Rightarrow> channel \<Rightarrow> channel" where
  "answer_hooks env ch =
    (let ch = (if variable env ''originator'' \<noteq> None \<and> originator_found env then emit [Break_Originator] ch else ch);
     ch = (if switch_true (variable env ''passthru_ptime_mismatch'')
           then switch_channel_set_flag env CF_PASSTHRU_PTIME_MISMATCH ch else ch);
     ch = (case variable env ''enable_heartbeat_events'' of None \<Rightarrow> ch
           | Some v \<Rightarrow> if heartbeat_seconds v \<noteq> 0 then emit [Enable_Heartbeat (heartbeat_seconds v)] ch else ch);
     ch = emit [Set_Variable ''endpoint_disposition'' (Some ''ANSWER'')] ch;
     ch = (if variable env ''absolute_codec_string'' \<noteq> None \<and> switch_true (variable env ''inherit_codec'')
           then emit [Set_Variable ''absolute_codec_string'' None] ch else ch);
     ch = run_hook env ''execute_on_answer'' ch;
     ch = (if \<not> switch_channel_test_flag ch CF_EARLY_MEDIA
           then run_hook env ''api_on_media'' (run_hook env ''execute_on_media'' ch) else ch);
     ch = run_hook env ''api_on_answer'' ch;
     ch = emit [Presence ''answered''] ch
     in if \<not> switch_channel_test_flag ch CF_NO_RECOVER then emit [Recovery_Track] ch else ch)"

definition switch_channel_perform_mark_answered :: "chan_env \<Rightarrow> channel \<Rightarrow> switch_status \<times> channel" where
  "switch_channel_perform_mark_answered env ch =
     (if hangup_cause ch \<noteq> 0 \<or> cstate ch \<ge> CS_HANGUP then (SWITCH_STATUS_FALSE, ch)
      else if switch_channel_test_flag ch CF_ANSWERED then (SWITCH_STATUS_SUCCESS, ch)
      else
        (let ch = emit [Check_Dtls] ch;
             ch = ch\<lparr>answered_time := time_now env\<rparr>;
             ch = switch_channel_set_flag env CF_ANSWERED ch;
             ch = (if switch_true (variable env ''video_mirror_input'') then switch_channel_set_flag env CF_VIDEO_MIRROR_INPUT ch else ch);
             ch = emit [Answer_Event] ch;
             ch = answer_hooks env ch;
             ch = switch_channel_perform_set_callstate CCS_ACTIVE ch;
             ch = snd (receive env ANSWER_EVENT ch);
             ch = emit [Check_Autoadj] ch
         in (SWITCH_STATUS_SUCCESS, if switch_channel_test_flag ch CF_RTT then emit [Set_Partner_Flag CF_RTT] ch else ch)))"

definition hangup_incompatible :: "chan_env \<Rightarrow> channel \<Rightarrow> channel" where
  "hangup_incompatible env ch =
     switch_channel_perform_hangup env ''INCOMPATIBLE_DESTINATION'' SWITCH_CAUSE_INCOMPATIBLE_DESTINATION ch"

definition audio_sync :: "channel \<Rightarrow> channel" where
  "audio_sync ch =
     (if switch_channel_test_flag ch CF_ANSWERED \<or> switch_channel_test_flag ch CF_EARLY_MEDIA then emit [Audio_Sync] ch else ch)"

definition switch_channel_perform_pre_answer :: "chan_env \<Rightarrow> channel \<Rightarrow> switch_status \<times> channel" where
  "switch_channel_perform_pre_answer env ch =
     (if hangup_cause ch \<noteq> 0 \<or> cstate ch \<ge> CS_HANGUP then (SWITCH_STATUS_FALSE, ch)
      else if switch_channel_test_flag ch CF_ANSWERED then (SWITCH_STATUS_SUCCESS, ch)
      else if switch_channel_test_flag ch CF_EARLY_MEDIA then (SWITCH_STATUS_SUCCESS, ch)
      else
        (let (status, ch) = (if direction ch = SWITCH_CALL_DIRECTION_INBOUND then receive env INDICATE_PROGRESS ch
                             else (SWITCH_STATUS_SUCCESS, ch))
         in (status, if status = SWITCH_STATUS_SUCCESS
                     then audio_sync (snd (switch_channel_perform_mark_pre_answered env ch))
                     else hangup_incompatible env ch)))"

definition switch_channel_perform_ring_ready_value :: "chan_env \<Rightarrow> u32 \<Rightarrow> channel \<Rightarrow> switch_status \<times> channel" where
  "switch_channel_perform_ring_ready_value env rv ch =
     (if hangup_cause ch \<noteq> 0 \<or> cstate ch \<ge> CS_HANGUP then (SWITCH_STATUS_FALSE, ch)
      else if switch_channel_test_flag ch CF_ANSWERED then (SWITCH_STATUS_SUCCESS, ch)
      else if switch_channel_test_flag ch CF_EARLY_MEDIA then (SWITCH_STATUS_SUCCESS, ch)
      else
        (let (status, ch) = (if direction ch = SWITCH_CALL_DIRECTION_INBOUND then receive env (INDICATE_RINGING rv) ch
                             else (SWITCH_STATUS_SUCCESS, ch))
         in (status, if status = SWITCH_STATUS_SUCCESS
                     then snd (switch_channel_perform_mark_ring_ready_value env rv ch)
                     else hangup_incompatible env ch)))"

definition answer_delay :: "chan_env \<Rightarrow> channel \<Rightarrow> channel" where
  "answer_delay env ch =
     (if session_in_thread env \<and> \<not> switch_channel_test_flag ch CF_PROXY_MODE \<and> \<not> switch_channel_test_flag ch CF_HAS_TEXT
      then (case variable env ''answer_delay'' of None \<Rightarrow> ch
            | Some v \<Rightarrow> if atoi v mod 2 ^ 32 \<noteq> 0 then emit [Sleep_Msec (nat (atoi v mod 2 ^ 32))] ch else ch)
      else ch)"

definition switch_channel_perform_answer :: "chan_env \<Rightarrow> channel \<Rightarrow> switch_status \<times> channel" where
  "switch_channel_perform_answer env ch =
     (if direction ch = SWITCH_CALL_DIRECTION_OUTBOUND then (SWITCH_STATUS_SUCCESS, ch)
      else if hangup_cause ch \<noteq> 0 \<or> cstate ch \<ge> CS_HANGUP then (SWITCH_STATUS_FALSE, ch)
      else if switch_channel_test_flag ch CF_ANSWERED then (SWITCH_STATUS_SUCCESS, ch)
      else
        (let (status, ch) = receive env INDICATE_ANSWER ch;
             ch = (if status = SWITCH_STATUS_SUCCESS
                   then (let ch = snd (switch_channel_perform_mark_answered env ch)
                         in if \<not> switch_channel_test_flag ch CF_EARLY_MEDIA then audio_sync ch else ch)
                   else hangup_incompatible env ch)
         in (status, answer_delay env ch)))"

section \<open>Sequences of operations\<close>

datatype chan_op =
    Set_State channel_state | Set_Running_State channel_state | Set_Callstate channel_callstate
  | Set_Flag flag u32 | Set_Flag_Recursive flag | Clear_Flag flag | Clear_Flag_Recursive flag
  | Set_State_Flag flag | Clear_State_Flag flag | Mark_Hold bool | Hangup string nat
  | Mark_Ring_Ready u32 | Mark_Pre_Answered | Mark_Answered | Ring_Ready u32 | Pre_Answer | Answer

fun chan_exec :: "chan_env \<Rightarrow> chan_op \<Rightarrow> channel \<Rightarrow> channel option" where
  "chan_exec env (Set_State st) ch = switch_channel_perform_set_state st ch"
| "chan_exec env (Set_Running_State st) ch = Some (switch_channel_perform_set_running_state env st ch)"
| "chan_exec env (Set_Callstate cs) ch = Some (switch_channel_perform_set_callstate cs ch)"
| "chan_exec env (Set_Flag fl v) ch = Some (switch_channel_set_flag_value env fl v ch)"
| "chan_exec env (Set_Flag_Recursive fl) ch = Some (switch_channel_set_flag_recursive fl ch)"
| "chan_exec env (Clear_Flag fl) ch = Some (switch_channel_clear_flag env fl ch)"
| "chan_exec env (Clear_Flag_Recursive fl) ch = Some (switch_channel_clear_flag_recursive fl ch)"
| "chan_exec env (Set_State_Flag fl) ch = Some (switch_channel_set_state_flag fl ch)"
| "chan_exec env (Clear_State_Flag fl) ch = Some (switch_channel_clear_state_flag fl ch)"
| "chan_exec env (Mark_Hold on) ch = Some (switch_channel_mark_hold env on ch)"
| "chan_exec env (Hangup cause_name cause) ch = Some (switch_channel_perform_hangup env cause_name cause ch)"
| "chan_exec env (Mark_Ring_Ready rv) ch = Some (snd (switch_channel_perform_mark_ring_ready_value env rv ch))"
| "chan_exec env Mark_Pre_Answered ch = Some (snd (switch_channel_perform_mark_pre_answered env ch))"
| "chan_exec env Mark_Answered ch = Some (snd (switch_channel_perform_mark_answered env ch))"
| "chan_exec env (Ring_Ready rv) ch = Some (snd (switch_channel_perform_ring_ready_value env rv ch))"
| "chan_exec env Pre_Answer ch = Some (snd (switch_channel_perform_pre_answer env ch))"
| "chan_exec env Answer ch = Some (snd (switch_channel_perform_answer env ch))"

text \<open>A history of a channel: each operation runs in an environment of its own.\<close>

fun chan_run :: "(chan_env \<times> chan_op) list \<Rightarrow> channel \<Rightarrow> channel option" where
  "chan_run [] ch = Some ch"
| "chan_run ((env, op) # ops) ch = (case chan_exec env op ch of None \<Rightarrow> None | Some ch' \<Rightarrow> chan_run ops ch')"

section \<open>Relations kept by every operation\<close>

text \<open>The rules that follow the text of an operation, from its result back to what it starts from, for
  any relation \<open>R\<close> to a channel.\<close>

lemma let_chan:
  fixes R :: "'a \<Rightarrow> channel \<Rightarrow> bool" and v :: channel
  shows "R a v \<Longrightarrow> (\<And>x. R a x \<Longrightarrow> R a (f x)) \<Longrightarrow> R a (Let v f)"
  by (simp add: Let_def)

lemma let_bool:
  fixes R :: "'a \<Rightarrow> channel \<Rightarrow> bool" and v :: bool
  shows "(\<And>x. R a (f x)) \<Longrightarrow> R a (Let v f)"
  by (simp add: Let_def)

lemma if_both:
  fixes R :: "'a \<Rightarrow> channel \<Rightarrow> bool"
  shows "R a x \<Longrightarrow> R a y \<Longrightarrow> R a (if c then x else y)"
  by simp

lemma snd_let:
  fixes R :: "'a \<Rightarrow> channel \<Rightarrow> bool" and v :: channel
  shows "R a v \<Longrightarrow> (\<And>x. R a x \<Longrightarrow> R a (snd (f x))) \<Longrightarrow> R a (snd (Let v f))"
  by (simp add: Let_def)

lemma snd_if:
  fixes R :: "'a \<Rightarrow> channel \<Rightarrow> bool"
  shows "R a (snd x) \<Longrightarrow> R a (snd y) \<Longrightarrow> R a (snd (if c then x else y))"
  by simp

lemma snd_pair:
  fixes R :: "'a \<Rightarrow> channel \<Rightarrow> bool"
  shows "R a y \<Longrightarrow> R a (snd (x, y))"
  by simp

lemma snd_let_pair:
  fixes R :: "'a \<Rightarrow> channel \<Rightarrow> bool"
  shows "R a (snd p) \<Longrightarrow> (\<And>s x. R a x \<Longrightarrow> R a (snd (f s x))) \<Longrightarrow> R a (snd (let (s, x) = p in f s x))"
  by (cases p) simp

lemma option_case:
  fixes R :: "'a \<Rightarrow> channel \<Rightarrow> bool"
  shows "R a x \<Longrightarrow> (\<And>v. R a (f v)) \<Longrightarrow> R a (case p of None \<Rightarrow> x | Some v \<Rightarrow> f v)"
  by (cases p) simp_all

lemma list_case:
  fixes R :: "'a \<Rightarrow> channel \<Rightarrow> bool"
  shows "R a x \<Longrightarrow> (\<And>h hs. R a (f h hs)) \<Longrightarrow> R a (case l of [] \<Rightarrow> x | h # hs \<Rightarrow> f h hs)"
  by (cases l) simp_all

lemmas shape = let_chan let_bool if_both snd_let snd_if snd_pair snd_let_pair option_case list_case

text \<open>
  \<open>keeps R env\<close>: what the environment does to the channel when it is called back is in the relation \<open>R\<close>.
  The interface \<open>chan_rel\<close> lists the elementary changes that the operations are made of; a preorder that
  contains them contains every operation.
\<close>

definition keeps :: "(channel \<Rightarrow> channel \<Rightarrow> bool) \<Rightarrow> chan_env \<Rightarrow> bool" where
  "keeps R env \<longleftrightarrow> (\<forall>v ch. R ch (run_hook env v ch)) \<and> (\<forall>m ch. R ch (snd (receive env m ch))) \<and>
     (\<forall>ch. R ch (hangup_state env ch))"

locale chan_rel =
  fixes R :: "channel \<Rightarrow> channel \<Rightarrow> bool"
  assumes refl: "R a a"
    and trans: "R a b \<Longrightarrow> R b c \<Longrightarrow> R a c"
    and emitted: "Hangup_Event \<notin> set es \<Longrightarrow> R a (emit es a)"
    and new_callstate: "callstate a \<noteq> CCS_HANGUP \<Longrightarrow>
      R a (a\<lparr>callstate := cs, device_node := map_option (\<lambda>(c, d). (cs, d)) (device_node a)\<rparr>)"
    and new_direction: "R a (a\<lparr>logical_direction := ld, device_node := map_option (\<lambda>(c, d). (c, nd)) (device_node a)\<rparr>)"
    and new_flags: "R a (a\<lparr>flags := fs\<rparr>)"
    and new_state_flags: "R a (a\<lparr>state_flags := sfs\<rparr>)"
    and new_hold: "R a (a\<lparr>last_hold := lh, hold_records := hs\<rparr>)"
    and new_accum: "R a (a\<lparr>hold_accum := ha\<rparr>)"
    and new_records: "R a (a\<lparr>hold_records := hs\<rparr>)"
    and new_progress: "R a (a\<lparr>progress := t\<rparr>)"
    and new_progress_media: "R a (a\<lparr>progress_media := t\<rparr>)"
    and new_answered: "R a (a\<lparr>answered_time := t\<rparr>)"
    and new_running: "R a (a\<lparr>running_state := st\<rparr>)"
    and new_state: "switch_channel_perform_set_state st a = Some b \<Longrightarrow> R a b"
    and new_ocf: "R a (a\<lparr>ocf_hangup := True\<rparr>)"
    and new_hangup: "\<not> ocf_hangup a \<Longrightarrow> R (a\<lparr>ocf_hangup := True\<rparr>) b \<Longrightarrow> cstate b < CS_HANGUP \<Longrightarrow>
      count_list es Hangup_Event \<le> 1 \<Longrightarrow> R a (emit es (b\<lparr>cstate := CS_HANGUP, hangup_cause := cause\<rparr>))"
begin

lemma emit_step: "R a b \<Longrightarrow> Hangup_Event \<notin> set es \<Longrightarrow> R a (emit es b)"
  using emitted trans by blast

lemmas updates = new_direction [THEN trans [rotated]] new_flags [THEN trans [rotated]] new_state_flags [THEN trans [rotated]]
  new_hold [THEN trans [rotated]] new_accum [THEN trans [rotated]] new_records [THEN trans [rotated]]
  new_progress [THEN trans [rotated]] new_progress_media [THEN trans [rotated]] new_answered [THEN trans [rotated]]
  new_running [THEN trans [rotated]] new_ocf [THEN trans [rotated]]

lemma callstate_step: "R a b \<Longrightarrow> R a (switch_channel_perform_set_callstate cs b)"
  unfolding switch_channel_perform_set_callstate_def Let_def
  by (auto intro: emit_step trans [OF _ new_callstate])

lemmas basics = shape [where R = R] updates emit_step callstate_step

lemma push_hold_step: "R a b \<Longrightarrow> R a (push_hold env b)"
  unfolding push_hold_def by (intro basics; simp)

lemma set_flag_step: "R a b \<Longrightarrow> R a (switch_channel_set_flag_value env fl v b)"
  unfolding switch_channel_set_flag_value_def by (intro basics push_hold_step; simp)

lemma set_flag_recursive_step: "R a b \<Longrightarrow> R a (switch_channel_set_flag_recursive fl b)"
  unfolding switch_channel_set_flag_recursive_def by (intro basics; simp)

lemma end_hold_step: "R a b \<Longrightarrow> R a (end_hold env b)"
  unfolding end_hold_def by (intro basics; simp)

lemma clear_flag_step: "R a b \<Longrightarrow> R a (switch_channel_clear_flag env fl b)"
  unfolding switch_channel_clear_flag_def by (intro basics end_hold_step; simp)

lemma clear_flag_recursive_step: "R a b \<Longrightarrow> R a (switch_channel_clear_flag_recursive fl b)"
  unfolding switch_channel_clear_flag_recursive_def by (intro basics; simp)

lemma state_flag_step:
  "R a b \<Longrightarrow> R a (switch_channel_set_state_flag fl b)"
  "R a b \<Longrightarrow> R a (switch_channel_clear_state_flag fl b)"
  unfolding switch_channel_set_state_flag_def switch_channel_clear_state_flag_def by (intro basics; simp)+

lemma mark_hold_step: "R a b \<Longrightarrow> R a (switch_channel_mark_hold env on b)"
  unfolding switch_channel_mark_hold_def by (intro basics set_flag_step clear_flag_step; simp)

lemma apply_state_flags_step: "R a b \<Longrightarrow> R a (apply_state_flags xs b)"
proof (induction xs arbitrary: b)
  case (Cons x xs)
  have "R a (b\<lparr>flags := fs, state_flags := sfs\<rparr>)" for fs sfs by (intro updates Cons.prems)
  then show ?case using Cons.IH Cons.prems by simp
qed simp

lemma running_state_step: "R a b \<Longrightarrow> R a (switch_channel_perform_set_running_state env st b)"
  unfolding switch_channel_perform_set_running_state_def
  by (intro basics clear_flag_step apply_state_flags_step; simp)

lemma env_steps:
  assumes "keeps R env"
  shows "R a b \<Longrightarrow> R a (run_hook env v b)" "R a b \<Longrightarrow> R a (snd (receive env m b))" "R a b \<Longrightarrow> R a (hangup_state env b)"
  using assms trans unfolding keeps_def by blast+

lemma one_hangup: "count_list (Set_Partner_Variable x y # hangup_effects env b) Hangup_Event \<le> 1"
  by (simp add: hangup_effects_def split: option.split)

lemma emit_emit: "emit es (emit fs b) = emit (fs @ es) b"
  by (simp add: emit_def)

lemma hangup_step:
  assumes "keeps R env"
  shows "R a (switch_channel_perform_hangup env n cause a)"
proof -
  let ?a = "a\<lparr>ocf_hangup := True\<rparr>"
  define b where "b = (if switch_channel_test_flag ?a CF_LEG_HOLDING
    then switch_channel_set_flag env CF_HANGUP_HELD (switch_channel_mark_hold env False ?a) else ?a)"
  define c where "c = switch_channel_clear_flag env CF_BLOCK_STATE b"
  have b: "R ?a b" unfolding b_def by (intro if_both [where R = R] set_flag_step mark_hold_step refl)
  then have c: "R ?a c" "R ?a (close_hold env c)"
    unfolding c_def close_hold_def by (intro basics clear_flag_step; assumption)+
  have st: "cstate (close_hold env c) = cstate c" by (simp add: close_hold_def split: list.split)
  let ?d = "close_hold env c\<lparr>cstate := CS_HANGUP, hangup_cause := cause\<rparr>"
  have d: "R a (emit (hangup_effects env (emit [Set_Partner_Variable ''last_bridge_hangup_cause'' n] ?d))
      (emit [Set_Partner_Variable ''last_bridge_hangup_cause'' n] ?d))"
    if "\<not> ocf_hangup a" "cstate c < CS_HANGUP"
    using new_hangup [OF that(1) c(2)] that(2) one_hangup unfolding emit_emit by (simp add: st)
  have "switch_channel_perform_hangup env n cause a = (if ocf_hangup a then b
      else if cstate c < CS_HANGUP
      then hangup_state env (emit (hangup_effects env (emit [Set_Partner_Variable ''last_bridge_hangup_cause'' n] ?d))
        (emit [Set_Partner_Variable ''last_bridge_hangup_cause'' n] ?d)) else c)"
    by (simp add: switch_channel_perform_hangup_def b_def c_def Let_def)
  then show ?thesis
    using trans [OF new_ocf b] trans [OF new_ocf c(1)] env_steps(3) [OF assms d] by simp
qed

lemma hangup_after:
  assumes "keeps R env" "R a b"
  shows "R a (switch_channel_perform_hangup env n cause b)" "R a (hangup_incompatible env b)"
  using trans [OF assms(2) hangup_step [OF assms(1)]] by (simp_all add: hangup_incompatible_def)

lemma audio_sync_step: "R a b \<Longrightarrow> R a (audio_sync b)"
  unfolding audio_sync_def by (intro basics; simp)

lemmas call_steps = basics set_flag_step clear_flag_step audio_sync_step

lemma note_steps:
  "R a b \<Longrightarrow> R a (note_progress env b)"
  "R a b \<Longrightarrow> R a (note_progress_media env b)"
  unfolding note_progress_def note_progress_media_def by (intro basics; simp)+

lemma mark_ring_ready_step:
  "keeps R env \<Longrightarrow> R a b \<Longrightarrow> R a (snd (switch_channel_perform_mark_ring_ready_value env rv b))"
  unfolding switch_channel_perform_mark_ring_ready_value_def by (intro call_steps note_steps env_steps; simp)

lemma mark_pre_answered_step:
  "keeps R env \<Longrightarrow> R a b \<Longrightarrow> R a (snd (switch_channel_perform_mark_pre_answered env b))"
  unfolding switch_channel_perform_mark_pre_answered_def by (intro call_steps note_steps env_steps; simp)

lemma answer_hooks_step: "keeps R env \<Longrightarrow> R a b \<Longrightarrow> R a (answer_hooks env b)"
  unfolding answer_hooks_def by (intro call_steps env_steps; simp)

lemma mark_answered_step:
  "keeps R env \<Longrightarrow> R a b \<Longrightarrow> R a (snd (switch_channel_perform_mark_answered env b))"
  unfolding switch_channel_perform_mark_answered_def by (intro call_steps env_steps answer_hooks_step; simp)

lemma ring_ready_step:
  "keeps R env \<Longrightarrow> R a b \<Longrightarrow> R a (snd (switch_channel_perform_ring_ready_value env rv b))"
  unfolding switch_channel_perform_ring_ready_value_def
  by (intro call_steps env_steps mark_ring_ready_step hangup_after; simp)

lemma pre_answer_step:
  "keeps R env \<Longrightarrow> R a b \<Longrightarrow> R a (snd (switch_channel_perform_pre_answer env b))"
  unfolding switch_channel_perform_pre_answer_def
  by (intro call_steps env_steps mark_pre_answered_step hangup_after; simp)

lemma answer_delay_step: "R a b \<Longrightarrow> R a (answer_delay env b)"
  unfolding answer_delay_def by (intro basics; simp)

lemma answer_step:
  "keeps R env \<Longrightarrow> R a b \<Longrightarrow> R a (snd (switch_channel_perform_answer env b))"
  unfolding switch_channel_perform_answer_def
  by (intro call_steps env_steps mark_answered_step hangup_after answer_delay_step; simp)

lemmas op_steps = running_state_step callstate_step set_flag_step set_flag_recursive_step clear_flag_step
  clear_flag_recursive_step state_flag_step mark_hold_step

lemmas call_ops = hangup_after(1) mark_ring_ready_step mark_pre_answered_step mark_answered_step ring_ready_step pre_answer_step answer_step

lemma exec_step: "keeps R env \<Longrightarrow> chan_exec env op a = Some b \<Longrightarrow> R a b"
  using op_steps [OF refl] call_ops [OF _ refl] by (cases op) (auto intro: new_state)

lemma run_steps: "list_all (\<lambda>(env, op). keeps R env) ops \<Longrightarrow> chan_run ops a = Some b \<Longrightarrow> R a b"
proof (induction ops arbitrary: a)
  case (Cons x ops)
  obtain env op where x: "x = (env, op)" by (cases x)
  with Cons.prems obtain c where c: "chan_exec env op a = Some c" "chan_run ops c = Some b"
    by (auto split: option.splits)
  show ?case
    using trans [OF exec_step [OF _ c(1)] Cons.IH [OF _ c(2)]] Cons.prems(1) x by simp
qed (simp add: refl)

end

section \<open>A channel that is down stays down\<close>

text \<open>
  \<open>b\<close> is a later moment of the channel \<open>a\<close>: from \<^const>\<open>CS_HANGUP\<close> on the state only goes up and the cause is
  fixed, a call state \<^const>\<open>CCS_HANGUP\<close> is final, and at most one hangup event is fired, and none once the
  channel has been hung up.
\<close>

definition hangups :: "channel \<Rightarrow> nat" where
  "hangups ch = count_list (effects ch) Hangup_Event"

definition later :: "channel \<Rightarrow> channel \<Rightarrow> bool" where
  "later a b \<longleftrightarrow>
     (CS_HANGUP \<le> cstate a \<longrightarrow> cstate a \<le> cstate b \<and> hangup_cause b = hangup_cause a) \<and>
     (callstate a = CCS_HANGUP \<longrightarrow> callstate b = CCS_HANGUP) \<and>
     (ocf_hangup a \<longrightarrow> ocf_hangup b \<and> hangups b = hangups a) \<and>
     (hangups b = hangups a \<or> ocf_hangup b \<and> hangups b = hangups a + 1)"

lemmas state_order = less_eq_channel_state_def less_channel_state_def

lemma state_change_up: "state_change_ok l st \<Longrightarrow> CS_HANGUP \<le> l \<Longrightarrow> l < st \<and> st \<noteq> CS_HANGUP"
  by (cases l) (auto simp: state_change_ok_def state_order)

lemma later_state:
  assumes "switch_channel_perform_set_state st a = Some b"
  shows "later a b"
proof -
  consider "b = a" | "state_change_ok (cstate a) st" "cstate b = st" "callstate b = callstate a"
      "ocf_hangup b = ocf_hangup a" "hangups b = hangups a" "st \<noteq> CS_HANGUP \<Longrightarrow> hangup_cause b = hangup_cause a"
    using assms by (auto simp: switch_channel_perform_set_state_def Let_def emit_def hangups_def split: if_splits)
  then show ?thesis
  proof cases
    case 2
    then show ?thesis using state_change_up [of "cstate a" st] by (auto simp: later_def)
  qed (simp add: later_def)
qed

lemma later_hangup:
  assumes "\<not> ocf_hangup a" "later (a\<lparr>ocf_hangup := True\<rparr>) b" "cstate b < CS_HANGUP" "count_list es Hangup_Event \<le> 1"
  shows "later a (emit es (b\<lparr>cstate := CS_HANGUP, hangup_cause := cause\<rparr>))"
  using assms by (auto simp: later_def hangups_def emit_def)

lemma later_trans:
  assumes "later a b" "later b c"
  shows "later a c"
proof -
  have "cstate a \<le> cstate c \<and> hangup_cause c = hangup_cause a" if h: "CS_HANGUP \<le> cstate a"
  proof -
    have b: "cstate a \<le> cstate b" "hangup_cause b = hangup_cause a" using assms(1) h by (simp_all add: later_def)
    then have "CS_HANGUP \<le> cstate b" using h by (rule_tac order_trans)
    then have "cstate b \<le> cstate c" "hangup_cause c = hangup_cause b" using assms(2) by (simp_all add: later_def)
    then show ?thesis using b by (auto intro: order_trans)
  qed
  moreover have "callstate a = CCS_HANGUP \<longrightarrow> callstate c = CCS_HANGUP" using assms by (simp add: later_def)
  moreover have "(ocf_hangup a \<longrightarrow> ocf_hangup c \<and> hangups c = hangups a) \<and>
      (hangups c = hangups a \<or> ocf_hangup c \<and> hangups c = hangups a + 1)"
    using assms by (cases "ocf_hangup a"; cases "ocf_hangup b") (auto simp: later_def)
  ultimately show ?thesis by (simp add: later_def)
qed

interpretation down: chan_rel later
proof
  show "Hangup_Event \<notin> set es \<Longrightarrow> later a (emit es a)" for es a
    by (simp add: later_def hangups_def emit_def)
  show "later a b \<Longrightarrow> later b c \<Longrightarrow> later a c" for a b c
    by (rule later_trans)
  show "switch_channel_perform_set_state st a = Some b \<Longrightarrow> later a b" for st a b
    by (rule later_state)
  show "\<not> ocf_hangup a \<Longrightarrow> later (a\<lparr>ocf_hangup := True\<rparr>) b \<Longrightarrow> cstate b < CS_HANGUP \<Longrightarrow>
      count_list es Hangup_Event \<le> 1 \<Longrightarrow> later a (emit es (b\<lparr>cstate := CS_HANGUP, hangup_cause := cause\<rparr>))"
    for a b es cause
    by (rule later_hangup)
qed (simp_all add: later_def hangups_def)

text \<open>The call state kept for the device is the channel's, and the state is one of the state machine's.\<close>

definition chan_wf :: "channel \<Rightarrow> bool" where
  "chan_wf ch \<longleftrightarrow> cstate ch \<le> CS_DESTROY \<and>
     (device_node ch = None \<or> map_option fst (device_node ch) = Some (callstate ch))"

lemma wf_state: "switch_channel_perform_set_state st a = Some b \<Longrightarrow> chan_wf a \<Longrightarrow> chan_wf b"
  by (auto simp: switch_channel_perform_set_state_def Let_def chan_wf_def emit_def split: if_splits)

interpretation wf: chan_rel "\<lambda>a b. chan_wf a \<longrightarrow> chan_wf b"
  by unfold_locales
    (auto simp: wf_state, auto simp: chan_wf_def emit_def less_eq_channel_state_def)

section \<open>Histories\<close>

text \<open>
  The histories of a channel: operations one after the other, where whatever the environment does to the
  channel when an operation calls it is a history again.
\<close>

lemma keeps_mono [mono]: "R \<le> S \<Longrightarrow> keeps R env \<longrightarrow> keeps S env"
  unfolding keeps_def by blast

inductive history :: "channel \<Rightarrow> channel \<Rightarrow> bool" where
  start: "history a a"
| operation: "history a b \<Longrightarrow> keeps history env \<Longrightarrow> chan_exec env op b = Some c \<Longrightarrow> history a c"

lemma keeps_and: "keeps (\<lambda>a b. R a b \<and> S a b) env \<Longrightarrow> keeps S env"
  unfolding keeps_def by blast

lemma history_trans: "history b c \<Longrightarrow> history a b \<Longrightarrow> history a c"
proof (induction rule: history.induct)
  case (operation b c env op d)
  have "keeps history env" using operation.IH(2) unfolding keeps_def by blast
  with operation show ?case by (blast intro: history.operation)
qed

lemma history_later: "history a b \<Longrightarrow> later a b"
proof (induction rule: history.induct)
  case (operation a b env op c)
  have "keeps later env" using operation.IH(2) by (rule keeps_and)
  from down.exec_step [OF this operation.hyps(2)] show ?case by (rule later_trans [OF operation.IH(1)])
qed (rule down.refl)

lemma state_none: "st \<le> CS_DESTROY \<longleftrightarrow> st \<noteq> CS_NONE"
  by (cases st) (simp_all add: state_order)

lemma set_state_None:
  assumes "cstate b \<noteq> CS_NONE"
  shows "switch_channel_perform_set_state st b = None \<longleftrightarrow>
    st = CS_NONE \<or> cstate b < CS_HANGUP \<and> st \<noteq> cstate b \<and> \<not> state_change_ok (cstate b) st"
proof (cases "CS_HANGUP \<le> cstate b")
  case True
  then show ?thesis using assms by (simp add: switch_channel_perform_set_state_def Let_def state_none leD)
next
  case False
  then have "cstate b < CS_HANGUP" by simp
  with False show ?thesis using assms by (auto simp: switch_channel_perform_set_state_def Let_def state_none)
qed

lemma history_wf: "history a b \<Longrightarrow> chan_wf a \<longrightarrow> chan_wf b"
proof (induction rule: history.induct)
  case (operation a b env op c)
  have "keeps (\<lambda>a b. chan_wf a \<longrightarrow> chan_wf b) env" using operation.IH(2) by (rule keeps_and)
  from wf.exec_step [OF this operation.hyps(2)] operation.IH(1) show ?case by blast
qed simp

section \<open>Properties\<close>

text \<open>A new channel, and an environment that answers every message and does nothing else.\<close>

definition new_channel :: "call_direction \<Rightarrow> channel" where
  "new_channel dir = \<lparr>direction = dir, logical_direction = dir, cstate = CS_NEW, running_state = CS_NONE, callstate = CCS_DOWN,
     flags = (\<lambda>_. 0), state_flags = (\<lambda>_. 0), private_flags = 0, hangup_cause = 0, ocf_hangup = False, last_hold = 0,
     hold_accum = 0, progress = 0, progress_media = 0, answered_time = 0, hold_records = [], device_node = None, effects = []\<rparr>"

definition quiet_env :: chan_env where
  "quiet_env = \<lparr>time_now = 1, partner = None, variable = (\<lambda>_. None), session_running = True, session_started = True,
     session_in_thread = True, has_partner = False, originator_profile = False, originator_found = False, codecs_ready = True,
     run_hook = (\<lambda>_ ch. ch), receive = (\<lambda>_ ch. (SWITCH_STATUS_SUCCESS, ch)), hangup_state = (\<lambda>ch. ch)\<rparr>"

lemma quiet_keeps: "keeps history quiet_env"
  by (simp add: keeps_def quiet_env_def history.start)

lemma quiet_history: "chan_exec quiet_env op a = Some b \<Longrightarrow> history a b"
  by (rule history.operation [OF history.start quiet_keeps])

text \<open>
  C3: Over any history of a channel, callbacks included: once the state has reached \<^const>\<open>CS_HANGUP\<close> it never
  goes back and the hangup cause never changes, a call state \<^const>\<open>CCS_HANGUP\<close> is final, and the channel fires
  at most one hangup event, and none after it has been hung up.\<close>
theorem channel_down_stays:
  assumes "history a b"
  shows "(if CS_HANGUP \<le> cstate a then cstate a \<le> cstate b \<and> hangup_cause b = hangup_cause a else True) \<and>
    (if callstate a = CCS_HANGUP then callstate b = CCS_HANGUP else True) \<and>
    hangups b \<le> hangups a + (if ocf_hangup a then 0 else 1)"
  using history_later [OF assms] unfolding later_def by auto

lemma channel_down_stays_witness:
  "let a = new_channel SWITCH_CALL_DIRECTION_INBOUND\<lparr>cstate := CS_EXECUTE\<rparr>;
       b = switch_channel_perform_hangup quiet_env ''NORMAL_CLEARING'' SWITCH_CAUSE_NORMAL_CLEARING a
   in cstate b = CS_HANGUP \<and> hangups b = 1 \<and> hangups b \<le> hangups a + 1"
proof -
  define a where "a = new_channel SWITCH_CALL_DIRECTION_INBOUND\<lparr>cstate := CS_EXECUTE\<rparr>"
  define b where "b = switch_channel_perform_hangup quiet_env ''NORMAL_CLEARING'' SWITCH_CAUSE_NORMAL_CLEARING a"
  have "history a b" by (rule quiet_history [where op = "Hangup ''NORMAL_CLEARING'' SWITCH_CAUSE_NORMAL_CLEARING"]) (simp add: b_def)
  note p = channel_down_stays [OF this]
  have "\<not> ocf_hangup a" by (simp add: a_def new_channel_def)
  moreover have "cstate b = CS_HANGUP" "hangups b = 1"
    by (simp_all add: b_def a_def new_channel_def quiet_env_def switch_channel_perform_hangup_def switch_channel_test_flag_def
        switch_channel_clear_flag_def close_hold_def hangup_effects_def emit_def hangups_def Let_def state_order
        CF_LEG_HOLDING_def CF_BLOCK_STATE_def CF_VIDEO_PASSIVE_def CF_DIALPLAN_def CF_ORIGINATOR_def CF_OUTBOUND_def
        CF_RECOVERED_def CF_RECOVERING_def)
  ultimately show ?thesis using p by (simp add: Let_def a_def [symmetric] b_def [symmetric])
qed

text \<open>
  C18: Well-formed channels: over any history the state stays one of the state machine's and the device's call
  state that of the channel, and on such a channel an operation stops in an assertion only when it is
  a change of state that the state machine does not have.\<close>
theorem channel_well_formed:
  assumes "history a b" "chan_wf a"
  shows "chan_wf b \<and> (chan_exec env op b = None \<longleftrightarrow>
    (case op of Set_State st \<Rightarrow> st = CS_NONE \<or> cstate b < CS_HANGUP \<and> st \<noteq> cstate b \<and> \<not> state_change_ok (cstate b) st
     | _ \<Rightarrow> False))"
proof -
  have "chan_wf b" using history_wf [OF assms(1)] assms(2) by simp
  moreover from this have "cstate b \<noteq> CS_NONE" by (auto simp: chan_wf_def state_none)
  ultimately show ?thesis by (cases op) (simp_all add: set_state_None)
qed

lemma channel_well_formed_witness:
  "chan_wf (new_channel SWITCH_CALL_DIRECTION_INBOUND) \<and>
   chan_exec quiet_env (Set_State CS_NONE) (new_channel SWITCH_CALL_DIRECTION_INBOUND) = None \<and>
   chan_exec quiet_env (Set_State CS_INIT) (new_channel SWITCH_CALL_DIRECTION_INBOUND) \<noteq> None"
proof -
  have "chan_wf (new_channel SWITCH_CALL_DIRECTION_INBOUND)"
    by (simp add: chan_wf_def new_channel_def state_order)
  note p = channel_well_formed [OF history.start this]
  show ?thesis using p [of quiet_env "Set_State CS_NONE"] p [of quiet_env "Set_State CS_INIT"]
    by (simp add: new_channel_def state_change_ok_def del: chan_exec.simps)
qed

text \<open>What the nested switch amounts to.\<close>

definition change_allowed :: "channel_state \<Rightarrow> channel_state \<Rightarrow> bool" where
  "change_allowed last_state state =
     (if last_state = CS_NEW \<or> last_state = CS_RESET then True
      else if last_state < CS_HANGUP
      then CS_NEW < state \<and> state < CS_HANGUP \<and> (if state = CS_INIT then last_state = CS_HIBERNATE else True)
      else last_state < state)"

definition moved :: "channel_state \<Rightarrow> channel \<Rightarrow> channel" where
  "moved state ch = emit [Signal_State_Change]
     (ch\<lparr>cstate := state,
         hangup_cause := if state = CS_HANGUP \<and> hangup_cause ch = 0 then SWITCH_CAUSE_NORMAL_CLEARING else hangup_cause ch\<rparr>)"

lemma change_allowed_eq:
  "last_state \<noteq> state \<Longrightarrow> last_state \<le> CS_DESTROY \<Longrightarrow> state \<le> CS_DESTROY \<Longrightarrow>
   state_change_ok last_state state \<longleftrightarrow> change_allowed last_state state"
  by (cases last_state; cases state) (simp_all add: state_change_ok_def change_allowed_def state_order)

lemma set_state_by_rule:
  "switch_channel_perform_set_state state ch =
     (if state = CS_NONE \<or> cstate ch = CS_NONE then None
      else if state = cstate ch \<or> CS_HANGUP \<le> cstate ch \<and> state < cstate ch then Some ch
      else if change_allowed (cstate ch) state then Some (moved state ch) else None)"
proof (cases "state = CS_NONE \<or> cstate ch = CS_NONE \<or> state = cstate ch")
  case True
  then show ?thesis by (auto simp: switch_channel_perform_set_state_def Let_def state_none)
next
  case False
  then have chg: "state_change_ok (cstate ch) state \<longleftrightarrow> change_allowed (cstate ch) state"
    using change_allowed_eq [of "cstate ch" state] by (auto simp: state_none)
  have up: "change_allowed (cstate ch) state" if "CS_HANGUP \<le> cstate ch" "\<not> state < cstate ch"
    using that False by (auto simp: change_allowed_def)
  have "switch_channel_perform_set_state state ch =
      (if CS_HANGUP \<le> cstate ch \<and> state < cstate ch then Some ch
       else if change_allowed (cstate ch) state then Some (moved state ch) else if CS_HANGUP \<le> cstate ch then Some ch else None)"
    using False chg
    by (simp add: switch_channel_perform_set_state_def moved_def emit_def Let_def state_none eq_commute [of state])
  then show ?thesis using False up by simp
qed

text \<open>
  C27: \<^verbatim>\<open>switch_channel_perform_set_state\<close> with its nested switch is the same as the rule: no change
  stays, a channel that is down only goes up, a new or reset channel goes anywhere, another running channel goes
  to every running state but \<^const>\<open>CS_NEW\<close>, and to \<^const>\<open>CS_INIT\<close> only from \<^const>\<open>CS_HIBERNATE\<close>, and everything else, also
  a direct change of a running channel to \<^const>\<open>CS_HANGUP\<close>, fails the assertion.\<close>
theorem channel_set_state_rule:
  "switch_channel_perform_set_state state ch =
     (if state = CS_NONE \<or> cstate ch = CS_NONE then None
      else if state = cstate ch \<or> CS_HANGUP \<le> cstate ch \<and> state < cstate ch then Some ch
      else if change_allowed (cstate ch) state then Some (moved state ch) else None)"
  by (rule set_state_by_rule)

end
