(* ===== verification/Handlers.thy ===== *)
theory Handlers
  imports Prelude
begin

text \<open>
  The table of state handlers of a channel, \<^verbatim>\<open>src/switch_channel.c\<close>: an array of pointers to handler tables
  and the index of its next free place.  A handler is known by the number that stands for its address; which
  handlers are sticky is a parameter.  \<open>None\<close> is an access outside of the array.  The abstract
  table is the list of handlers in the order of their registration.
\<close>

section \<open>Model\<close>

definition SWITCH_MAX_STATE_HANDLERS :: nat where "SWITCH_MAX_STATE_HANDLERS = 30"

type_synonym handler = nat

record handler_table =
  state_handlers :: "handler option list"
  state_handler_index :: nat

definition no_handlers :: handler_table where
  "no_handlers = \<lparr>state_handlers = replicate SWITCH_MAX_STATE_HANDLERS None, state_handler_index = 0\<rparr>"

text \<open>The place of a handler in the array, looked for from the first.\<close>

fun find_handler :: "handler option list \<Rightarrow> handler \<Rightarrow> nat \<Rightarrow> nat option" where
  "find_handler [] h x = None"
| "find_handler (e # es) h x = (if e = Some h then Some x else find_handler es h (x + 1))"

definition switch_channel_add_state_handler :: "handler_table \<Rightarrow> handler \<Rightarrow> (int \<times> handler_table) option" where
  "switch_channel_add_state_handler t h =
     (case find_handler (state_handlers t) h 0 of
        Some x \<Rightarrow> Some (int x, t)
      | None \<Rightarrow>
          (let index = state_handler_index t;
               t = t\<lparr>state_handler_index := index + 1\<rparr>
           in if state_handler_index t \<ge> SWITCH_MAX_STATE_HANDLERS then Some (- 1, t)
              else if index < length (state_handlers t)
              then Some (int index, t\<lparr>state_handlers := (state_handlers t)[index := Some h]\<rparr>)
              else None))"

definition switch_channel_get_state_handler :: "handler_table \<Rightarrow> int \<Rightarrow> handler option option" where
  "switch_channel_get_state_handler t index =
     (if index \<ge> int SWITCH_MAX_STATE_HANDLERS \<or> index > int (state_handler_index t) then Some None
      else if 0 \<le> index \<and> nat index < length (state_handlers t) then Some (state_handlers t ! nat index)
      else None)"

text \<open>
  The loops of \<^verbatim>\<open>switch_channel_clear_state_handler\<close> over the first \<open>i\<close> places: what \<open>keep\<close> keeps goes to \<open>new_handlers\<close>,
  an array of the same size, at the index that is counted anew.
\<close>

fun keep_loop :: "(handler option \<Rightarrow> bool) \<Rightarrow> handler option list \<Rightarrow> nat list \<Rightarrow>
    handler option list \<times> nat \<Rightarrow> (handler option list \<times> nat) option" where
  "keep_loop keep hs [] (new_handlers, n) = Some (new_handlers, n)"
| "keep_loop keep hs (index # ixs) (new_handlers, n) =
     (if index \<ge> length hs then None
      else if keep (hs ! index)
      then (if n \<ge> length new_handlers then None
            else keep_loop keep hs ixs (new_handlers[n := hs ! index], n + 1))
      else keep_loop keep hs ixs (new_handlers, n))"

fun copy_back :: "handler option list \<Rightarrow> nat list \<Rightarrow> handler option list \<Rightarrow> handler option list option" where
  "copy_back new_handlers [] hs = Some hs"
| "copy_back new_handlers (index # ixs) hs =
     (if index \<ge> length new_handlers \<or> index \<ge> length hs then None
      else copy_back new_handlers ixs (hs[index := new_handlers ! index]))"

definition kept :: "(handler \<Rightarrow> bool) \<Rightarrow> handler option \<Rightarrow> handler option \<Rightarrow> bool" where
  "kept sticky state_handler e =
     (case state_handler of
        Some h \<Rightarrow> e \<noteq> Some h
      | None \<Rightarrow> (case e of None \<Rightarrow> False | Some h \<Rightarrow> sticky h))"

definition switch_channel_clear_state_handler ::
  "(handler \<Rightarrow> bool) \<Rightarrow> handler option \<Rightarrow> handler_table \<Rightarrow> handler_table option" where
  "switch_channel_clear_state_handler sticky state_handler t =
     (case keep_loop (kept sticky state_handler) (state_handlers t) [0..<state_handler_index t]
             (replicate SWITCH_MAX_STATE_HANDLERS None, 0) of
        None \<Rightarrow> None
      | Some (new_handlers, n) \<Rightarrow>
          (case copy_back new_handlers [0..<n] (replicate (length (state_handlers t)) None) of
             None \<Rightarrow> None
           | Some hs \<Rightarrow> Some \<lparr>state_handlers = hs, state_handler_index = n\<rparr>))"

section \<open>The list of handlers\<close>

text \<open>A table that holds the list \<open>l\<close>: at most one place of the array is never used.\<close>

definition holds :: "handler_table \<Rightarrow> handler list \<Rightarrow> bool" where
  "holds t l \<longleftrightarrow> distinct l \<and> length l < SWITCH_MAX_STATE_HANDLERS \<and> state_handler_index t = length l \<and>
     state_handlers t = map Some l @ replicate (SWITCH_MAX_STATE_HANDLERS - length l) None"

datatype handler_op = Add handler | Clear "handler option"

text \<open>The specification on lists: with the answer of an addition.\<close>

fun list_op :: "(handler \<Rightarrow> bool) \<Rightarrow> handler_op \<Rightarrow> handler list \<Rightarrow> handler list" where
  "list_op sticky (Add h) l = (if h \<in> set l then l else l @ [h])"
| "list_op sticky (Clear (Some h)) l = filter (\<lambda>x. x \<noteq> h) l"
| "list_op sticky (Clear None) l = filter sticky l"

fun table_op :: "(handler \<Rightarrow> bool) \<Rightarrow> handler_op \<Rightarrow> handler_table \<Rightarrow> handler_table option" where
  "table_op sticky (Add h) t = map_option snd (switch_channel_add_state_handler t h)"
| "table_op sticky (Clear h) t = switch_channel_clear_state_handler sticky h t"

lemma find_handler_map:
  "find_handler (map Some l @ replicate k None) h x = (if h \<in> set l then Some (x + length (takeWhile (\<lambda>y. y \<noteq> h) l)) else None)"
proof (induction l arbitrary: x)
  case Nil
  then show ?case by (induction k arbitrary: x) simp_all
qed simp

lemma update_slot: "k > 0 \<Longrightarrow> (map Some l @ replicate k None)[length l := Some h] = map Some (l @ [h]) @ replicate (k - 1) None"
  by (cases k) (simp_all add: list_update_append)

lemma add_holds:
  assumes "holds t l"
  shows "h \<in> set l \<Longrightarrow> \<exists>i < length l. l ! i = h \<and> switch_channel_add_state_handler t h = Some (int i, t)"
    and "h \<notin> set l \<Longrightarrow> length l + 1 < SWITCH_MAX_STATE_HANDLERS \<Longrightarrow>
      \<exists>t'. switch_channel_add_state_handler t h = Some (int (length l), t') \<and> holds t' (l @ [h])"
proof -
  assume h: "h \<in> set l"
  let ?i = "length (takeWhile (\<lambda>y. y \<noteq> h) l)"
  have "?i < length l" using h by (induction l) auto
  moreover from this have "l ! ?i = h" using nth_length_takeWhile [of "\<lambda>y. y \<noteq> h" l] by simp
  ultimately show "\<exists>i < length l. l ! i = h \<and> switch_channel_add_state_handler t h = Some (int i, t)"
    using assms h by (auto simp: switch_channel_add_state_handler_def holds_def find_handler_map)
next
  assume "h \<notin> set l" "length l + 1 < SWITCH_MAX_STATE_HANDLERS"
  then show "\<exists>t'. switch_channel_add_state_handler t h = Some (int (length l), t') \<and> holds t' (l @ [h])"
    using assms update_slot [of "SWITCH_MAX_STATE_HANDLERS - length l" l h]
    by (simp add: switch_channel_add_state_handler_def holds_def find_handler_map Let_def)
qed

lemma keep_loop_filter:
  assumes "i \<le> length l" "length (filter (keep \<circ> Some) (take i l)) = n" "n + (length l - i) \<le> m" "hs = map Some l @ rest"
  shows "keep_loop keep hs [i..<length l] (map Some (filter (keep \<circ> Some) (take i l)) @ replicate (m - n) None, n) =
    Some (map Some (filter (keep \<circ> Some) l) @ replicate (m - length (filter (keep \<circ> Some) l)) None, length (filter (keep \<circ> Some) l))"
  using assms
proof (induction "length l - i" arbitrary: i n)
  case (Suc d)
  then have i: "i < length l" by simp
  have up: "[i..<length l] = i # [Suc i..<length l]" using i by (simp add: upt_conv_Cons)
  have hs: "hs ! i = Some (l ! i)" "i < length hs" using i Suc.prems(4) by (simp_all add: nth_append)
  have tk: "take (Suc i) l = take i l @ [l ! i]" using i by (simp add: take_Suc_conv_app_nth)
  show ?case
  proof (cases "keep (Some (l ! i))")
    case True
    have len: "length (filter (keep \<circ> Some) (take (Suc i) l)) = n + 1" using Suc.prems(2) True tk by simp
    have "m - n > 0" using Suc.prems(3) i by linarith
    then have "(map Some (filter (keep \<circ> Some) (take i l)) @ replicate (m - n) None)[n := Some (l ! i)] =
        map Some (filter (keep \<circ> Some) (take (Suc i) l)) @ replicate (m - (n + 1)) None"
      using update_slot [of "m - n" "filter (keep \<circ> Some) (take i l)" "l ! i"] Suc.prems(2) True tk by simp
    then show ?thesis
      using Suc.hyps(1) [of "Suc i" "n + 1"] Suc.hyps(2) Suc.prems len True hs up \<open>m - n > 0\<close> i by simp
  next
    case False
    then have "filter (keep \<circ> Some) (take (Suc i) l) = filter (keep \<circ> Some) (take i l)" using tk by simp
    then show ?thesis
      using Suc.hyps(1) [of "Suc i" n] Suc.hyps(2) Suc.prems False hs up i by simp
  qed
qed simp

lemma copy_back_prefix:
  assumes "i \<le> length l" "length l \<le> m"
  shows "copy_back (map Some l @ replicate (m - length l) None) [i..<length l] (map Some (take i l) @ replicate (m - i) None) =
    Some (map Some l @ replicate (m - length l) None)"
  using assms
proof (induction "length l - i" arbitrary: i)
  case (Suc d)
  then have i: "i < length l" by simp
  have up: "[i..<length l] = i # [Suc i..<length l]" using i by (simp add: upt_conv_Cons)
  have "(map Some (take i l) @ replicate (m - i) None)[i := Some (l ! i)] = map Some (take (Suc i) l) @ replicate (m - Suc i) None"
    using update_slot [of "m - i" "take i l" "l ! i"] i Suc.prems by (simp add: take_Suc_conv_app_nth)
  then show ?case using Suc.hyps(1) [of "Suc i"] Suc.hyps(2) Suc.prems up i by (simp add: nth_append)
qed simp

lemma clear_holds:
  assumes "holds t l"
  shows "\<exists>t'. switch_channel_clear_state_handler sticky h t = Some t' \<and> holds t' (filter (kept sticky h \<circ> Some) l)"
proof -
  let ?keep = "kept sticky h" and ?m = SWITCH_MAX_STATE_HANDLERS
  let ?l = "filter (?keep \<circ> Some) l"
  have le: "length ?l \<le> length l" by (rule length_filter_le)
  also have "\<dots> < ?m" using assms by (simp add: holds_def)
  finally have lt: "length ?l < ?m" .
  have l: "length l < ?m" "distinct l" "state_handler_index t = length l"
    "state_handlers t = map Some l @ replicate (?m - length l) None"
    using assms by (simp_all add: holds_def)
  have k: "keep_loop ?keep (state_handlers t) [0..<length l] (replicate ?m None, 0) =
      Some (map Some ?l @ replicate (?m - length ?l) None, length ?l)"
    using keep_loop_filter [of 0 l ?keep 0 ?m "state_handlers t"] l by simp
  have "copy_back (map Some ?l @ replicate (?m - length ?l) None) [0..<length ?l] (replicate ?m None) =
      Some (map Some ?l @ replicate (?m - length ?l) None)"
    using copy_back_prefix [of 0 ?l ?m] le l(1) by simp
  then show ?thesis
    using k l lt by (simp add: switch_channel_clear_state_handler_def holds_def)
qed

lemma kept_filter: "filter (kept sticky h \<circ> Some) l = list_op sticky (Clear h) l"
  by (cases h) (simp_all add: kept_def comp_def)

lemma holds_get:
  "holds t l \<Longrightarrow> switch_channel_get_state_handler t (int i) = Some (if i < length l then Some (l ! i) else None)"
  by (auto simp: switch_channel_get_state_handler_def holds_def nth_append)

section \<open>Properties\<close>

text \<open>
  C22: The table of state handlers is the list of handlers in the order of registration: on a table that holds a list
  shorter than its limit an addition and a clearing never leave the array and give the table of the list
  that the specification says, and the places of that list are exactly what lookups give.\<close>
theorem handlers_refine_list:
  assumes "holds t l" "case op of Add h \<Rightarrow> h \<in> set l \<or> length l + 1 < SWITCH_MAX_STATE_HANDLERS | Clear h \<Rightarrow> True"
  shows "\<exists>t'. table_op sticky op t = Some t' \<and> holds t' (list_op sticky op l) \<and>
    (\<forall>i :: nat. switch_channel_get_state_handler t' (int i) =
       Some (if i < length (list_op sticky op l) then Some (list_op sticky op l ! i) else None))"
proof -
  have "\<exists>t'. table_op sticky op t = Some t' \<and> holds t' (list_op sticky op l)"
  proof (cases op)
    case (Add h)
    then show ?thesis using add_holds [OF assms(1), of h] assms by auto
  next
    case (Clear h)
    then show ?thesis using clear_holds [OF assms(1), of sticky h] kept_filter by auto
  qed
  then show ?thesis using holds_get by blast
qed

lemma no_handlers_holds: "holds no_handlers []"
  by (simp add: holds_def no_handlers_def SWITCH_MAX_STATE_HANDLERS_def)

lemma handlers_refine_list_witness:
  "\<exists>t'. table_op (\<lambda>h. h = 7) (Add 7) no_handlers = Some t' \<and> holds t' [7] \<and>
    switch_channel_get_state_handler t' 0 = Some (Some 7)"
proof -
  from handlers_refine_list [OF no_handlers_holds, of "Add 7" "\<lambda>h. h = 7"]
  obtain t' where t: "table_op (\<lambda>h. h = 7) (Add 7) no_handlers = Some t'" "holds t' [7]"
    and g: "\<forall>i :: nat. switch_channel_get_state_handler t' (int i) = Some (if i < 1 then Some ([7] ! i) else None)"
    by (auto simp: SWITCH_MAX_STATE_HANDLERS_def)
  show ?thesis using t g [rule_format, of 0] by (intro exI [of _ t'] conjI) simp_all
qed

text \<open>
  C40: When the table is full, with 29 handlers in its 30 places, an addition fails with -1 but counts the index up all the
  same; after two failed additions every clearing reads the array past its end.\<close>
theorem handlers_index_past_end:
  assumes "holds t l" "length l + 1 = SWITCH_MAX_STATE_HANDLERS" "h \<notin> set l"
  shows "\<exists>t1 t2. switch_channel_add_state_handler t h = Some (- 1, t1) \<and>
    switch_channel_add_state_handler t1 h = Some (- 1, t2) \<and> SWITCH_MAX_STATE_HANDLERS < state_handler_index t2 \<and>
    switch_channel_clear_state_handler sticky g t2 = None"
proof -
  let ?t = "\<lambda>n. t\<lparr>state_handler_index := n\<rparr>"
  have t: "find_handler (state_handlers t) h 0 = None" "length (state_handlers t) = SWITCH_MAX_STATE_HANDLERS"
    "state_handler_index t = length l"
    using assms by (simp_all add: holds_def find_handler_map)
  have out: "keep_loop keep hs (ixs @ [length hs]) s = None" for keep ixs s and hs :: "handler option list"
    by (induction keep hs ixs s rule: keep_loop.induct) auto
  have up: "[0..<Suc SWITCH_MAX_STATE_HANDLERS] = [0..<SWITCH_MAX_STATE_HANDLERS] @ [length (state_handlers t)]"
    using t(2) by simp
  have "switch_channel_clear_state_handler sticky g (?t (SWITCH_MAX_STATE_HANDLERS + 1)) = None"
    using out [of "kept sticky g" "state_handlers t" "[0..<SWITCH_MAX_STATE_HANDLERS]"]
    by (simp add: switch_channel_clear_state_handler_def up del: upt_Suc)
  moreover have "switch_channel_add_state_handler t h = Some (- 1, ?t SWITCH_MAX_STATE_HANDLERS)"
    "switch_channel_add_state_handler (?t SWITCH_MAX_STATE_HANDLERS) h = Some (- 1, ?t (SWITCH_MAX_STATE_HANDLERS + 1))"
    using t assms(2) by (simp_all add: switch_channel_add_state_handler_def Let_def)
  ultimately show ?thesis by force
qed

lemma handlers_index_past_end_witness:
  "let t = \<lparr>state_handlers = map Some [0..<29] @ [None], state_handler_index = 29\<rparr>
   in \<exists>t1 t2. switch_channel_add_state_handler t 99 = Some (- 1, t1) \<and> switch_channel_add_state_handler t1 99 = Some (- 1, t2) \<and>
     switch_channel_clear_state_handler (\<lambda>h. False) None t2 = None"
proof -
  have "holds \<lparr>state_handlers = map Some [0..<29] @ [None], state_handler_index = 29\<rparr> [0..<29]"
    by (simp add: holds_def SWITCH_MAX_STATE_HANDLERS_def)
  from handlers_index_past_end [OF this, of 99 "\<lambda>h. False" None] show ?thesis
    unfolding Let_def by (auto simp: SWITCH_MAX_STATE_HANDLERS_def)
qed

end
