(* ===== verification/Sessionrun.thy ===== *)
theory Sessionrun
  imports Channel Handlers Separate
begin

text \<open>
  The thread of a session, \<^verbatim>\<open>src/switch_core_state_machine.c\<close>: the loop that runs the handlers of each state a channel
  goes through, from creation to destruction.  Handlers (those of the channel, of the core and of the endpoint) are functions that
  act on the session and return a status, and are parameters; so are the sleep of the thread, during which other
  threads act on the channel, the messages and events that are parsed, and the values of variables.  The calls that are
  made and the events that are fired are recorded in order.  \<open>None\<close> is a failed assertion or an access out of bounds.
\<close>

section \<open>The session\<close>

definition CF_REDIRECT :: flag where "CF_REDIRECT = 8"
definition CF_REPORTING :: flag where "CF_REPORTING = 40"
definition CF_THREAD_SLEEPING :: flag where "CF_THREAD_SLEEPING = 46"
definition CF_EARLY_HANGUP :: flag where "CF_EARLY_HANGUP = 54"
definition CF_RECOVERING_BRIDGE :: flag where "CF_RECOVERING_BRIDGE = 87"
definition CF_NO_CDR :: flag where "CF_NO_CDR = 90"
definition CF_STATE_REPEAT :: flag where "CF_STATE_REPEAT = 165"

definition SWITCH_CAUSE_WRONG_CALL_STATE :: nat where "SWITCH_CAUSE_WRONG_CALL_STATE = 101"
definition SWITCH_CAUSE_LOSE_RACE :: nat where "SWITCH_CAUSE_LOSE_RACE = 702"

datatype who = Channel_Handler handler | Core_Handler handler | Driver | Standard

datatype sess_event =
    Called who channel_state
  | Create_Event | Originate_Event | Hangup_Complete_Event
  | Presence_State channel_state | Presence_Cancelled
  | Refresh_Video | Key_Frame | Wake_Video | Hangup_Bookkeeping nat | Api_Hook string | Device_Hangup | Clear_Device

record session =
  chan :: channel
  handlers :: handler_table
  ssf_hangup :: bool
  ssf_thread_running :: bool
  calls :: "sess_event list"

definition noted :: "sess_event list \<Rightarrow> session \<Rightarrow> session" where
  "noted es s = s\<lparr>calls := calls s @ es\<rparr>"

definition on_chan :: "(channel \<Rightarrow> channel) \<Rightarrow> session \<Rightarrow> session" where
  "on_chan f s = s\<lparr>chan := f (chan s)\<rparr>"

text \<open>A change of state may fail an assertion.\<close>

definition set_state :: "channel_state \<Rightarrow> session \<Rightarrow> session option" where
  "set_state st s = map_option (\<lambda>ch. s\<lparr>chan := ch\<rparr>) (switch_channel_perform_set_state st (chan s))"

text \<open>
  \<open>on_state st h\<close> is the function the table \<open>h\<close> has for the state \<open>st\<close>, if it has one; \<open>standard\<close> stands for the standard
  behaviour of the states whose behaviour is not below.
\<close>

record sess_env =
  cenv :: "session \<Rightarrow> chan_env"
  get_var :: "string \<Rightarrow> session \<Rightarrow> string option"
  pre_exec :: "handler \<Rightarrow> bool"
  on_state :: "channel_state \<Rightarrow> handler \<Rightarrow> (session \<Rightarrow> switch_status \<times> session) option"
  driver :: "channel_state \<Rightarrow> (session \<Rightarrow> switch_status \<times> session) option"
  core_table :: handler_table
  standard :: "channel_state \<Rightarrow> session \<Rightarrow> session"
  parse_messages :: "session \<Rightarrow> session"
  parse_events :: "session \<Rightarrow> session"
  io_state_run :: "(session \<Rightarrow> switch_status \<times> session) option"
  state_run_hooks :: "(session \<Rightarrow> switch_status \<times> session) list"
  wait_unblocked :: "session \<Rightarrow> session"
  cond_wait :: "session \<Rightarrow> session"
  expand_headers :: "string option \<Rightarrow> session \<Rightarrow> string option"
  api_execute :: "string \<Rightarrow> string option \<Rightarrow> bool \<Rightarrow> session \<Rightarrow> session"
  core_early_hangup :: bool
  own_thread :: bool
  str2cause :: "string \<Rightarrow> nat"
  has_originator :: bool
  has_originatee :: bool

definition switch_core_get_state_handler :: "handler_table \<Rightarrow> int \<Rightarrow> handler option option" where
  "switch_core_get_state_handler t index =
     (if index \<ge> int SWITCH_MAX_STATE_HANDLERS \<or> index > int (state_handler_index t) then Some None
      else if 0 \<le> index \<and> nat index < length (state_handlers t) then Some (state_handlers t ! nat index)
      else None)"

section \<open>The handlers of a state\<close>

text \<open>\<open>core\<close> selects the handlers of the core or of the channel.\<close>

definition get_handler :: "bool \<Rightarrow> sess_env \<Rightarrow> session \<Rightarrow> nat \<Rightarrow> handler option option" where
  "get_handler core env s index =
     (if core then switch_core_get_state_handler (core_table env) (int index)
      else switch_channel_get_state_handler (handlers s) (int index))"

lemma get_handler_index: "get_handler core env s index = Some (Some h) \<Longrightarrow> index < SWITCH_MAX_STATE_HANDLERS"
  by (auto simp: get_handler_def switch_core_get_state_handler_def switch_channel_get_state_handler_def split: if_splits)

text \<open>
  One of the four loops of \<^verbatim>\<open>STATE_MACRO\<close>: the handlers with or without the pre-execution flag, until one refuses.
\<close>

function handler_loop :: "bool \<Rightarrow> bool \<Rightarrow> sess_env \<Rightarrow> channel_state \<Rightarrow> nat \<Rightarrow> bool \<Rightarrow> session \<Rightarrow> (bool \<times> session) option" where
  "handler_loop core pre env name index proceed s =
     (case get_handler core env s index of
        None \<Rightarrow> None
      | Some None \<Rightarrow> Some (proceed, s)
      | Some (Some h) \<Rightarrow>
          if pre_exec env h \<noteq> pre then handler_loop core pre env name (index + 1) proceed s
          else
            (case on_state env name h of
               None \<Rightarrow> handler_loop core pre env name (index + 1) True s
             | Some f \<Rightarrow>
                 (let (status, s) = f (noted [Called (if core then Core_Handler h else Channel_Handler h) name] s)
                  in if status = SWITCH_STATUS_SUCCESS then handler_loop core pre env name (index + 1) True s
                     else Some (False, s))))"
  by pat_completeness auto
termination
  by (relation "measure (\<lambda>(core, pre, env, name, index, proceed, s). SWITCH_MAX_STATE_HANDLERS - index)")
    (auto dest: get_handler_index)

declare handler_loop.simps [simp del]

definition run_handlers :: "bool \<Rightarrow> bool \<Rightarrow> bool \<Rightarrow> sess_env \<Rightarrow> channel_state \<Rightarrow> bool \<Rightarrow> session \<Rightarrow> (bool \<times> session) option" where
  "run_handlers do_extra_handlers core pre env name proceed s =
     (if do_extra_handlers then handler_loop core pre env name 0 proceed s else Some (proceed, s))"

definition call_driver :: "sess_env \<Rightarrow> channel_state \<Rightarrow> session \<Rightarrow> bool \<times> session" where
  "call_driver env name s =
     (case driver env name of None \<Rightarrow> (True, s)
      | Some f \<Rightarrow> (let (status, s) = f (noted [Called Driver name] s) in (status = SWITCH_STATUS_SUCCESS, s)))"

definition switch_core_standard_on_init :: "sess_env \<Rightarrow> session \<Rightarrow> session option" where
  "switch_core_standard_on_init env s =
     (let flag = switch_channel_test_flag (chan s);
          target = (if flag CF_RECOVERING_BRIDGE then CS_RESET else if flag CF_RECOVERING then CS_EXECUTE else CS_ROUTING)
      in map_option (\<lambda>s. on_chan (switch_channel_clear_flag (cenv env s) CF_RECOVERING) s) (set_state target s))"

definition standard_on :: "sess_env \<Rightarrow> channel_state \<Rightarrow> session \<Rightarrow> session option" where
  "standard_on env name s =
     (let s = noted [Called Standard name] s
      in if name = CS_INIT then switch_core_standard_on_init env s
         else if name \<in> {CS_EXCHANGE_MEDIA, CS_SOFT_EXECUTE, CS_CONSUME_MEDIA, CS_HIBERNATE, CS_REPORTING, CS_DESTROY} then Some s
         else Some (standard env name s))"

definition state_macro :: "sess_env \<Rightarrow> bool \<Rightarrow> channel_state \<Rightarrow> channel_state \<Rightarrow> session \<Rightarrow> session option" where
  "state_macro env do_extra_handlers name state s =
     (let midstate = state;
          s = (if state < CS_HANGUP \<and> callstate (chan s) = CCS_UNHELD
               then on_chan (switch_channel_perform_set_callstate CCS_ACTIVE) s else s);
          s = noted [Refresh_Video, Key_Frame] s
      in case run_handlers do_extra_handlers False True env name True s of None \<Rightarrow> None | Some (p1, s) \<Rightarrow>
        (case run_handlers do_extra_handlers True True env name True s of None \<Rightarrow> None | Some (p2, s) \<Rightarrow>
          (let (go, s) = call_driver env name s
           in if \<not> go then Some s
              else case run_handlers do_extra_handlers False False env name p2 s of None \<Rightarrow> None | Some (p3, s) \<Rightarrow>
                (case run_handlers do_extra_handlers True False env name True s of None \<Rightarrow> None | Some (p4, s) \<Rightarrow>
                  if p1 \<and> p2 \<and> p3 \<and> p4 \<and> midstate = cstate (chan s) then standard_on env name s else Some s))))"

section \<open>Hanging up, reporting, destroying\<close>

text \<open>A command and its argument are separated by a double colon or else by the first space.\<close>

definition split_blank :: "string \<Rightarrow> string \<times> string option" where
  "split_blank cmd =
     (takeWhile (\<lambda>c. c \<noteq> BLANK) cmd,
      case dropWhile (\<lambda>c. c \<noteq> BLANK) cmd of [] \<Rightarrow> None | _ # rest \<Rightarrow> Some rest)"

definition split_hook :: "string \<Rightarrow> string \<times> string option" where
  "split_hook cmd =
     (case dropWhile (\<lambda>c. c \<noteq> CHR '':'') cmd of
        _ # c # rest \<Rightarrow>
          if c = CHR '':'' then (takeWhile (\<lambda>c. c \<noteq> CHR '':'') cmd, Some rest) else split_blank cmd
      | _ \<Rightarrow> split_blank cmd)"

definition api_hook :: "sess_env \<Rightarrow> string \<Rightarrow> bool \<Rightarrow> session \<Rightarrow> session" where
  "api_hook env hook_var use_session s =
     (if hook_var = [] then s
      else (let (cmd, arg) = split_hook hook_var
            in api_execute env cmd (expand_headers env arg s) use_session (noted [Api_Hook cmd] s)))"

definition hook_variable :: "sess_env \<Rightarrow> string \<Rightarrow> session \<Rightarrow> session" where
  "hook_variable env v s =
     (case get_var env v s of None \<Rightarrow> s
      | Some hook_var \<Rightarrow> api_hook env hook_var (switch_true (get_var env ''session_in_hangup_hook'' s)) s)"

definition switch_core_session_hangup_state :: "sess_env \<Rightarrow> bool \<Rightarrow> session \<Rightarrow> session option" where
  "switch_core_session_hangup_state env force s =
     (let cause = hangup_cause (chan s);
          state = cstate (chan s)
      in if \<not> force \<and> \<not> switch_channel_test_flag (chan s) CF_EARLY_HANGUP \<and> \<not> core_early_hangup env then Some s
         else if \<not> force \<and> \<not> own_thread env then Some s
         else if ssf_hangup s then Some s
         else
           (let s = noted [Hangup_Bookkeeping cause] s;
                s = on_chan (switch_channel_perform_set_callstate CCS_HANGUP) s
            in case state_macro env True CS_HANGUP state s of None \<Rightarrow> None | Some s \<Rightarrow>
              (let s = hook_variable env ''api_hangup_hook'' s;
                   s = noted [Device_Hangup] s
               in Some (s\<lparr>ssf_hangup := True\<rparr>))))"

definition cdr_wanted :: "sess_env \<Rightarrow> session \<Rightarrow> bool" where
  "cdr_wanted env s =
     (case get_var env ''process_cdr'' s of None \<Rightarrow> True
      | Some v \<Rightarrow>
          if v = [] then True
          else if strcaseeq v ''a_only'' then \<not> has_originator env
          else if strcaseeq v ''b_only'' then \<not> has_originatee env
          else switch_true (Some v))"

text \<open>The causes for which no call record is made.\<close>

definition skipped_cause :: "sess_env \<Rightarrow> nat \<Rightarrow> session \<Rightarrow> bool option" where
  "skipped_cause env cause s =
     (case get_var env ''skip_cdr_causes'' s of None \<Rightarrow> Some False
      | Some v \<Rightarrow>
          if v = [] then Some False
          else map_option (list_ex (\<lambda>x. str2cause env x = cause)) (switch_separate_string (Some v) (CHR ''|'') 128))"

definition switch_core_session_reporting_state :: "sess_env \<Rightarrow> session \<Rightarrow> session option" where
  "switch_core_session_reporting_state env s =
     (let state = cstate (chan s);
          cause = hangup_cause (chan s);
          s0 = s
      in if switch_channel_test_flag (chan s) CF_REPORTING then Some s
         else
           (let s = on_chan (switch_channel_set_flag (cenv env s) CF_REPORTING) s
            in case skipped_cause env cause s0 of None \<Rightarrow> None | Some skip \<Rightarrow>
              (let do_extra_handlers = (cdr_wanted env s0 \<and> \<not> skip \<and> \<not> switch_channel_test_flag (chan s) CF_NO_CDR)
               in case state_macro env do_extra_handlers CS_REPORTING state s of None \<Rightarrow> None | Some s \<Rightarrow>
                    Some (noted [Hangup_Complete_Event] (hook_variable env ''api_reporting_hook'' s)))))"

definition switch_core_session_destroy_state :: "sess_env \<Rightarrow> session \<Rightarrow> session option" where
  "switch_core_session_destroy_state env s =
     (let s = on_chan (switch_channel_perform_set_callstate CCS_DOWN) s;
          s = on_chan (switch_channel_perform_set_running_state (cenv env s) CS_DESTROY) s;
          s = on_chan (switch_channel_clear_flag (cenv env s) CF_TRANSFER) s;
          s = on_chan (switch_channel_clear_flag (cenv env s) CF_REDIRECT) s
      in case state_macro env True CS_DESTROY CS_DESTROY s of None \<Rightarrow> None | Some s \<Rightarrow> Some (noted [Clear_Device] s))"

section \<open>The loop\<close>

definition check_presence :: "session \<Rightarrow> session" where
  "check_presence s =
     (let state = running_state (chan s)
      in if state = CS_ROUTING \<or> state = CS_HANGUP
         then noted [if hangup_cause (chan s) = SWITCH_CAUSE_LOSE_RACE then Presence_Cancelled else Presence_State state] s
         else s)"

fun run_state_hooks :: "(session \<Rightarrow> switch_status \<times> session) list \<Rightarrow> session \<Rightarrow> session" where
  "run_state_hooks [] s = s"
| "run_state_hooks (f # fs) s =
     (let (status, s) = f s in if status \<noteq> SWITCH_STATUS_SUCCESS then s else run_state_hooks fs s)"

definition enter_state :: "sess_env \<Rightarrow> channel_state \<Rightarrow> session \<Rightarrow> session" where
  "enter_state env state s =
     (let s = on_chan (switch_channel_perform_set_running_state (cenv env s) state) s;
          s = on_chan (switch_channel_clear_flag (cenv env s) CF_TRANSFER) s;
          s = on_chan (switch_channel_clear_flag (cenv env s) CF_REDIRECT) s;
          s = parse_messages env s;
          (rstatus, s) = (case io_state_run env of None \<Rightarrow> (SWITCH_STATUS_SUCCESS, s) | Some f \<Rightarrow> f s)
      in if rstatus = SWITCH_STATUS_SUCCESS then run_state_hooks (state_run_hooks env) s else s)"

definition announce_init :: "session \<Rightarrow> session" where
  "announce_init s =
     noted (Create_Event # (if direction (chan s) = SWITCH_CALL_DIRECTION_OUTBOUND then [Originate_Event] else [])) s"

text \<open>What is done in a state; the second result says whether the thread ends.\<close>

definition do_state :: "sess_env \<Rightarrow> channel_state \<Rightarrow> session \<Rightarrow> (session \<times> bool) option" where
  "do_state env state s =
     (case state of
        CS_NEW \<Rightarrow> Some (s, False)
      | CS_DESTROY \<Rightarrow> Some (s, True)
      | CS_REPORTING \<Rightarrow>
          (case switch_core_session_reporting_state env s of None \<Rightarrow> None
           | Some s \<Rightarrow> map_option (\<lambda>s. (s, True)) (set_state CS_DESTROY s))
      | CS_HANGUP \<Rightarrow>
          (case switch_core_session_hangup_state env True s of None \<Rightarrow> None
           | Some s \<Rightarrow>
               (let s = (if switch_channel_test_flag (chan s) CF_VIDEO then noted [Wake_Video] s else s)
                in map_option (\<lambda>s. (s, False)) (set_state CS_REPORTING s)))
      | CS_INIT \<Rightarrow>
          map_option (\<lambda>s. (announce_init s, False)) (state_macro env True CS_INIT state s)
      | CS_NONE \<Rightarrow> None
      | _ \<Rightarrow> map_option (\<lambda>s. (s, False)) (state_macro env True state state s))"

definition sleep_state :: "sess_env \<Rightarrow> session \<Rightarrow> session" where
  "sleep_state env s =
     (let s = parse_events env s;
          s = (if switch_channel_test_flag (chan s) CF_STATE_REPEAT
               then on_chan (switch_channel_clear_flag (cenv env s) CF_STATE_REPEAT) s
               else if cstate (chan s) = running_state (chan s)
               then (let s = on_chan (switch_channel_set_flag (cenv env s) CF_THREAD_SLEEPING) s;
                         s = cond_wait env s
                     in on_chan (switch_channel_clear_flag (cenv env s) CF_THREAD_SLEEPING) s)
               else s)
      in parse_events env s)"

definition idle_new :: "sess_env \<Rightarrow> u32 \<Rightarrow> session \<Rightarrow> u32 \<times> session" where
  "idle_new env new_loops s =
     (let s = parse_events env s;
          new_loops = new_loops - 1
      in (new_loops,
          if new_loops = 0
          then (let s = on_chan (switch_channel_set_flag (cenv env s) CF_NO_CDR) s
                in on_chan (switch_channel_perform_hangup (cenv env s) ''WRONG_CALL_STATE'' SWITCH_CAUSE_WRONG_CALL_STATE) s)
          else s))"

definition end_of_round :: "sess_env \<Rightarrow> u32 \<Rightarrow> session \<Rightarrow> u32 \<times> session" where
  "end_of_round env new_loops s =
     (let endstate = cstate (chan s)
      in if endstate = running_state (chan s)
         then (if endstate = CS_NEW then idle_new env new_loops s else (new_loops, sleep_state env s))
         else (new_loops, s))"

text \<open>One round of the loop; the result is a session to go on with, or the session the thread ends with.\<close>

datatype round = Again u32 session | Done session

definition unblocked :: "sess_env \<Rightarrow> session \<Rightarrow> session" where
  "unblocked env s = (if switch_channel_test_flag (chan s) CF_BLOCK_STATE then wait_unblocked env s else s)"

definition session_round :: "sess_env \<Rightarrow> u32 \<Rightarrow> session \<Rightarrow> round option" where
  "session_round env new_loops s =
     (if cstate (chan s) = CS_DESTROY then Some (Done s)
      else
        (let s = unblocked env s;
             state = cstate (chan s)
         in if state = CS_DESTROY then Some (Done s)
            else if state \<noteq> running_state (chan s) \<or> state \<ge> CS_HANGUP
            then (case do_state env state (enter_state env state s) of None \<Rightarrow> None
                  | Some (s, ends) \<Rightarrow>
                      if ends then Some (Done s)
                      else (let (n, s) = end_of_round env new_loops (check_presence s) in Some (Again n s)))
            else (let (n, s) = end_of_round env new_loops s in Some (Again n s))))"

text \<open>The rounds, with fuel: the inner result \<open>None\<close> says that the fuel was used up.\<close>

fun session_rounds :: "nat \<Rightarrow> sess_env \<Rightarrow> u32 \<Rightarrow> session \<Rightarrow> session option option" where
  "session_rounds 0 env n s = Some None"
| "session_rounds (Suc fuel) env n s =
     (case session_round env n s of None \<Rightarrow> None
      | Some (Done s) \<Rightarrow> Some (Some s)
      | Some (Again n s) \<Rightarrow> session_rounds fuel env n s)"

definition switch_core_session_run :: "nat \<Rightarrow> sess_env \<Rightarrow> session \<Rightarrow> session option option" where
  "switch_core_session_run fuel env s =
     map_option (map_option (\<lambda>s. s\<lparr>ssf_thread_running := False\<rparr>))
       (session_rounds fuel env 500 (s\<lparr>ssf_thread_running := True\<rparr>))"

section \<open>What the parameters may do\<close>

definition tbl_ok :: "handler_table \<Rightarrow> bool" where
  "tbl_ok t \<longleftrightarrow> length (state_handlers t) = SWITCH_MAX_STATE_HANDLERS"

text \<open>How often the hangup handlers were started.\<close>

definition hangup_starts :: "session \<Rightarrow> nat" where
  "hangup_starts s = length (filter (\<lambda>e. case e of Hangup_Bookkeeping c \<Rightarrow> True | _ \<Rightarrow> False) (calls s))"

text \<open>
  \<open>steps a b\<close>: from \<open>a\<close> to \<open>b\<close> the channel has gone through a history, the array of handlers has kept its size, and
  the state machine has not been run.
\<close>

definition steps :: "session \<Rightarrow> session \<Rightarrow> bool" where
  "steps a b \<longleftrightarrow> history (chan a) (chan b) \<and> (tbl_ok (handlers a) \<longrightarrow> tbl_ok (handlers b)) \<and>
     ssf_hangup b = ssf_hangup a \<and> hangup_starts b = hangup_starts a"

definition callback :: "(session \<Rightarrow> switch_status \<times> session) \<Rightarrow> bool" where
  "callback f \<longleftrightarrow> (\<forall>s. steps s (snd (f s)))"

text \<open>
  The parameters act on the session only through operations of its channel and on the table of its handlers, and the list of causes
  without call record is not cut short by an escape character.
\<close>

definition env_ok :: "sess_env \<Rightarrow> bool" where
  "env_ok env \<longleftrightarrow>
     (\<forall>s. keeps history (cenv env s)) \<and> tbl_ok (core_table env) \<and>
     (\<forall>st h. pred_option callback (on_state env st h)) \<and> (\<forall>st. pred_option callback (driver env st)) \<and>
     pred_option callback (io_state_run env) \<and> list_all callback (state_run_hooks env) \<and>
     (\<forall>st s. steps s (standard env st s)) \<and> (\<forall>s. steps s (parse_messages env s)) \<and> (\<forall>s. steps s (parse_events env s)) \<and>
     (\<forall>s. steps s (wait_unblocked env s)) \<and> (\<forall>s. steps s (cond_wait env s)) \<and>
     (\<forall>cmd arg u s. steps s (api_execute env cmd arg u s)) \<and>
     (\<forall>s v. get_var env ''skip_cdr_causes'' s = Some v \<longrightarrow> switch_separate_string (Some v) (CHR ''|'') 128 \<noteq> None)"

lemma steps_refl: "steps a a"
  by (simp add: steps_def history.start)

lemma steps_trans: "steps a b \<Longrightarrow> steps b c \<Longrightarrow> steps a c"
  unfolding steps_def using history_trans by auto

lemma steps_history: "steps a b \<Longrightarrow> history (chan a) (chan b)"
  by (simp add: steps_def)

lemma noted_steps: "hangup_starts (s\<lparr>calls := es\<rparr>) = 0 \<Longrightarrow> steps s (noted es s)"
  by (simp add: steps_def noted_def hangup_starts_def history.start)

lemma chan_op: "keeps history e \<Longrightarrow> chan_exec e op ch = Some ch' \<Longrightarrow> history ch ch'"
  by (rule history.operation [OF history.start])

lemma on_chan_steps:
  assumes "keeps history e" "\<And>ch. chan_exec e op ch = Some (f ch)"
  shows "steps s (on_chan f s)"
  using chan_op [OF assms(1), of op "chan s" "f (chan s)"] assms(2) by (simp add: steps_def on_chan_def hangup_starts_def)

lemma set_state_steps: "keeps history e \<Longrightarrow> set_state st s = Some s' \<Longrightarrow> steps s s'"
  using chan_op [of e "Set_State st" "chan s"] by (auto simp: set_state_def steps_def hangup_starts_def)

lemma env_keeps: "env_ok env \<Longrightarrow> keeps history (cenv env s)"
  by (simp add: env_ok_def)

lemma chan_steps:
  assumes "env_ok env"
  shows "steps s (on_chan (switch_channel_perform_set_callstate cs) s)"
    "steps s (on_chan (switch_channel_perform_set_running_state (cenv env t) st) s)"
    "steps s (on_chan (switch_channel_clear_flag (cenv env t) fl) s)"
    "steps s (on_chan (switch_channel_set_flag_value (cenv env t) fl v) s)"
    "steps s (on_chan (switch_channel_perform_hangup (cenv env t) n c) s)"
  using on_chan_steps [OF env_keeps [OF assms], where op = "Set_Callstate cs"]
    on_chan_steps [OF env_keeps [OF assms, of t], where op = "Set_Running_State st"]
    on_chan_steps [OF env_keeps [OF assms, of t], where op = "Clear_Flag fl"]
    on_chan_steps [OF env_keeps [OF assms, of t], where op = "Set_Flag fl v"]
    on_chan_steps [OF env_keeps [OF assms, of t], where op = "Hangup n c"]
  by simp_all

lemmas chan_after = chan_steps [THEN steps_trans [rotated]]

lemma noted_after: "steps a s \<Longrightarrow> hangup_starts (s\<lparr>calls := es\<rparr>) = 0 \<Longrightarrow> steps a (noted es s)"
  by (rule steps_trans [OF _ noted_steps])

lemma callback_steps: "pred_option callback x \<Longrightarrow> x = Some f \<Longrightarrow> f s = (st, s') \<Longrightarrow> steps s s'"
  unfolding callback_def by (metis option.pred_inject(2) snd_conv)

section \<open>The handlers of a state\<close>

lemma get_handler_Some: "tbl_ok (core_table env) \<Longrightarrow> tbl_ok (handlers s) \<Longrightarrow> get_handler core env s index \<noteq> None"
  by (auto simp: get_handler_def switch_core_get_state_handler_def switch_channel_get_state_handler_def tbl_ok_def)

lemma handler_loop_steps:
  assumes "env_ok env" "tbl_ok (handlers s)"
  shows "\<exists>p s'. handler_loop core pre env name index proceed s = Some (p, s') \<and> steps s s'"
  using assms
proof (induction core pre env name index proceed s rule: handler_loop.induct)
  case (1 core pre env name index proceed s)
  note unfold = handler_loop.simps [of core pre env name index proceed s]
  have tc: "tbl_ok (core_table env)" using 1 by (simp add: env_ok_def)
  then obtain g where g: "get_handler core env s index = Some g" using get_handler_Some 1 by blast
  show ?case
  proof (cases g)
    case None
    then show ?thesis using g steps_refl by (simp add: unfold)
  next
    case h: (Some h)
    show ?thesis
    proof (cases "pre_exec env h \<noteq> pre")
      case True
      then show ?thesis using 1 g h by (simp add: unfold)
    next
      case pre: False
      show ?thesis
      proof (cases "on_state env name h")
        case None
        then show ?thesis using 1 g h pre by (simp add: unfold)
      next
        case f: (Some f)
        let ?t = "noted [Called (if core then Core_Handler h else Channel_Handler h) name] s"
        obtain st s1 where s1: "f ?t = (st, s1)" by fastforce
        have "steps ?t s1"
          by (rule callback_steps [OF _ f s1]) (use 1 in \<open>simp add: env_ok_def\<close>)
        then have k: "steps s s1"
          by (rule steps_trans [OF noted_steps, rotated]) (simp add: hangup_starts_def)
        then have "tbl_ok (handlers s1)" using 1 by (simp add: steps_def)
        then show ?thesis
          using "1.IH"(3) [OF g h pre f s1 [symmetric] refl] "1.prems" g h pre f s1 k steps_trans [OF k]
          by (cases "st = SWITCH_STATUS_SUCCESS") (auto simp: unfold)
      qed
    qed
  qed
qed

lemma run_handlers_steps:
  assumes "env_ok env" "steps a s" "tbl_ok (handlers a)"
  obtains p s' where "run_handlers x core pre env name proceed s = Some (p, s')" "steps a s'" "tbl_ok (handlers s')"
proof -
  have t: "tbl_ok (handlers s)" using assms(2,3) by (simp add: steps_def)
  obtain p s' where r: "run_handlers x core pre env name proceed s = Some (p, s')" "steps s s'"
    using handler_loop_steps [OF assms(1) t, of core pre name 0 proceed] steps_refl
    by (cases x) (auto simp: run_handlers_def)
  moreover have "tbl_ok (handlers s')" using r(2) t by (simp add: steps_def)
  ultimately show ?thesis using that steps_trans [OF assms(2) r(2)] by blast
qed

lemma call_driver_steps:
  assumes "env_ok env" "steps a s"
  shows "steps a (snd (call_driver env name s))"
proof (cases "driver env name")
  case (Some f)
  let ?t = "noted [Called Driver name] s"
  obtain st s1 where s1: "f ?t = (st, s1)" by fastforce
  have "steps a ?t" by (rule noted_after [OF assms(2)]) (simp add: hangup_starts_def)
  moreover have "steps ?t s1"
    by (rule callback_steps [OF _ Some s1]) (use assms(1) in \<open>simp add: env_ok_def\<close>)
  ultimately show ?thesis using Some s1 steps_trans by (simp add: call_driver_def)
qed (use assms in \<open>simp add: call_driver_def\<close>)

lemma standard_steps:
  assumes "env_ok env" "steps a s" "name = CS_INIT \<Longrightarrow> cstate (chan s) = CS_INIT"
  shows "\<exists>s'. standard_on env name s = Some s' \<and> steps a s'"
proof -
  let ?s = "noted [Called Standard name] s"
  have n: "steps a ?s" by (rule noted_after [OF assms(2)]) (simp add: hangup_starts_def)
  show ?thesis
  proof (cases "name = CS_INIT")
    case True
    let ?fl = "switch_channel_test_flag (chan ?s)"
    let ?st = "if ?fl CF_RECOVERING_BRIDGE then CS_RESET else if ?fl CF_RECOVERING then CS_EXECUTE else CS_ROUTING"
    have "cstate (chan ?s) = CS_INIT" using assms(3) True by (simp add: noted_def)
    then have "switch_channel_perform_set_state ?st (chan ?s) \<noteq> None"
      by (simp add: set_state_None state_change_ok_def)
    then obtain t where t: "set_state ?st ?s = Some t" by (auto simp: set_state_def)
    have "steps a t" using steps_trans [OF n set_state_steps [OF env_keeps [OF assms(1)] t]] .
    then show ?thesis
      using t True chan_after(3) [OF assms(1)] by (auto simp: standard_on_def switch_core_standard_on_init_def Let_def)
  next
    case False
    have "steps a (standard env name ?s)"
      using assms(1) steps_trans [OF n] by (simp add: env_ok_def)
    then show ?thesis using False n by (auto simp: standard_on_def Let_def)
  qed
qed

lemma state_macro_steps:
  assumes "env_ok env" "steps a s" "tbl_ok (handlers a)" "name = CS_INIT \<Longrightarrow> state = CS_INIT"
  shows "\<exists>s'. state_macro env x name state s = Some s' \<and> steps a s'"
proof -
  define s0 where "s0 = noted [Refresh_Video, Key_Frame]
    (if state < CS_HANGUP \<and> callstate (chan s) = CCS_UNHELD
     then on_chan (switch_channel_perform_set_callstate CCS_ACTIVE) s else s)"
  have "steps a s0"
    unfolding s0_def using chan_after(1) [OF assms(1,2)] assms(2)
    by (intro noted_after) (simp_all add: hangup_starts_def)
  then obtain p1 s1 where 1: "run_handlers x False True env name True s0 = Some (p1, s1)" "steps a s1" "tbl_ok (handlers s1)"
    using run_handlers_steps [OF assms(1) _ assms(3)] by blast
  then obtain p2 s2 where 2: "run_handlers x True True env name True s1 = Some (p2, s2)" "steps a s2" "tbl_ok (handlers s2)"
    using run_handlers_steps [OF assms(1) _ assms(3)] by blast
  obtain go s3 where 3: "call_driver env name s2 = (go, s3)" by fastforce
  with call_driver_steps [OF assms(1) 2(2), of name] have s3: "steps a s3" by simp
  then obtain p4 s4 where 4: "run_handlers x False False env name p2 s3 = Some (p4, s4)" "steps a s4" "tbl_ok (handlers s4)"
    using run_handlers_steps [OF assms(1) _ assms(3)] by blast
  then obtain p5 s5 where 5: "run_handlers x True False env name True s4 = Some (p5, s5)" "steps a s5" "tbl_ok (handlers s5)"
    using run_handlers_steps [OF assms(1) _ assms(3)] by blast
  have "state_macro env x name state s = (if \<not> go then Some s3
      else if p1 \<and> p2 \<and> p4 \<and> p5 \<and> state = cstate (chan s5) then standard_on env name s5 else Some s5)"
    by (simp add: state_macro_def s0_def [symmetric] 1(1) 2(1) 3 4(1) 5(1))
  then show ?thesis
    using s3 5(2) standard_steps [OF assms(1) 5(2), of name] assms(4) by auto
qed

section \<open>Hanging up and reporting\<close>

lemma hook_variable_steps:
  assumes "env_ok env" "steps a s"
  shows "steps a (hook_variable env v s)"
proof -
  have "steps a (api_hook env hv u s)" for hv u
  proof -
    obtain cmd arg where c: "split_hook hv = (cmd, arg)" by fastforce
    have "steps a (noted [Api_Hook cmd] s)" by (rule noted_after [OF assms(2)]) (simp add: hangup_starts_def)
    moreover have "steps t (api_execute env cmd e u t)" for e t using assms(1) by (simp add: env_ok_def)
    ultimately show ?thesis using assms(2) steps_trans c by (auto simp: api_hook_def)
  qed
  then show ?thesis using assms(2) by (simp add: hook_variable_def split: option.split)
qed

lemma hangup_state_forced:
  assumes "env_ok env" "tbl_ok (handlers s)" "CS_HANGUP \<le> cstate (chan s)"
  shows "\<exists>s'. switch_core_session_hangup_state env True s = Some s' \<and> history (chan s) (chan s') \<and> tbl_ok (handlers s') \<and>
    ssf_hangup s' \<and> hangup_starts s' = hangup_starts s + (if ssf_hangup s then 0 else 1)"
proof (cases "ssf_hangup s")
  case True
  then show ?thesis using assms(2) history.start by (simp add: switch_core_session_hangup_state_def Let_def)
next
  case False
  let ?s = "noted [Hangup_Bookkeeping (hangup_cause (chan s))] s"
  let ?t = "on_chan (switch_channel_perform_set_callstate CCS_HANGUP) ?s"
  have b: "hangup_starts ?s = hangup_starts s + 1" "chan ?s = chan s" "handlers ?s = handlers s"
    by (simp_all add: noted_def hangup_starts_def)
  have "steps ?s ?t" by (rule chan_steps [OF assms(1)])
  moreover have "tbl_ok (handlers ?s)" using assms(2) b(3) by simp
  ultimately obtain u where u: "state_macro env True CS_HANGUP (cstate (chan s)) ?t = Some u" "steps ?s u"
    using state_macro_steps [OF assms(1), of ?s ?t CS_HANGUP] by auto
  let ?v = "noted [Device_Hangup] (hook_variable env ''api_hangup_hook'' u)"
  have v: "steps ?s ?v"
    by (rule noted_after [OF hook_variable_steps [OF assms(1) u(2)]]) (simp add: hangup_starts_def)
  have "switch_core_session_hangup_state env True s = Some (?v\<lparr>ssf_hangup := True\<rparr>)"
    using False u(1) by (simp add: switch_core_session_hangup_state_def Let_def)
  then show ?thesis using v b False assms(2) by (simp add: steps_def hangup_starts_def)
qed

lemma skipped_cause_Some:
  assumes "env_ok env"
  shows "\<exists>skip. skipped_cause env c s = Some skip"
proof (cases "get_var env ''skip_cdr_causes'' s")
  case (Some v)
  then have "switch_separate_string (Some v) (CHR ''|'') 128 \<noteq> None" using assms unfolding env_ok_def by blast
  then show ?thesis using Some by (auto simp: skipped_cause_def)
qed (auto simp: skipped_cause_def)

lemma reporting_steps:
  assumes "env_ok env" "tbl_ok (handlers s)"
  shows "\<exists>s'. switch_core_session_reporting_state env s = Some s' \<and> steps s s'"
proof (cases "switch_channel_test_flag (chan s) CF_REPORTING")
  case True
  then show ?thesis using steps_refl by (simp add: switch_core_session_reporting_state_def Let_def)
next
  case False
  obtain skip where skip: "skipped_cause env (hangup_cause (chan s)) s = Some skip"
    using skipped_cause_Some [OF assms(1)] by blast
  define x where "x t \<longleftrightarrow> cdr_wanted env s \<and> \<not> skip \<and> \<not> switch_channel_test_flag (chan t) CF_NO_CDR" for t :: session
  let ?t = "on_chan (switch_channel_set_flag (cenv env s) CF_REPORTING) s"
  obtain u where u: "state_macro env (x ?t) CS_REPORTING (cstate (chan s)) ?t = Some u" "steps s u"
    using state_macro_steps [where name = CS_REPORTING and x = "x ?t" and s = ?t and state = "cstate (chan s)",
        OF assms(1) chan_steps(4) [OF assms(1)] assms(2)] by auto
  have "steps s (noted [Hangup_Complete_Event] (hook_variable env ''api_reporting_hook'' u))"
    by (rule noted_after [OF hook_variable_steps [OF assms(1) u(2)]]) (simp add: hangup_starts_def)
  then show ?thesis
    using False skip u(1) by (simp add: switch_core_session_reporting_state_def x_def Let_def)
qed

section \<open>The loop\<close>

lemma down_up: "history a b \<Longrightarrow> CS_HANGUP \<le> cstate a \<Longrightarrow> cstate a \<le> cstate b"
  using history_later [of a b] by (simp add: later_def)

lemma steps_up: "steps a b \<Longrightarrow> CS_HANGUP \<le> cstate (chan a) \<Longrightarrow> cstate (chan a) \<le> cstate (chan b)"
  unfolding steps_def using down_up by blast

lemma set_state_down:
  assumes "chan_wf (chan s)" "CS_HANGUP \<le> cstate (chan s)" "st \<noteq> CS_NONE"
  shows "\<exists>s'. set_state st s = Some s' \<and> st \<le> cstate (chan s')"
proof -
  have wf: "cstate (chan s) \<noteq> CS_NONE" using assms(1) by (auto simp: chan_wf_def state_none)
  have "\<not> cstate (chan s) < CS_HANGUP" using assms(2) by simp
  then obtain ch where ch: "switch_channel_perform_set_state st (chan s) = Some ch"
    using set_state_None [OF wf, of st] assms(3) by (cases "switch_channel_perform_set_state st (chan s)") auto
  moreover have "st \<le> cstate ch"
  proof (cases "st \<le> cstate (chan s)")
    case True
    then show ?thesis using later_state [OF ch] assms(2) by (auto simp: later_def intro: order_trans)
  next
    case False
    then have "change_allowed (cstate (chan s)) st" using assms(2) by (auto simp: change_allowed_def)
    then show ?thesis using False ch wf assms(3)
      by (auto simp: set_state_by_rule moved_def emit_def split: if_splits)
  qed
  ultimately show ?thesis by (simp add: set_state_def)
qed

definition sess_ok :: "session \<Rightarrow> bool" where
  "sess_ok s \<longleftrightarrow> chan_wf (chan s) \<and> tbl_ok (handlers s)"

lemma steps_ok: "steps a b \<Longrightarrow> sess_ok a \<Longrightarrow> sess_ok b"
  unfolding steps_def sess_ok_def using history_wf by blast

lemma run_state_hooks_steps: "list_all callback fs \<Longrightarrow> steps a s \<Longrightarrow> steps a (run_state_hooks fs s)"
proof (induction fs arbitrary: s)
  case (Cons f fs)
  obtain st s1 where s1: "f s = (st, s1)" by fastforce
  have "steps s s1" using callback_steps [of "Some f" f s st s1] Cons.prems(1) s1 by simp
  then have "steps a s1" using steps_trans [OF Cons.prems(2)] by blast
  then show ?case using Cons s1 by simp
qed simp

lemma enter_state_steps:
  assumes "env_ok env"
  shows "steps s (enter_state env state s)"
proof -
  define t where "t = on_chan (switch_channel_perform_set_running_state (cenv env s) state) s"
  define u where "u = on_chan (switch_channel_clear_flag (cenv env t) CF_TRANSFER) t"
  define v where "v = parse_messages env (on_chan (switch_channel_clear_flag (cenv env u) CF_REDIRECT) u)"
  have "steps s t" "steps t u" "steps u (on_chan (switch_channel_clear_flag (cenv env u) CF_REDIRECT) u)"
    unfolding t_def u_def by (rule chan_steps [OF assms])+
  moreover have "steps w (parse_messages env w)" for w using assms by (simp add: env_ok_def)
  ultimately have v: "steps s v" unfolding v_def by (blast intro: steps_trans)
  define w where "w = (case io_state_run env of None \<Rightarrow> (SWITCH_STATUS_SUCCESS, v) | Some f \<Rightarrow> f v)"
  have "pred_option callback (io_state_run env)" using assms by (simp add: env_ok_def)
  then have "steps v (snd w)"
    unfolding w_def using steps_refl by (cases "io_state_run env") (simp_all add: callback_def)
  then have w: "steps s (snd w)" by (rule steps_trans [OF v])
  have "enter_state env state s = (if fst w = SWITCH_STATUS_SUCCESS then run_state_hooks (state_run_hooks env) (snd w) else snd w)"
    unfolding enter_state_def Let_def t_def [symmetric] u_def [symmetric] v_def [symmetric] w_def [symmetric]
    by (simp add: case_prod_unfold)
  moreover have "steps s (run_state_hooks (state_run_hooks env) (snd w))"
    by (rule run_state_hooks_steps [OF _ w]) (use assms in \<open>simp add: env_ok_def\<close>)
  ultimately show ?thesis using w by simp
qed

lemma check_presence_steps: "steps s (check_presence s)"
  using steps_refl noted_steps by (simp add: check_presence_def hangup_starts_def Let_def)

lemma sleep_state_steps:
  assumes "env_ok env"
  shows "steps s (sleep_state env s)"
proof -
  have "steps w (parse_events env w)" "steps w (cond_wait env w)" for w using assms by (simp_all add: env_ok_def)
  then have p: "steps a w \<Longrightarrow> steps a (parse_events env w)" "steps a w \<Longrightarrow> steps a (cond_wait env w)" for a w
    using steps_trans by blast+
  show ?thesis
    unfolding sleep_state_def Let_def
    by (simp add: p steps_refl chan_after(3,4) [OF assms])
qed

lemma end_of_round_steps:
  assumes "env_ok env"
  shows "steps s (snd (end_of_round env n s))"
proof -
  have p: "steps s (parse_events env s)" using assms by (simp add: env_ok_def)
  have "steps s (snd (idle_new env n s))"
    using p chan_after(4,5) [OF assms] by (simp add: idle_new_def Let_def)
  then show ?thesis
    using sleep_state_steps [OF assms] steps_refl by (simp add: end_of_round_def Let_def)
qed

lemma unblocked_steps: "env_ok env \<Longrightarrow> steps s (unblocked env s)"
  using steps_refl by (simp add: unblocked_def env_ok_def)

text \<open>What one state does: \<open>starts\<close> says that it starts the hangup handlers.\<close>

definition starts :: "channel_state \<Rightarrow> session \<Rightarrow> nat" where
  "starts state s = (if state = CS_HANGUP \<and> \<not> ssf_hangup s then 1 else 0)"

lemma do_state_down:
  assumes "env_ok env" "sess_ok s" "CS_HANGUP \<le> state" "state \<le> cstate (chan s)"
  shows "\<exists>s' e. do_state env state s = Some (s', e) \<and> history (chan s) (chan s') \<and> tbl_ok (handlers s') \<and>
    (if state = CS_HANGUP then \<not> e \<and> CS_REPORTING \<le> cstate (chan s') \<and> ssf_hangup s'
     else e \<and> CS_DESTROY \<le> cstate (chan s') \<and> ssf_hangup s' = ssf_hangup s) \<and>
    hangup_starts s' = hangup_starts s + starts state s"
proof -
  have wf: "chan_wf (chan s)" "tbl_ok (handlers s)" using assms(2) by (simp_all add: sess_ok_def)
  have dn: "CS_HANGUP \<le> cstate (chan s)" using assms(3,4) by (rule order_trans)
  have "state \<noteq> CS_NONE" using assms(4) wf(1) by (auto simp: chan_wf_def state_order)
  then consider "state = CS_HANGUP" | "state = CS_REPORTING" | "state = CS_DESTROY"
    using assms(3) by (cases state) (simp_all add: state_order)
  then show ?thesis
  proof cases
    case 1
    obtain t where t: "switch_core_session_hangup_state env True s = Some t" "history (chan s) (chan t)" "tbl_ok (handlers t)"
        "ssf_hangup t" "hangup_starts t = hangup_starts s + (if ssf_hangup s then 0 else 1)"
      using hangup_state_forced [OF assms(1) wf(2) dn] by blast
    define u where "u = (if switch_channel_test_flag (chan t) CF_VIDEO then noted [Wake_Video] t else t)"
    have u: "chan u = chan t" "handlers u = handlers t" "ssf_hangup u = ssf_hangup t" "hangup_starts u = hangup_starts t"
      by (simp_all add: u_def noted_def hangup_starts_def)
    have "chan_wf (chan u)" "CS_HANGUP \<le> cstate (chan u)"
      using history_wf [OF t(2)] wf(1) down_up [OF t(2) dn] dn u(1) by auto
    then obtain v where v: "set_state CS_REPORTING u = Some v" "CS_REPORTING \<le> cstate (chan v)"
      using set_state_down [of u CS_REPORTING] by auto
    have uv: "steps u v" using set_state_steps [OF env_keeps [OF assms(1)] v(1)] .
    have "history (chan s) (chan v)" using history_trans [OF steps_history [OF uv]] t(2) u(1) by simp
    moreover have "do_state env state s = Some (v, False)"
      using 1 t(1) v(1) by (simp add: do_state_def u_def [symmetric])
    ultimately show ?thesis using 1 uv u t v(2) by (auto simp: steps_def starts_def)
  next
    case 2
    obtain t where t: "switch_core_session_reporting_state env s = Some t" "steps s t"
      using reporting_steps [OF assms(1) wf(2)] by blast
    have "chan_wf (chan t)" "CS_HANGUP \<le> cstate (chan t)"
      using steps_ok [OF t(2) assms(2)] order_trans [OF dn steps_up [OF t(2) dn]] by (simp_all add: sess_ok_def)
    then obtain v where v: "set_state CS_DESTROY t = Some v" "CS_DESTROY \<le> cstate (chan v)"
      using set_state_down [of t CS_DESTROY] by auto
    have sv: "steps s v" using steps_trans [OF t(2) set_state_steps [OF env_keeps [OF assms(1)] v(1)]] .
    have "do_state env state s = Some (v, True)" using 2 t(1) v(1) by (simp add: do_state_def)
    then show ?thesis using 2 sv v(2) wf(2) by (auto simp: steps_def starts_def)
  next
    case 3
    then show ?thesis using assms(4) wf(2) history.start by (auto simp: do_state_def starts_def)
  qed
qed

lemma do_state_running:
  assumes "env_ok env" "sess_ok s" "state < CS_HANGUP"
  shows "\<exists>s'. do_state env state s = Some (s', False) \<and> steps s s'"
proof -
  have t: "tbl_ok (handlers s)" using assms(2) by (simp add: sess_ok_def)
  have m: "\<exists>s'. state_macro env True state state s = Some s' \<and> steps s s'"
    using state_macro_steps [OF assms(1) steps_refl t] by blast
  have "steps a (announce_init b)" if "steps a b" for a b
    unfolding announce_init_def by (rule noted_after [OF that]) (simp add: hangup_starts_def)
  then show ?thesis
    using m assms(3) steps_refl by (cases state) (auto simp: do_state_def state_order)
qed

lemma destroyed: "chan_wf c \<Longrightarrow> CS_DESTROY \<le> cstate c \<Longrightarrow> cstate c = CS_DESTROY"
  by (auto simp: chan_wf_def)

text \<open>A round on a channel that is down.\<close>

lemma round_unfold:
  assumes "cstate (chan s) \<noteq> CS_DESTROY" "state = cstate (chan (unblocked env s))" "state \<noteq> CS_DESTROY"
    "state \<noteq> running_state (chan (unblocked env s)) \<or> CS_HANGUP \<le> state"
  shows "session_round env n s = (case do_state env state (enter_state env state (unblocked env s)) of None \<Rightarrow> None
    | Some (s, ends) \<Rightarrow> if ends then Some (Done s)
        else Some (case end_of_round env n (check_presence s) of (n, s) \<Rightarrow> Again n s))"
  using assms(1,3,4) unfolding assms(2)
  by (auto simp: session_round_def Let_def case_prod_unfold split: option.split)

lemma round_down:
  assumes "env_ok env" "sess_ok s" "CS_HANGUP \<le> cstate (chan s)"
  defines "state \<equiv> cstate (chan (unblocked env s))"
  shows "if state = CS_HANGUP
    then \<exists>n' s'. session_round env n s = Some (Again n' s') \<and> sess_ok s' \<and> history (chan s) (chan s') \<and>
      CS_REPORTING \<le> cstate (chan s') \<and> ssf_hangup s' \<and> hangup_starts s' = hangup_starts s + (if ssf_hangup s then 0 else 1)
    else \<exists>s'. session_round env n s = Some (Done s') \<and> cstate (chan s') = CS_DESTROY \<and> history (chan s) (chan s') \<and>
      ssf_hangup s' = ssf_hangup s \<and> hangup_starts s' = hangup_starts s"
proof -
  let ?u = "unblocked env s" and ?v = "enter_state env state (unblocked env s)"
  have u: "steps s ?u" by (rule unblocked_steps [OF assms(1)])
  have uv: "steps ?u ?v" by (rule enter_state_steps [OF assms(1)])
  have v: "steps s ?v" by (rule steps_trans [OF u uv])
  have vok: "sess_ok ?v" by (rule steps_ok [OF v assms(2)])
  have dn: "CS_HANGUP \<le> state" using order_trans [OF assms(3) steps_up [OF u assms(3)]] by (simp add: state_def)
  have le: "state \<le> cstate (chan ?v)" using steps_up [OF uv] dn by (simp add: state_def)
  show ?thesis
  proof (cases "cstate (chan s) = CS_DESTROY \<or> state = CS_DESTROY")
    case True
    have wf: "chan_wf (chan ?u)" using steps_ok [OF u assms(2)] by (simp add: sess_ok_def)
    have "state = CS_DESTROY"
    proof (cases "state = CS_DESTROY")
      case False
      with True have "cstate (chan s) = CS_DESTROY" by simp
      then have "CS_DESTROY \<le> state" using steps_up [OF u assms(3)] by (simp add: state_def)
      then show ?thesis using wf by (simp add: chan_wf_def state_def)
    qed
    then show ?thesis using u history.start by (auto simp: session_round_def state_def steps_def Let_def)
  next
    case False
    then have r: "session_round env n s = (case do_state env state ?v of None \<Rightarrow> None
        | Some (s, ends) \<Rightarrow> if ends then Some (Done s)
            else Some (case end_of_round env n (check_presence s) of (n, s) \<Rightarrow> Again n s))"
      using dn by (intro round_unfold) (auto simp: state_def)
    obtain w e where w: "do_state env state ?v = Some (w, e)" "history (chan ?v) (chan w)" "tbl_ok (handlers w)"
      "if state = CS_HANGUP then \<not> e \<and> CS_REPORTING \<le> cstate (chan w) \<and> ssf_hangup w
       else e \<and> CS_DESTROY \<le> cstate (chan w) \<and> ssf_hangup w = ssf_hangup ?v"
      "hangup_starts w = hangup_starts ?v + starts state ?v"
      using do_state_down [OF assms(1) vok dn le] by blast
    have h: "history (chan s) (chan w)" by (rule history_trans [OF w(2) steps_history [OF v]])
    have wf: "chan_wf (chan w)" using history_wf [OF h] assms(2) by (simp add: sess_ok_def)
    have wok: "sess_ok w" using wf w(3) by (simp add: sess_ok_def)
    have sv: "ssf_hangup ?v = ssf_hangup s" "hangup_starts ?v = hangup_starts s" using v by (simp_all add: steps_def)
    show ?thesis
    proof (cases "state = CS_HANGUP")
      case True
      obtain n' t where t: "end_of_round env n (check_presence w) = (n', t)" by fastforce
      have wt: "steps w t"
        using steps_trans [OF check_presence_steps end_of_round_steps [OF assms(1), of "check_presence w" n]] t by simp
      have "history (chan s) (chan t)" by (rule history_trans [OF steps_history [OF wt] h])
      moreover have "CS_REPORTING \<le> cstate (chan w)" "\<not> e" "ssf_hangup w" using w(4) True by simp_all
      moreover from this have "CS_HANGUP \<le> cstate (chan w)" using order_trans [of CS_HANGUP CS_REPORTING] by (simp add: state_order)
      moreover from this have "cstate (chan w) \<le> cstate (chan t)" using steps_up [OF wt] by simp
      ultimately show ?thesis
        using True r w(1,5) t sv steps_ok [OF wt wok] wt by (auto simp: steps_def starts_def)
    next
      case False
      have "cstate (chan w) = CS_DESTROY" using False w(4) destroyed [OF wf] by simp
      then show ?thesis using False r w(1,4,5) h sv by (auto simp: starts_def)
    qed
  qed
qed

lemma round_ok:
  assumes "env_ok env" "sess_ok s"
  shows "(\<exists>n' s'. session_round env n s = Some (Again n' s') \<and> sess_ok s' \<and> history (chan s) (chan s')) \<or>
    (\<exists>s'. session_round env n s = Some (Done s') \<and> cstate (chan s') = CS_DESTROY \<and> history (chan s) (chan s'))"
proof (cases "CS_HANGUP \<le> cstate (chan s)")
  case True
  from round_down [OF assms this, of n] show ?thesis by (auto split: if_splits)
next
  case False
  then have nd: "cstate (chan s) \<noteq> CS_DESTROY" by (auto simp: state_order)
  let ?u = "unblocked env s"
  have u: "steps s ?u" by (rule unblocked_steps [OF assms(1)])
  have again: "\<exists>n' s'. Some (case end_of_round env n t of (n, s) \<Rightarrow> Again n s) = Some (Again n' s') \<and> sess_ok s' \<and>
      history (chan s) (chan s')" if t: "steps s t" for t
  proof -
    obtain n' t' where e: "end_of_round env n t = (n', t')" by fastforce
    then have "steps s t'" using steps_trans [OF t end_of_round_steps [OF assms(1), of t n]] by simp
    then show ?thesis using e steps_ok assms(2) steps_history by auto
  qed
  let ?st = "cstate (chan ?u)"
  consider "?st = CS_DESTROY" | "?st < CS_HANGUP" "?st = running_state (chan ?u)"
    | "?st < CS_HANGUP" "?st \<noteq> running_state (chan ?u)" | "CS_HANGUP \<le> ?st" "?st \<noteq> CS_DESTROY"
    by fastforce
  then show ?thesis
  proof cases
    case 1
    then show ?thesis using nd steps_history [OF u] by (simp add: session_round_def Let_def)
  next
    case 2
    then have "session_round env n s = Some (case end_of_round env n ?u of (n, s) \<Rightarrow> Again n s)"
      using nd by (auto simp: session_round_def Let_def state_order case_prod_unfold)
    then show ?thesis using again [OF u] by simp
  next
    case 3
    let ?v = "enter_state env ?st ?u"
    have v: "steps s ?v" by (rule steps_trans [OF u enter_state_steps [OF assms(1)]])
    obtain w where w: "do_state env ?st ?v = Some (w, False)" "steps ?v w"
      using do_state_running [OF assms(1) steps_ok [OF v assms(2)] 3(1)] by blast
    have "session_round env n s = Some (case end_of_round env n (check_presence w) of (n, s) \<Rightarrow> Again n s)"
      using 3 nd w(1) by (subst round_unfold [OF nd refl]) (auto simp: state_order)
    moreover have "steps s (check_presence w)" by (rule steps_trans [OF steps_trans [OF v w(2)] check_presence_steps])
    ultimately show ?thesis using again by simp
  next
    case 4
    let ?v = "enter_state env ?st ?u"
    have v: "steps s ?v" by (rule steps_trans [OF u enter_state_steps [OF assms(1)]])
    have le: "?st \<le> cstate (chan ?v)" using steps_up [OF enter_state_steps [OF assms(1)]] 4(1) by simp
    obtain w e where w: "do_state env ?st ?v = Some (w, e)" "history (chan ?v) (chan w)" "tbl_ok (handlers w)"
      "if ?st = CS_HANGUP then \<not> e \<and> CS_REPORTING \<le> cstate (chan w) \<and> ssf_hangup w
       else e \<and> CS_DESTROY \<le> cstate (chan w) \<and> ssf_hangup w = ssf_hangup ?v"
      using do_state_down [OF assms(1) steps_ok [OF v assms(2)] 4(1) le] by blast
    have h: "history (chan s) (chan w)" by (rule history_trans [OF w(2) steps_history [OF v]])
    have wf: "chan_wf (chan w)" using history_wf [OF h] assms(2) by (simp add: sess_ok_def)
    have r: "session_round env n s = (if e then Some (Done w)
        else Some (case end_of_round env n (check_presence w) of (n, s) \<Rightarrow> Again n s))"
      using 4 w(1) by (subst round_unfold [OF nd refl]) auto
    obtain n' t where t: "end_of_round env n (check_presence w) = (n', t)" by fastforce
    have wt: "steps w t"
      using steps_trans [OF check_presence_steps end_of_round_steps [OF assms(1), of "check_presence w" n]] t by simp
    have "sess_ok w" using wf w(3) by (simp add: sess_ok_def)
    then show ?thesis
      using r t w(4) destroyed [OF wf] h steps_ok [OF wt] history_trans [OF steps_history [OF wt] h]
      by (cases e) (auto split: if_splits)
  qed
qed

lemma rounds_ok:
  assumes "env_ok env" "sess_ok s"
  shows "session_rounds fuel env n s = Some None \<or>
    (\<exists>s'. session_rounds fuel env n s = Some (Some s') \<and> cstate (chan s') = CS_DESTROY \<and> history (chan s) (chan s'))"
  using assms(2)
proof (induction fuel arbitrary: n s)
  case (Suc fuel)
  from round_ok [OF assms(1) Suc.prems, of n] show ?case
  proof (elim disjE exE conjE)
    fix n' s'
    assume a: "session_round env n s = Some (Again n' s')" "sess_ok s'" "history (chan s) (chan s')"
    from Suc.IH [OF a(2), of n'] show ?case using a history_trans by auto
  next
    fix s'
    assume "session_round env n s = Some (Done s')" "cstate (chan s') = CS_DESTROY" "history (chan s) (chan s')"
    then show ?case by simp
  qed
qed simp

text \<open>
  Destroying a session sets the call state to \<^const>\<open>CCS_DOWN\<close>, which has no effect once the hangup
  handlers have set it to \<^const>\<open>CCS_HANGUP\<close>.
\<close>

lemma destroy_state_callstate:
  assumes "env_ok env" "tbl_ok (handlers s)" "callstate (chan s) = CCS_HANGUP"
  shows "\<exists>s'. switch_core_session_destroy_state env s = Some s' \<and> callstate (chan s') = CCS_HANGUP"
proof -
  define t where "t = on_chan (switch_channel_perform_set_callstate CCS_DOWN) s"
  define u where "u = on_chan (switch_channel_perform_set_running_state (cenv env t) CS_DESTROY) t"
  define v where "v = on_chan (switch_channel_clear_flag (cenv env u) CF_TRANSFER) u"
  define w where "w = on_chan (switch_channel_clear_flag (cenv env v) CF_REDIRECT) v"
  have "steps s w" unfolding w_def v_def u_def t_def by (intro chan_after [OF assms(1)] steps_refl)
  then obtain x where x: "state_macro env True CS_DESTROY CS_DESTROY w = Some x" "steps s x"
    using state_macro_steps [OF assms(1) _ assms(2), of w CS_DESTROY CS_DESTROY True] by auto
  have "callstate (chan x) = CCS_HANGUP"
    using history_later [OF steps_history [OF x(2)]] assms(3) by (simp add: later_def)
  moreover have "switch_core_session_destroy_state env s = Some (noted [Clear_Device] x)"
    using x(1) by (simp add: switch_core_session_destroy_state_def t_def [symmetric] u_def [symmetric]
        v_def [symmetric] w_def [symmetric] Let_def)
  ultimately show ?thesis by (simp add: noted_def)
qed

section \<open>The order of the handlers\<close>

text \<open>
  The table lists \<open>l\<close>, and the handlers that are called of a list: up to the first that refuses.  A handler that has
  no function for the state, or the endpoint without one, is not called and does not refuse.
\<close>

definition lists :: "(nat \<Rightarrow> handler option option) \<Rightarrow> handler list \<Rightarrow> bool" where
  "lists get l \<longleftrightarrow> (\<forall>i. get i = Some (if i < length l then Some (l ! i) else None))"

definition agrees :: "switch_status option \<Rightarrow> bool" where
  "agrees answer \<longleftrightarrow> answer = None \<or> answer = Some SWITCH_STATUS_SUCCESS"

fun asked :: "(handler \<Rightarrow> switch_status option) \<Rightarrow> handler list \<Rightarrow> handler list" where
  "asked answer [] = []"
| "asked answer (h # hs) = (if answer h = None then [] else [h]) @ (if agrees (answer h) then asked answer hs else [])"

text \<open>A function that gives an answer and leaves the session alone.\<close>

definition only_answers :: "switch_status option \<Rightarrow> (session \<Rightarrow> switch_status \<times> session) option" where
  "only_answers answer = map_option (\<lambda>status s. (status, s)) answer"

definition by_handler :: "bool \<Rightarrow> channel_state \<Rightarrow> handler \<Rightarrow> sess_event" where
  "by_handler core name h = Called (if core then Core_Handler h else Channel_Handler h) name"

lemma noted_noted: "noted es (noted fs s) = noted (fs @ es) s"
  by (simp add: noted_def)

lemma noted_fields [simp]:
  "chan (noted es s) = chan s" "handlers (noted es s) = handlers s" "calls (noted es s) = calls s @ es"
  by (simp_all add: noted_def)

lemma get_handler_noted: "get_handler core env (noted es s) = get_handler core env s"
  by (rule ext) (simp add: get_handler_def)

lemma handler_loop_list:
  fixes pre :: bool
  assumes "lists (get_handler core env s) l" "\<And>h. on_state env name h = only_answers (answer h)" "index \<le> length l"
  defines "mine \<equiv> filter (\<lambda>h. pre_exec env h = pre) (drop index l)"
  shows "handler_loop core pre env name index p s =
    Some (if mine = [] then p else list_all (\<lambda>h. agrees (answer h)) mine, noted (map (by_handler core name) (asked answer mine)) s)"
  using assms(1,3) unfolding mine_def
proof (induction "length l - index" arbitrary: index p s)
  case 0
  then have "drop index l = []" by simp
  then show ?case using 0 by (simp add: handler_loop.simps [of core pre env name index] lists_def noted_def)
next
  case (Suc d)
  then have i: "index < length l" by simp
  have d: "drop index l = l ! index # drop (index + 1) l" using i by (simp add: Cons_nth_drop_Suc)
  have g: "get_handler core env s index = Some (Some (l ! index))" using Suc.prems(1) i by (simp add: lists_def)
  let ?s = "noted [by_handler core name (l ! index)] s"
  have l: "lists (get_handler core env ?s) l" using Suc.prems(1) by (simp add: get_handler_noted)
  have n: "noted [] t = t" for t by (simp add: noted_def)
  show ?case
    using Suc.hyps(1) [of "index + 1" s p] Suc.hyps(1) [of "index + 1" s True] Suc.hyps(1) [of "index + 1" ?s True]
      Suc.hyps(2) Suc.prems l i g d
    by (cases "answer (l ! index)")
      (auto simp: handler_loop.simps [of core pre env name index] assms(2) only_answers_def agrees_def noted_noted by_handler_def n)
qed

lemma standard_calls:
  assumes "name = CS_INIT \<Longrightarrow> cstate (chan s) = CS_INIT" "\<And>t. calls (standard env name t) = calls t"
  shows "\<exists>s'. standard_on env name s = Some s' \<and> calls s' = calls s @ [Called Standard name]"
proof (cases "name = CS_INIT")
  case True
  let ?fl = "switch_channel_test_flag (chan s)"
  let ?st = "if ?fl CF_RECOVERING_BRIDGE then CS_RESET else if ?fl CF_RECOVERING then CS_EXECUTE else CS_ROUTING"
  have "switch_channel_perform_set_state ?st (chan s) \<noteq> None"
    using assms(1) True by (simp add: set_state_None state_change_ok_def)
  then show ?thesis
    using True by (auto simp: standard_on_def switch_core_standard_on_init_def set_state_def on_chan_def Let_def)
qed (use assms(2) in \<open>auto simp: standard_on_def Let_def\<close>)

section \<open>Properties\<close>

text \<open>An environment in which every handler agrees and nothing else happens, and a session in it.\<close>

definition quiet_sess :: sess_env where
  "quiet_sess = \<lparr>cenv = \<lambda>s. quiet_env, get_var = \<lambda>v s. None, pre_exec = \<lambda>h. h = 1,
     on_state = \<lambda>st h. Some (\<lambda>s. (SWITCH_STATUS_SUCCESS, s)), driver = \<lambda>st. Some (\<lambda>s. (SWITCH_STATUS_SUCCESS, s)),
     core_table = no_handlers, standard = \<lambda>st s. s, parse_messages = \<lambda>s. s, parse_events = \<lambda>s. s, io_state_run = None,
     state_run_hooks = [], wait_unblocked = \<lambda>s. s, cond_wait = \<lambda>s. s, expand_headers = \<lambda>a s. a,
     api_execute = \<lambda>c a u s. s, core_early_hangup = False, own_thread = True, str2cause = \<lambda>s. 0,
     has_originator = False, has_originatee = False\<rparr>"

definition sample_session :: "channel_state \<Rightarrow> session" where
  "sample_session st = \<lparr>chan = (new_channel SWITCH_CALL_DIRECTION_INBOUND)\<lparr>cstate := st, hangup_cause := 16\<rparr>,
     handlers = no_handlers, ssf_hangup = False, ssf_thread_running = False, calls = []\<rparr>"

lemma quiet_sess_ok: "env_ok quiet_sess"
  by (simp add: env_ok_def quiet_sess_def callback_def steps_refl quiet_keeps tbl_ok_def no_handlers_def)

lemma sample_session_ok: "st \<noteq> CS_NONE \<Longrightarrow> sess_ok (sample_session st)"
  by (simp add: sess_ok_def sample_session_def chan_wf_def new_channel_def state_none tbl_ok_def no_handlers_def)

text \<open>
  C7: The thread of a session never stops in an assertion and never reads past a table of handlers, whatever handlers, hooks,
  messages and other threads do to the channel through its operations, and it ends only when the
  channel has come to \<^const>\<open>CS_DESTROY\<close> through a history of its operations.\<close>
theorem session_run_safe:
  assumes "env_ok env" "sess_ok s"
  shows "case switch_core_session_run fuel env s of
      None \<Rightarrow> False
    | Some None \<Rightarrow> True
    | Some (Some s') \<Rightarrow> cstate (chan s') = CS_DESTROY \<and> history (chan s) (chan s') \<and> \<not> ssf_thread_running s'"
proof -
  have "sess_ok (s\<lparr>ssf_thread_running := True\<rparr>)" using assms(2) by (simp add: sess_ok_def)
  from rounds_ok [OF assms(1) this, of fuel 500] show ?thesis by (auto simp: switch_core_session_run_def)
qed

lemma session_run_safe_witness: "switch_core_session_run 1 quiet_sess (sample_session CS_EXECUTE) \<noteq> None"
  using session_run_safe [OF quiet_sess_ok sample_session_ok, of CS_EXECUTE 1] by (auto split: option.splits)

text \<open>
  C5: The thread ends: from a channel that is down the loop returns within two rounds, with the channel in
  \<^const>\<open>CS_DESTROY\<close> and its cause unchanged.  From \<^const>\<open>CS_HANGUP\<close>, unless a wait for \<^const>\<open>CF_BLOCK_STATE\<close> comes first,
  the hangup handlers have then been run: they are started exactly once if they had not been run before, and not again if they had.\<close>
theorem session_run_ends:
  assumes "env_ok env" "sess_ok s" "CS_HANGUP \<le> cstate (chan s)" "2 \<le> fuel"
  shows "\<exists>s'. switch_core_session_run fuel env s = Some (Some s') \<and> cstate (chan s') = CS_DESTROY \<and>
    hangup_cause (chan s') = hangup_cause (chan s) \<and>
    (if cstate (chan s) = CS_HANGUP \<and> \<not> switch_channel_test_flag (chan s) CF_BLOCK_STATE
     then ssf_hangup s' \<and> hangup_starts s' = hangup_starts s + (if ssf_hangup s then 0 else 1) else True)"
proof -
  let ?s = "s\<lparr>ssf_thread_running := True\<rparr>"
  obtain f where f: "fuel = Suc (Suc f)" using assms(4) by (metis add_2_eq_Suc le_Suc_ex)
  have ok: "sess_ok ?s" "CS_HANGUP \<le> cstate (chan ?s)" using assms(2,3) by (simp_all add: sess_ok_def)
  have hc: "history (chan s) c \<Longrightarrow> hangup_cause c = hangup_cause (chan s)" for c
    using history_later [of "chan s" c] assms(3) by (simp add: later_def)
  have st: "cstate (chan (unblocked env ?s)) = CS_HANGUP"
    if "cstate (chan s) = CS_HANGUP" "\<not> switch_channel_test_flag (chan s) CF_BLOCK_STATE"
    using that by (simp add: unblocked_def)
  have starts: "hangup_starts (t\<lparr>ssf_thread_running := b\<rparr>) = hangup_starts t" for t b by (simp add: hangup_starts_def)
  show ?thesis
  proof (cases "cstate (chan (unblocked env ?s)) = CS_HANGUP")
    case True
    with round_down [OF assms(1) ok, of 500] obtain n' t where t: "session_round env 500 ?s = Some (Again n' t)" "sess_ok t"
      "history (chan s) (chan t)" "CS_REPORTING \<le> cstate (chan t)" "ssf_hangup t"
      "hangup_starts t = hangup_starts s + (if ssf_hangup s then 0 else 1)"
      by (auto simp: starts)
    have dn: "CS_HANGUP \<le> cstate (chan t)" using t(4) order_trans [of CS_HANGUP CS_REPORTING] by (simp add: state_order)
    have "CS_REPORTING \<le> cstate (chan (unblocked env t))"
      using order_trans [OF t(4) steps_up [OF unblocked_steps [OF assms(1)] dn]] .
    then have "cstate (chan (unblocked env t)) \<noteq> CS_HANGUP" by (auto simp: state_order)
    with round_down [OF assms(1) t(2) dn, of n'] obtain w where w: "session_round env n' t = Some (Done w)"
      "cstate (chan w) = CS_DESTROY" "history (chan t) (chan w)" "ssf_hangup w = ssf_hangup t" "hangup_starts w = hangup_starts t"
      by auto
    then show ?thesis
      using t hc [OF history_trans [OF w(3) t(3)]] by (auto simp: switch_core_session_run_def f starts)
  next
    case False
    with round_down [OF assms(1) ok, of 500] obtain w where w: "session_round env 500 ?s = Some (Done w)"
      "cstate (chan w) = CS_DESTROY" "history (chan s) (chan w)" by auto
    then show ?thesis using False st hc [OF w(3)] by (auto simp: switch_core_session_run_def f)
  qed
qed

lemma session_run_ends_witness:
  "\<exists>s'. switch_core_session_run 2 quiet_sess (sample_session CS_HANGUP) = Some (Some s') \<and> cstate (chan s') = CS_DESTROY \<and>
    hangup_cause (chan s') = 16 \<and> ssf_hangup s' \<and> hangup_starts s' = 1"
proof -
  let ?s = "sample_session CS_HANGUP"
  have "CS_HANGUP \<le> cstate (chan ?s)" "cstate (chan ?s) = CS_HANGUP" "hangup_cause (chan ?s) = 16" "hangup_starts ?s = 0"
    "\<not> ssf_hangup ?s" "\<not> switch_channel_test_flag (chan ?s) CF_BLOCK_STATE"
    by (simp_all add: sample_session_def new_channel_def switch_channel_test_flag_def hangup_starts_def)
  with session_run_ends [OF quiet_sess_ok sample_session_ok, of CS_HANGUP 2] show ?thesis by auto
qed

text \<open>
  C15: The order of the handlers of a state, when the functions that are called answer without touching the session: the
  handlers of the channel that asked to be first, up to one that refuses, then those of the core, then the endpoint; if
  the endpoint agrees, the other handlers of the channel and of the core in the same way; and the standard behaviour
  exactly if every handler agreed and the state is still the one that is run.  Handlers without a function for the
  state, and an endpoint without one, are passed over and count as agreeing; without \<^verbatim>\<open>do_extra_handlers\<close> only
  the endpoint and the standard behaviour are left.  The function of \<^const>\<open>CS_INIT\<close> is run in that state.\<close>
theorem state_handlers_order:
  fixes answer :: "handler \<Rightarrow> switch_status option" and extra :: bool
  assumes "lists (get_handler False env s) hs" "lists (get_handler True env s) cs"
    and "\<And>h. on_state env name h = only_answers (answer h)" "driver env name = only_answers danswer"
    and "name = CS_INIT \<Longrightarrow> state = CS_INIT" "\<And>t. calls (standard env name t) = calls t"
  defines "ask \<equiv> \<lambda>core pre l. map (by_handler core name) (asked answer (filter (\<lambda>h. extra \<and> pre_exec env h = pre) l))"
  shows "\<exists>s'. state_macro env extra name state s = Some s' \<and>
    calls s' = calls s @ [Refresh_Video, Key_Frame] @ ask False True hs @ ask True True cs @
      (if danswer = None then [] else [Called Driver name]) @
      (if agrees danswer
       then ask False False hs @ ask True False cs @
         (if list_all (\<lambda>h. extra \<longrightarrow> agrees (answer h)) (hs @ cs) \<and> state = cstate (chan s) then [Called Standard name] else [])
       else [])"
proof -
  define s0 where "s0 = noted [Refresh_Video, Key_Frame]
    (if state < CS_HANGUP \<and> callstate (chan s) = CCS_UNHELD
     then on_chan (switch_channel_perform_set_callstate CCS_ACTIVE) s else s)"
  have s0: "handlers s0 = handlers s" "calls s0 = calls s @ [Refresh_Video, Key_Frame]" "cstate (chan s0) = cstate (chan s)"
    by (simp_all add: s0_def on_chan_def switch_channel_perform_set_callstate_def emit_def Let_def)
  have l: "lists (get_handler False env (noted es s0)) hs" "lists (get_handler True env (noted es s0)) cs" for es
    using assms(1,2) s0(1) by (simp_all add: lists_def get_handler_def)
  have ask0: "noted [] t = t" for t by (simp add: noted_def)
  let ?all = "\<lambda>pre k. list_all (\<lambda>h. agrees (answer h)) (filter (\<lambda>h. extra \<and> pre_exec env h = pre) k)"
  have run: "run_handlers extra core pre env name p (noted es s0) =
      Some (if filter (\<lambda>h. extra \<and> pre_exec env h = pre) k = [] then p else ?all pre k, noted (es @ ask core pre k) s0)"
    if "lists (get_handler core env (noted es s0)) k" for core pre p es k
    using handler_loop_list [OF that assms(3), of 0 pre p] by (simp add: run_handlers_def noted_noted ask_def)
  have all: "list_all (\<lambda>h. extra \<longrightarrow> agrees (answer h)) k \<longleftrightarrow> ?all True k \<and> ?all False k" for k by (auto simp: list_all_iff)
  let ?d = "ask False True hs @ ask True True cs @ (if danswer = None then [] else [Called Driver name])"
  let ?e = "?d @ ask False False hs @ ask True False cs"
  have dr: "call_driver env name (noted es s0) = (agrees danswer, noted (es @ (if danswer = None then [] else [Called Driver name])) s0)" for es
    by (cases danswer) (simp_all add: call_driver_def assms(4) only_answers_def agrees_def noted_noted)
  have m: "state_macro env extra name state s =
      (if \<not> agrees danswer then Some (noted ?d s0)
       else if list_all (\<lambda>h. extra \<longrightarrow> agrees (answer h)) (hs @ cs) \<and> state = cstate (chan s) then standard_on env name (noted ?e s0)
       else Some (noted ?e s0))"
    using run [where es = "[]", unfolded ask0, OF l(1) [of "[]", unfolded ask0]] run [OF l(2)] run [OF l(1)] dr
    by (simp add: state_macro_def s0_def [symmetric] s0(3) all [of hs] all [of cs] Let_def)
  have "\<exists>e'. standard_on env name (noted ?e s0) = Some e' \<and> calls e' = calls (noted ?e s0) @ [Called Standard name]"
    if "state = cstate (chan s)" by (rule standard_calls) (use that assms(5,6) s0(3) in auto)
  then show ?thesis using m s0(2) by auto
qed

text \<open>
  Three handlers of a channel: the first asked to be first, the second has no function for the state, the last
  refuses or agrees.\<close>

definition three_handlers :: "switch_status \<Rightarrow> sess_env" where
  "three_handlers final = quiet_sess\<lparr>on_state := \<lambda>st h.
     only_answers (if h = 5 then None else if h = 7 then Some final else Some SWITCH_STATUS_SUCCESS)\<rparr>"

lemma state_handlers_order_witness:
  "let t = \<lparr>state_handlers = [Some 7, Some 5, Some 1] @ replicate 27 None, state_handler_index = 3\<rparr>;
       s = (sample_session CS_EXECUTE)\<lparr>handlers := t\<rparr>;
       before = [Refresh_Video, Key_Frame, Called (Channel_Handler 1) CS_EXECUTE, Called Driver CS_EXECUTE, Called (Channel_Handler 7) CS_EXECUTE]
   in (\<exists>s'. state_macro (three_handlers SWITCH_STATUS_SUCCESS) True CS_EXECUTE CS_EXECUTE s = Some s' \<and>
        calls s' = before @ [Called Standard CS_EXECUTE]) \<and>
      (\<exists>s'. state_macro (three_handlers SWITCH_STATUS_FALSE) True CS_EXECUTE CS_EXECUTE s = Some s' \<and> calls s' = before)"
proof -
  define t where "t = \<lparr>state_handlers = [Some 7, Some 5, Some 1] @ replicate 27 None, state_handler_index = 3\<rparr>"
  let ?s = "(sample_session CS_EXECUTE)\<lparr>handlers := t\<rparr>"
  have h: "handlers ?s = t" "calls ?s = []" "cstate (chan (sample_session CS_EXECUTE)) = CS_EXECUTE"
    by (simp_all add: sample_session_def)
  have "holds t [7, 5, 1]" by (simp add: t_def holds_def SWITCH_MAX_STATE_HANDLERS_def)
  then have l1: "lists (get_handler False (three_handlers x) ?s) [7, 5, 1]" for x
    using holds_get by (simp add: lists_def get_handler_def h(1))
  have "switch_core_get_state_handler no_handlers (int i) = Some None" for i
    by (auto simp: switch_core_get_state_handler_def no_handlers_def SWITCH_MAX_STATE_HANDLERS_def)
  then have l2: "lists (get_handler True (three_handlers x) ?s) []" for x
    by (simp add: lists_def get_handler_def quiet_sess_def three_handlers_def)
  have e: "on_state (three_handlers x) n y = only_answers (if y = 5 then None else if y = 7 then Some x else Some SWITCH_STATUS_SUCCESS)"
    "driver (three_handlers x) n = only_answers (Some SWITCH_STATUS_SUCCESS)"
    "calls (standard (three_handlers x) n u) = calls u" "pre_exec (three_handlers x) y = (y = 1)" for x n y u
    by (simp_all add: quiet_sess_def three_handlers_def only_answers_def)
  note order = state_handlers_order [OF l1 l2 e(1,2) _ e(3), of CS_EXECUTE CS_EXECUTE _ True]
  show ?thesis
    using order [of SWITCH_STATUS_SUCCESS] order [of SWITCH_STATUS_FALSE]
    unfolding Let_def t_def [symmetric] by (simp add: e(4) h by_handler_def agrees_def)
qed

end
