(* ===== verification/Packed.thy ===== *)
theory Packed
  imports Ascii
begin

text \<open>
  The case conversions of \<^verbatim>\<open>include/switch_utils.h\<close> that treat eight characters at a time as the bytes of a 64-bit
  integer.  It is shown that no carry or shift crosses from one byte to another, for any number of bytes,
  so that the conversion of a whole string is the conversion of its characters by the C library.
\<close>

unbundle bit_operations_syntax

section \<open>Model\<close>

definition switch_toupper64 :: "u64 \<Rightarrow> u64" where
  "switch_toupper64 eax =
     (let ebx = (0x7f7f7f7f7f7f7f7f AND eax) + 0x0505050505050505;
          ebx = (0x7f7f7f7f7f7f7f7f AND ebx) + 0x1a1a1a1a1a1a1a1a;
          ebx = drop_bit 2 (ebx AND NOT eax) AND 0x2020202020202020
      in eax - ebx)"

definition switch_tolower64 :: "u64 \<Rightarrow> u64" where
  "switch_tolower64 eax =
     (let ebx = (0x7f7f7f7f7f7f7f7f AND eax) + 0x2525252525252525;
          ebx = (0x7f7f7f7f7f7f7f7f AND ebx) + 0x1a1a1a1a1a1a1a1a;
          ebx = drop_bit 2 (ebx AND NOT eax) AND 0x2020202020202020
      in eax + ebx)"

text \<open>The eight characters at an address as a little-endian integer, and back.\<close>

fun horner :: "int list \<Rightarrow> int" where
  "horner [] = 0"
| "horner (b # bs) = b + 256 * horner bs"

definition load64 :: "string \<Rightarrow> u64" where
  "load64 s = word_of_int (horner (map of_char s))"

definition store64 :: "u64 \<Rightarrow> string" where
  "store64 w = map (\<lambda>i. char_of (uint (drop_bit (8 * i) w))) [0..<8]"

text \<open>A character is signed when it is converted to an integer.\<close>

definition char_u32 :: "char \<Rightarrow> u32" where
  "char_u32 c = (let n = of_char c :: int in word_of_int (if n < 128 then n else n - 256))"

fun convert_max :: "(u64 \<Rightarrow> u64) \<Rightarrow> (u32 \<Rightarrow> u32) \<Rightarrow> string \<Rightarrow> string" where
  "convert_max wide narrow s =
     (if length s > 8 then store64 (wide (load64 (take 8 s))) @ convert_max wide narrow (drop 8 s)
      else map (\<lambda>c. char_of (uint (narrow (char_u32 c)))) s)"

declare convert_max.simps [simp del]

definition switch_toupper_max :: "string \<Rightarrow> string" where
  "switch_toupper_max = convert_max switch_toupper64 switch_toupper"

definition switch_tolower_max :: "string \<Rightarrow> string" where
  "switch_tolower_max = convert_max switch_tolower64 switch_tolower"

section \<open>Bytes of an integer do not touch each other\<close>

definition byte_val :: "int \<Rightarrow> bool" where
  "byte_val a \<longleftrightarrow> 0 \<le> a \<and> a < 256"

lemma bit_low:
  assumes "byte_val a"
  shows "bit (a + 256 * x) n \<longleftrightarrow> (if n < 8 then bit a n else bit x (n - 8))"
proof -
  have t: "take_bit 8 a = a" using assms by (simp add: byte_val_def take_bit_int_eq_self)
  have "a + 256 * x = a + push_bit 8 x" by (simp add: push_bit_eq_mult)
  also have "\<dots> = concat_bit 8 a x" by (simp add: concat_bit_eq t)
  finally show ?thesis by (simp add: bit_concat_bit_iff)
qed

lemma byte_high: "byte_val a \<Longrightarrow> 8 \<le> n \<Longrightarrow> \<not> bit a n"
  using bit_low [of a 0 n] by simp

lemma and_bytes:
  assumes "byte_val a" "byte_val b"
  shows "(a + 256 * x) AND (b + 256 * y) = (a AND b) + 256 * (x AND y)"
proof -
  have "byte_val (a AND b)"
    using assms by (simp add: byte_val_def AND_lower)
  then show ?thesis using assms by (intro bit_eqI) (simp add: bit_low bit_and_iff)
qed

lemma not_bytes: "NOT (a + 256 * x) = (255 - a) + 256 * (NOT x :: int)"
  by (simp add: not_int_def)

lemma shift_bytes:
  assumes "byte_val a"
  shows "drop_bit 2 (a + 256 * x) AND (32 + 256 * y) = (drop_bit 2 a AND 32) + 256 * (drop_bit 2 x AND y)"
proof -
  have b32: "byte_val 32" by (simp add: byte_val_def)
  have "byte_val (drop_bit 2 a AND 32)"
    by (simp add: byte_val_def AND_lower)
  moreover have b5: "bit (32 :: int) n \<longleftrightarrow> n = 5" for n
    using bit_exp_iff [where 'a = int, of 5 n] by (auto simp: possible_bit_def)
  moreover have "Suc (Suc (n - 8)) = n - 6" if "\<not> n < 8" for n :: nat using that by simp
  ultimately show ?thesis using assms b32
    by (intro bit_eqI) (auto simp: bit_low bit_and_iff bit_drop_bit_eq)
qed

section \<open>The mask\<close>

fun rep :: "int \<Rightarrow> nat \<Rightarrow> int" where
  "rep c 0 = 0"
| "rep c (Suc k) = c + 256 * rep c k"

definition case_mask :: "int \<Rightarrow> nat \<Rightarrow> int \<Rightarrow> int" where
  "case_mask c k v =
     drop_bit 2 (((rep 0x7f k AND ((rep 0x7f k AND v) + rep c k)) + rep 0x1a k) AND NOT v) AND rep 0x20 k"

definition lane_mask :: "int \<Rightarrow> int \<Rightarrow> int" where
  "lane_mask c b = drop_bit 2 (((0x7f AND ((0x7f AND b) + c)) + 0x1a) AND (255 - b)) AND 0x20"

lemma and7f: "0 \<le> 127 AND (b :: int)" "127 AND b \<le> 127"
  by (simp_all add: AND_lower AND_upper1)

lemma mask_bytes:
  assumes "list_all byte_val bs" "0 \<le> c" "c \<le> 128"
  shows "case_mask c (length bs) (horner bs) = horner (map (lane_mask c) bs)"
  using assms(1)
proof (induction bs)
  case Nil
  then show ?case by (simp add: case_mask_def)
next
  case (Cons b bs)
  let ?e = "(127 AND b) + c"
  have "0 \<le> ?e" "?e < 256" "0 \<le> (127 AND ?e) + 26" "(127 AND ?e) + 26 < 256"
    using and7f [of b] and7f [of ?e] assms(2,3) by linarith+
  then have b: "byte_val b" "byte_val 127" "byte_val (255 - b)" "byte_val ?e" "byte_val ((127 AND ?e) + 26)"
    using Cons.prems by (auto simp: byte_val_def)
  let ?k = "length bs" and ?v = "horner bs"
  let ?E = "(rep 127 ?k AND ?v) + rep c ?k"
  have e: "(rep 127 (Suc ?k) AND (b + 256 * ?v)) + rep c (Suc ?k) = ?e + 256 * ?E"
    using and_bytes [OF b(2,1), of "rep 127 ?k" ?v] by simp
  have f: "(rep 127 (Suc ?k) AND (?e + 256 * ?E)) + rep 26 (Suc ?k) =
      ((127 AND ?e) + 26) + 256 * ((rep 127 ?k AND ?E) + rep 26 ?k)"
    using and_bytes [OF b(2,4), of "rep 127 ?k" ?E] by simp
  have ab: "byte_val (((127 AND ?e) + 26) AND (255 - b))"
    using b(3,5) by (simp add: byte_val_def AND_lower)
  show ?case
    using Cons shift_bytes [OF ab, of "((rep 127 ?k AND ?E) + rep 26 ?k) AND NOT ?v" "rep 32 ?k"]
    unfolding case_mask_def length_Cons horner.simps e f not_bytes and_bytes [OF b(5,3)]
    by (simp add: lane_mask_def case_mask_def)
qed

section \<open>The masks of one character\<close>

lemma lane_lower: "of_char c + lane_mask 0x25 (of_char c) = of_char (c_tolower c)"
proof (cases c)
  case (Char b0 b1 b2 b3 b4 b5 b6 b7)
  show ?thesis unfolding Char
    by (cases b0; cases b1; cases b2; cases b3; cases b4; cases b5; cases b6; cases b7;
        simp add: lane_mask_def c_tolower_def of_char_def char_of_def bit_simps)
qed

lemma lane_upper: "of_char c - lane_mask 0x05 (of_char c) = of_char (c_toupper c)"
proof (cases c)
  case (Char b0 b1 b2 b3 b4 b5 b6 b7)
  show ?thesis unfolding Char
    by (cases b0; cases b1; cases b2; cases b3; cases b4; cases b5; cases b6; cases b7;
        simp add: lane_mask_def c_toupper_def of_char_def char_of_def bit_simps)
qed

section \<open>Integers of eight bytes\<close>

lemma horner_bound: "list_all byte_val bs \<Longrightarrow> 0 \<le> horner bs \<and> horner bs < 256 ^ length bs"
  by (induction bs) (auto simp: byte_val_def)

lemma char_bytes: "list_all byte_val (map of_char s)"
proof -
  have "byte_val (of_char c)" for c :: char
    unfolding byte_val_def
    by (metis nat_of_char_less_256 of_nat_0_le_iff of_nat_less_numeral_iff of_nat_of_char)
  then show ?thesis by (simp add: list_all_iff)
qed

lemma rep8: "rep c 8 = c * 0x0101010101010101"
  by (simp add: eval_nat_numeral)

lemma horner_add: "horner bs + horner (map f bs) = horner (map (\<lambda>b. b + f b) bs)"
  by (induction bs) simp_all

lemma horner_sub: "horner bs - horner (map f bs) = horner (map (\<lambda>b. b - f b) bs)"
  by (induction bs) simp_all

lemma horner_digit: "list_all byte_val bs \<Longrightarrow> i < length bs \<Longrightarrow> horner bs div 256 ^ i mod 256 = bs ! i"
proof (induction bs arbitrary: i)
  case (Cons b bs)
  then have b: "b div 256 = 0" "b mod 256 = b" by (simp_all add: byte_val_def)
  show ?case
  proof (cases i)
    case (Suc j)
    have "(b + 256 * horner bs) div 256 ^ Suc j = (b + 256 * horner bs) div 256 div 256 ^ j"
      by (simp add: zdiv_zmult2_eq)
    also have "(b + 256 * horner bs) div 256 = horner bs" using b(1) by simp
    finally show ?thesis using Cons Suc by simp
  qed (use b in simp)
qed simp

lemma uint_drop: "uint (drop_bit n w) = uint w div 2 ^ n" for w :: u64
proof -
  have "take_bit 64 (uint w) = uint w" using uint_bounded [of w] by (simp add: take_bit_int_eq_self)
  then show ?thesis by (simp add: unsigned_drop_bit_eq drop_bit_eq_div [where 'a = int])
qed

lemma store_horner:
  assumes "length s = 8"
  shows "store64 (word_of_int (horner (map of_char s))) = s"
proof (rule nth_equalityI)
  show "length (store64 (word_of_int (horner (map of_char s)))) = length s" using assms by (simp add: store64_def)
next
  fix i
  assume "i < length (store64 (word_of_int (horner (map of_char s))))"
  then have i: "i < 8" by (simp add: store64_def)
  let ?h = "horner (map of_char s)"
  have "0 \<le> ?h" "?h < 2 ^ 64" using horner_bound [OF char_bytes, of s] assms by simp_all
  then have "uint (word_of_int ?h :: u64) = ?h" by (simp add: uint_word_of_int)
  then have "store64 (word_of_int ?h) ! i = char_of (?h div 256 ^ i)"
    using i by (simp add: store64_def uint_drop power_mult)
  also have "\<dots> = char_of (?h div 256 ^ i mod 256)" by (simp add: char_of_mod_256)
  also have "\<dots> = s ! i" using horner_digit [OF char_bytes, of i s] i assms by simp
  finally show "store64 (word_of_int ?h) ! i = s ! i" .
qed

lemma word_drop_bit: "0 \<le> z \<Longrightarrow> z < 2 ^ 64 \<Longrightarrow> drop_bit 2 (word_of_int z :: u64) = word_of_int (drop_bit 2 z)"
  by (rule word_uint_eqI) (simp add: uint_drop uint_word_of_int drop_bit_eq_div [where 'a = int])

lemma word_mask:
  fixes v c :: int
  defines "e \<equiv> (0x7f7f7f7f7f7f7f7f AND ((0x7f7f7f7f7f7f7f7f AND v) + c * 0x0101010101010101)) + 0x1a1a1a1a1a1a1a1a"
  shows "drop_bit 2 (word_of_int e AND NOT (word_of_int v)) AND 0x2020202020202020 = (word_of_int (case_mask c 8 v) :: u64)"
proof -
  have "0 \<le> e" "e < 2 ^ 64"
    using AND_lower [of "0x7f7f7f7f7f7f7f7f"] AND_upper1 [of "0x7f7f7f7f7f7f7f7f"] unfolding e_def by (simp_all add: le_less_trans)
  then have "0 \<le> e AND NOT v" "e AND NOT v < 2 ^ 64" by (simp_all add: AND_lower)
  from word_drop_bit [OF this] show ?thesis
    by (simp add: case_mask_def rep8 e_def of_int_and_eq of_int_not_eq)
qed

lemma lower64_word: "switch_tolower64 (word_of_int v) = word_of_int (v + case_mask 0x25 8 v)"
  using word_mask [of v "0x25"] by (simp add: switch_tolower64_def Let_def of_int_and_eq)

lemma upper64_word: "switch_toupper64 (word_of_int v) = word_of_int (v - case_mask 0x05 8 v)"
  using word_mask [of v "0x05"] by (simp add: switch_toupper64_def Let_def of_int_and_eq)

lemma lower64_chars: "length s = 8 \<Longrightarrow> store64 (switch_tolower64 (load64 s)) = map c_tolower s"
  using mask_bytes [OF char_bytes, of "0x25" s] horner_add [of "map of_char s" "lane_mask 0x25"] store_horner [of "map c_tolower s"]
  by (simp add: load64_def lower64_word comp_def lane_lower)

lemma upper64_chars: "length s = 8 \<Longrightarrow> store64 (switch_toupper64 (load64 s)) = map c_toupper s"
  using mask_bytes [OF char_bytes, of "0x05" s] horner_sub [of "map of_char s" "lane_mask 0x05"] store_horner [of "map c_toupper s"]
  by (simp add: load64_def upper64_word comp_def lane_upper)

lemma narrow_lower: "char_of (uint (switch_tolower (char_u32 c))) = c_tolower c"
proof (cases c)
  case (Char b0 b1 b2 b3 b4 b5 b6 b7)
  show ?thesis unfolding Char
    by (cases b0; cases b1; cases b2; cases b3; cases b4; cases b5; cases b6; cases b7;
        simp add: switch_tolower_def char_u32_def c_tolower_def of_char_def char_of_def bit_simps)
qed

lemma narrow_upper: "char_of (uint (switch_toupper (char_u32 c))) = c_toupper c"
proof (cases c)
  case (Char b0 b1 b2 b3 b4 b5 b6 b7)
  show ?thesis unfolding Char
    by (cases b0; cases b1; cases b2; cases b3; cases b4; cases b5; cases b6; cases b7;
        simp add: switch_toupper_def char_u32_def c_toupper_def of_char_def char_of_def bit_simps)
qed

lemma convert_chars:
  assumes "\<And>s. length s = 8 \<Longrightarrow> store64 (wide (load64 s)) = map f s" "\<And>c. char_of (uint (narrow (char_u32 c))) = f c"
  shows "convert_max wide narrow s = map f s"
proof (induction "length s" arbitrary: s rule: less_induct)
  case less
  show ?case
  proof (cases "length s > 8")
    case True
    then have "convert_max wide narrow (drop 8 s) = map f (drop 8 s)" using less by simp
    then show ?thesis
      using True assms(1) [of "take 8 s"] by (simp add: convert_max.simps [of _ _ s] flip: map_append)
  qed (simp add: convert_max.simps [of _ _ s] assms(2))
qed

section \<open>Property\<close>

text \<open>
  C29: Converting a string eight characters at a time, with the rest one by one, is the same as converting each of its
  characters as the C library does, for every string and every character, those above 127 included.\<close>
theorem packed_case_conversion:
  "switch_tolower_max s = map c_tolower s \<and> switch_toupper_max s = map c_toupper s"
  unfolding switch_tolower_max_def switch_toupper_max_def
  using convert_chars [OF lower64_chars narrow_lower] convert_chars [OF upper64_chars narrow_upper] by simp

end
