(* ===== verification/Receive.thy ===== *)
theory Receive
  imports Channel Separate
begin

text \<open>
  The receiver of a session's messages, \<^verbatim>\<open>switch_core_session_perform_receive_message\<close> of \<^verbatim>\<open>src/switch_core_session.c\<close>,
  as far as it acts on the channel, and answering a channel through it.  The functions that the media, the endpoint and the
  hooks of the session have for a message are parameters, and so is the attempt to get the lock of the session and whether
  a session can be found by its name.  \<open>None\<close> is a read behind the end of a text.
\<close>

section \<open>Model: receiving a message\<close>

type_synonym receiver = "chan_message \<Rightarrow> channel \<Rightarrow> switch_status \<times> channel"

record message_env =
  rwlock :: "switch_status option"
  session_destroyed :: bool
  media_receive :: "receiver option"
  endpoint_receive :: "receiver option"
  message_hooks :: "receiver list"
  located :: "string \<Rightarrow> bool"

definition switch_core_session_read_lock_hangup :: "message_env \<Rightarrow> channel \<Rightarrow> switch_status" where
  "switch_core_session_read_lock_hangup rx ch =
     (case rwlock rx of None \<Rightarrow> SWITCH_STATUS_FALSE
      | Some status \<Rightarrow>
          if status = SWITCH_STATUS_SUCCESS \<and> (session_destroyed rx \<or> cstate ch \<ge> CS_DESTROY) then SWITCH_STATUS_FALSE else status)"

definition zstr :: "string option \<Rightarrow> bool" where
  "zstr s \<longleftrightarrow> s = None \<or> s = Some []"

definition element :: "string list \<Rightarrow> nat \<Rightarrow> string option" where
  "element xs i = (if i < length xs then Some (xs ! i) else None)"

text \<open>A change of the display: the text is separated into the arguments; the result has whether the message is to be ignored.\<close>

definition display_update :: "chan_env \<Rightarrow> chan_message \<Rightarrow> channel \<Rightarrow> (bool \<times> chan_message \<times> channel) option" where
  "display_update env message ch =
     (case message of
        INDICATE_DISPLAY string_arg arg0 arg1 \<Rightarrow>
          (case (if zstr arg0 \<and> \<not> zstr string_arg
                 then map_option (\<lambda>xs. (element xs 0, element xs 1)) (switch_separate_string string_arg CHR ''|'' 2)
                 else Some (arg0, arg1)) of
             None \<Rightarrow> None
           | Some (arg0, arg1) \<Rightarrow>
               (let ch = (if \<not> zstr arg0 then emit [Set_Variable ''last_sent_callee_id_name'' arg0] ch else ch);
                    ch = (if \<not> zstr arg1 then emit [Set_Variable ''last_sent_callee_id_number'' arg1] ch else ch)
                in Some (switch_true (variable env ''ignore_display_updates''), INDICATE_DISPLAY string_arg arg0 arg1, ch)))
      | _ \<Rightarrow> Some (False, message, ch))"

definition call_receiver :: "receiver option \<Rightarrow> receiver" where
  "call_receiver f message ch = (case f of None \<Rightarrow> (SWITCH_STATUS_SUCCESS, ch) | Some g \<Rightarrow> g message ch)"

definition deliver :: "message_env \<Rightarrow> receiver" where
  "deliver rx message ch =
     (if cstate ch \<ge> CS_HANGUP then (SWITCH_STATUS_SUCCESS, ch)
      else
        (let (status, ch) = call_receiver (media_receive rx) message ch
         in if status = SWITCH_STATUS_SUCCESS then call_receiver (endpoint_receive rx) message ch else (status, ch)))"

fun run_hooks :: "receiver list \<Rightarrow> receiver" where
  "run_hooks [] message ch = (SWITCH_STATUS_SUCCESS, ch)"
| "run_hooks (f # fs) message ch =
     (let (status, ch) = f message ch in if status \<noteq> SWITCH_STATUS_SUCCESS then (status, ch) else run_hooks fs message ch)"

definition confirm_transfer :: "chan_env \<Rightarrow> message_env \<Rightarrow> chan_message \<Rightarrow> channel \<Rightarrow> channel" where
  "confirm_transfer env rx message ch =
     (if message = INDICATE_BRIDGE \<and> switch_channel_test_flag ch CF_CONFIRM_BLIND_TRANSFER then
        (let uuid = variable env ''blind_transfer_uuid'';
             ch = switch_channel_clear_flag env CF_CONFIRM_BLIND_TRANSFER ch
         in if \<not> zstr uuid \<and> located rx (the uuid) then emit [Blind_Transfer_Response (the uuid)] ch else ch)
      else ch)"

fun breaks_video :: "chan_message \<Rightarrow> bool" where
  "breaks_video REDIRECT_AUDIO = True"
| "breaks_video INDICATE_ANSWER = True"
| "breaks_video INDICATE_PROGRESS = True"
| "breaks_video INDICATE_BRIDGE = True"
| "breaks_video INDICATE_UNBRIDGE = True"
| "breaks_video INDICATE_TRANSFER = True"
| "breaks_video (INDICATE_RINGING rv) = True"
| "breaks_video INDICATE_MEDIA = True"
| "breaks_video INDICATE_NOMEDIA = True"
| "breaks_video INDICATE_HOLD = True"
| "breaks_video INDICATE_UNHOLD = True"
| "breaks_video INDICATE_REDIRECT = True"
| "breaks_video INDICATE_RESPOND = True"
| "breaks_video INDICATE_BROADCAST = True"
| "breaks_video INDICATE_MEDIA_REDIRECT = True"
| "breaks_video INDICATE_DEFLECT = True"
| "breaks_video _ = False"

definition after_message :: "chan_env \<Rightarrow> chan_message \<Rightarrow> channel \<Rightarrow> channel" where
  "after_message env message ch =
     (if cstate ch < CS_HANGUP then
        (let ch = (if message = INDICATE_BRIDGE \<or> message = INDICATE_UNBRIDGE
                   then emit [Media_Bug_Flush, Recovery_Track] ch else ch)
         in if breaks_video message then emit [Break_Channel] (switch_channel_set_flag env CF_VIDEO_BREAK ch) else ch)
      else ch)"

definition receive_body :: "chan_env \<Rightarrow> message_env \<Rightarrow> receiver" where
  "receive_body env rx message ch =
     (let (status, ch) = deliver rx message ch;
          (status, ch) = (if status = SWITCH_STATUS_SUCCESS
                          then (let (status, ch) = run_hooks (message_hooks rx) message ch
                                in (status, confirm_transfer env rx message ch))
                          else (status, ch))
      in (status, after_message env message ch))"

definition switch_core_session_perform_receive_message ::
    "chan_env \<Rightarrow> message_env \<Rightarrow> chan_message \<Rightarrow> channel \<Rightarrow> (switch_status \<times> channel) option" where
  "switch_core_session_perform_receive_message env rx message ch =
     (if message = INDICATE_SIGNAL_DATA then Some (call_receiver (endpoint_receive rx) message ch)
      else if switch_core_session_read_lock_hangup rx ch \<noteq> SWITCH_STATUS_SUCCESS
      then Some (switch_core_session_read_lock_hangup rx ch, ch)
      else
        (let ch = (if message = INDICATE_CLEAR_PROGRESS then switch_channel_clear_flag env CF_EARLY_MEDIA ch else ch);
             ch = (if message = INDICATE_MEDIA then switch_channel_set_flag env CF_PROXY_OFF ch else ch)
         in case display_update env message ch of None \<Rightarrow> None
            | Some (ignored, message, ch) \<Rightarrow>
                (let (status, ch) = (if ignored then (SWITCH_STATUS_SUCCESS, ch) else receive_body env rx message ch)
                 in Some (status, if message = INDICATE_MEDIA then switch_channel_clear_flag env CF_PROXY_OFF ch else ch))))"

text \<open>The environment of a channel whose messages go to this receiver.\<close>

definition session_env :: "chan_env \<Rightarrow> message_env \<Rightarrow> chan_env" where
  "session_env env rx = env\<lparr>receive := \<lambda>message ch. the (switch_core_session_perform_receive_message env rx message ch)\<rparr>"

section \<open>What answering depends on\<close>

text \<open>
  The channel \<open>b\<close> differs from \<open>a\<close> in nothing that answering is about; other flags, the times of holding and progress,
  and effects may differ.
\<close>

definition answers :: "channel \<Rightarrow> nat" where
  "answers ch = count_list (effects ch) Answer_Event"

definition same_call :: "channel \<Rightarrow> channel \<Rightarrow> bool" where
  "same_call a b \<longleftrightarrow> flags b CF_ANSWERED = flags a CF_ANSWERED \<and> answered_time b = answered_time a \<and>
     callstate b = callstate a \<and> cstate b = cstate a \<and> hangup_cause b = hangup_cause a \<and> direction b = direction a \<and>
     ocf_hangup b = ocf_hangup a \<and> answers b = answers a"

lemma same_refl: "same_call a a"
  by (simp add: same_call_def)

lemma same_trans: "same_call a b \<Longrightarrow> same_call b c \<Longrightarrow> same_call a c"
  by (simp add: same_call_def)

lemma same_emit: "same_call a b \<Longrightarrow> Answer_Event \<notin> set es \<Longrightarrow> same_call a (emit es b)"
  by (simp add: same_call_def answers_def emit_def)

lemmas flag_numbers = CF_ANSWERED_def CF_VIDEO_MIRROR_INPUT_def CF_PASSTHRU_PTIME_MISMATCH_def
  CF_VIDEO_READY_def CF_ORIGINATOR_def CF_DIALPLAN_def CF_LEG_HOLDING_def CF_OUTBOUND_def CF_RECOVERED_def
  CF_VIDEO_ECHO_def CF_VIDEO_BLANK_def CF_VIDEO_DECODED_READ_def CF_VIDEO_PASSIVE_def CF_VIDEO_BREAK_def

lemma set_plain_flag:
  assumes "fl \<notin> {CF_VIDEO_READY, CF_ORIGINATOR, CF_DIALPLAN, CF_LEG_HOLDING, CF_OUTBOUND, CF_RECOVERED,
    CF_VIDEO_ECHO, CF_VIDEO_BLANK, CF_VIDEO_DECODED_READ, CF_VIDEO_PASSIVE}"
  shows "switch_channel_set_flag_value env fl v ch = ch\<lparr>flags := (flags ch)(fl := v)\<rparr>"
proof -
  have "switch_channel_set_flag_value env fl v ch = (if flags ch fl \<noteq> v then ch\<lparr>flags := (flags ch)(fl := v)\<rparr> else ch)"
    using assms unfolding switch_channel_set_flag_value_def by simp
  also have "\<dots> = ch\<lparr>flags := (flags ch)(fl := v)\<rparr>" by (auto simp: fun_upd_idem)
  finally show ?thesis .
qed

lemma same_flag:
  "same_call a b \<Longrightarrow> fl \<in> {CF_VIDEO_MIRROR_INPUT, CF_PASSTHRU_PTIME_MISMATCH, CF_VIDEO_BREAK} \<Longrightarrow>
   same_call a (switch_channel_set_flag_value env fl v b)"
  by (auto simp: set_plain_flag same_call_def answers_def flag_numbers)

lemma same_hooks:
  assumes "\<And>v ch. same_call ch (run_hook env v ch)" "same_call a b"
  shows "same_call a (answer_hooks env b)"
  unfolding answer_hooks_def using assms(2)
  by (intro shape [where R = same_call] same_emit same_flag same_trans [OF _ assms(1)]; simp)

section \<open>Receiving keeps the call\<close>

text \<open>
  A receiver that leaves the call alone; only when it refuses to answer it may have hung up the channel instead.
\<close>

definition kept :: "chan_message \<Rightarrow> channel \<Rightarrow> switch_status \<times> channel \<Rightarrow> bool" where
  "kept message a r \<longleftrightarrow> same_call a (snd r) \<or>
     message = INDICATE_ANSWER \<and> fst r \<noteq> SWITCH_STATUS_SUCCESS \<and> CS_HANGUP \<le> cstate (snd r)"

definition polite :: "receiver \<Rightarrow> bool" where
  "polite f \<longleftrightarrow> (\<forall>message ch. kept message ch (f message ch))"

definition polite_session :: "message_env \<Rightarrow> bool" where
  "polite_session rx \<longleftrightarrow> pred_option polite (media_receive rx) \<and> pred_option polite (endpoint_receive rx) \<and>
     list_all polite (message_hooks rx)"

lemma kept_next: "kept m a (SWITCH_STATUS_SUCCESS, b) \<Longrightarrow> kept m b r \<Longrightarrow> kept m a r"
  using same_trans [of a b "snd r"] by (auto simp: kept_def)

lemma kept_stay: "kept m a (st, a)"
  by (simp add: kept_def same_refl)

lemma call_kept: "pred_option polite f \<Longrightarrow> kept m a (call_receiver f m a)"
  by (cases f) (simp_all add: call_receiver_def polite_def kept_stay)

lemma deliver_kept: "polite_session rx \<Longrightarrow> kept m a (deliver rx m a)"
  using call_kept [of "media_receive rx" m a] call_kept [of "endpoint_receive rx" m]
  by (auto simp: deliver_def polite_session_def kept_stay split: prod.split intro: kept_next)

lemma hooks_kept: "list_all polite fs \<Longrightarrow> kept m a (run_hooks fs m a)"
proof (induction fs arbitrary: a)
  case (Cons f fs)
  have "kept m a (f m a)" using Cons.prems by (simp add: polite_def)
  then show ?case using Cons by (auto split: prod.split intro: kept_next)
qed (simp add: kept_stay)

lemma body_kept:
  assumes "polite_session rx" "m = INDICATE_ANSWER \<or> m = ANSWER_EVENT"
  shows "kept m a (receive_body env rx m a)"
proof -
  obtain st b where d: "deliver rx m a = (st, b)" by fastforce
  obtain st' c where h: "run_hooks (message_hooks rx) m b = (st', c)" by fastforce
  have k: "kept m a (st, b)" "kept m b (st', c)"
    using deliver_kept [OF assms(1), of m a] hooks_kept [of "message_hooks rx" m b] assms(1) d h by (simp_all add: polite_session_def)
  have after: "kept m a (st, after_message env m b)" if "kept m a (st, b)" for st b
  proof (cases "cstate b < CS_HANGUP")
    case True
    have "same_call a b" using that True by (auto simp: kept_def)
    then have "same_call a (after_message env m b)"
      unfolding after_message_def Let_def using assms(2) by (auto intro!: same_emit same_flag)
    then show ?thesis by (simp add: kept_def)
  qed (use that in \<open>simp add: after_message_def\<close>)
  have "receive_body env rx m a =
      (if st = SWITCH_STATUS_SUCCESS then (st', after_message env m c) else (st, after_message env m b))"
    using assms(2) by (auto simp: receive_body_def d h confirm_transfer_def Let_def)
  then show ?thesis using k kept_next [of m a b "(st', c)"] by (auto intro: after)
qed

lemma receive_plain:
  assumes "m = INDICATE_ANSWER \<or> m = ANSWER_EVENT"
  shows "switch_core_session_perform_receive_message env rx m ch =
    Some (if switch_core_session_read_lock_hangup rx ch \<noteq> SWITCH_STATUS_SUCCESS
          then (switch_core_session_read_lock_hangup rx ch, ch) else receive_body env rx m ch)"
  using assms by (auto simp: switch_core_session_perform_receive_message_def display_update_def Let_def split: prod.splits)

lemma receive_kept:
  assumes "polite_session rx" "m = INDICATE_ANSWER \<or> m = ANSWER_EVENT"
  shows "kept m ch (the (switch_core_session_perform_receive_message env rx m ch))"
  using body_kept [OF assms] by (simp add: receive_plain [OF assms(2)] kept_stay)

text \<open>A message that was taken while the channel is up breaks the read of its video.\<close>

lemma receive_breaks:
  assumes "switch_core_session_perform_receive_message env rx INDICATE_ANSWER ch = Some (SWITCH_STATUS_SUCCESS, c)"
    "cstate c < CS_HANGUP"
  shows "switch_channel_test_flag c CF_VIDEO_BREAK"
proof -
  obtain b where c: "c = after_message env INDICATE_ANSWER b"
    using assms(1) by (auto simp: receive_plain receive_body_def Let_def split: prod.splits if_splits)
  then have "cstate b < CS_HANGUP" using assms(2) by (auto simp: after_message_def split: if_splits)
  then show ?thesis by (simp add: c after_message_def emit_def set_plain_flag flag_numbers switch_channel_test_flag_def)
qed

section \<open>Answering\<close>

lemma callstate_active:
  "callstate (switch_channel_perform_set_callstate cs b) = (if callstate b = CCS_HANGUP then CCS_HANGUP else cs)"
  "same_call b ((switch_channel_perform_set_callstate cs b)\<lparr>callstate := callstate b\<rparr>)"
  by (simp_all add: switch_channel_perform_set_callstate_def same_call_def answers_def emit_def Let_def)

text \<open>The endpoint took the answer: the channel as it is when \<^verbatim>\<open>switch_channel_answer\<close> returns.\<close>

definition taken :: "chan_env \<Rightarrow> channel \<Rightarrow> channel \<Rightarrow> bool" where
  "taken env a b \<longleftrightarrow> switch_channel_test_flag b CF_ANSWERED \<and> answered_time b = time_now env \<and>
     callstate b = (if callstate a = CCS_HANGUP then CCS_HANGUP else CCS_ACTIVE) \<and> cstate b = cstate a \<and>
     hangup_cause b = hangup_cause a \<and> direction b = direction a \<and> answers b = answers a + 1"

lemma taken_same: "taken env a b \<Longrightarrow> same_call b c \<Longrightarrow> taken env a c"
  by (simp add: taken_def same_call_def switch_channel_test_flag_def)

lemma taken_after: "same_call a b \<Longrightarrow> taken env b c \<Longrightarrow> taken env a c"
  by (simp add: taken_def same_call_def)

lemma answer_delay_emits: "\<exists>es. Answer_Event \<notin> set es \<and> answer_delay env ch = emit es ch"
proof -
  have "emit [] ch = ch" by (simp add: emit_def)
  then have "\<exists>es. Answer_Event \<notin> set es \<and> ch = emit es ch" by (intro exI [of _ "[]"]) simp
  moreover have "\<exists>es. Answer_Event \<notin> set es \<and> emit [Sleep_Msec n] ch = emit es ch" for n
    by (intro exI [of _ "[Sleep_Msec n]"]) simp
  ultimately show ?thesis by (simp add: answer_delay_def split: option.split)
qed

lemma taken_emit: "taken env a b \<Longrightarrow> Answer_Event \<notin> set es \<Longrightarrow> taken env a (emit es b)"
  by (rule taken_same [OF _ same_emit [OF same_refl]])

lemma taken_active:
  assumes "same_call (emit [Answer_Event] (a\<lparr>answered_time := time_now env, flags := (flags a)(CF_ANSWERED := 1)\<rparr>)) b"
  shows "taken env a (switch_channel_perform_set_callstate CCS_ACTIVE b)"
  using assms callstate_active(1) [of CCS_ACTIVE b] callstate_active(2) [of b CCS_ACTIVE]
  by (simp add: taken_def same_call_def answers_def emit_def switch_channel_test_flag_def)

text \<open>What is run when a call is marked and when it is answered, with the branches that do nothing left out.\<close>

definition marked_answered :: "chan_env \<Rightarrow> channel \<Rightarrow> channel" where
  "marked_answered env a =
     (let b = (emit [Check_Dtls] a)\<lparr>answered_time := time_now env, flags := (flags a)(CF_ANSWERED := 1)\<rparr>
      in emit [Answer_Event] (if switch_true (variable env ''video_mirror_input'')
        then switch_channel_set_flag env CF_VIDEO_MIRROR_INPUT b else b))"

lemma mark_answered_eq:
  assumes "cstate a < CS_HANGUP" "hangup_cause a = 0" "\<not> switch_channel_test_flag a CF_ANSWERED"
  shows "snd (switch_channel_perform_mark_answered env a) =
    (let e = emit [Check_Autoadj] (snd (receive env ANSWER_EVENT
       (switch_channel_perform_set_callstate CCS_ACTIVE (answer_hooks env (marked_answered env a)))))
     in if switch_channel_test_flag e CF_RTT then emit [Set_Partner_Flag CF_RTT] e else e)"
  using assms
  by (simp add: switch_channel_perform_mark_answered_def marked_answered_def Let_def set_plain_flag flag_numbers emit_def)

lemma answer_eq:
  assumes "direction a = SWITCH_CALL_DIRECTION_INBOUND" "cstate a < CS_HANGUP" "hangup_cause a = 0"
    "\<not> switch_channel_test_flag a CF_ANSWERED" "receive env INDICATE_ANSWER a = (st, c)"
  shows "switch_channel_perform_answer env a = (st, answer_delay env
    (if st = SWITCH_STATUS_SUCCESS
     then (let ch = snd (switch_channel_perform_mark_answered env c)
           in if \<not> switch_channel_test_flag ch CF_EARLY_MEDIA then audio_sync ch else ch)
     else hangup_incompatible env c))"
proof -
  have "\<not> CS_HANGUP \<le> cstate a" using assms(2) by simp
  then show ?thesis unfolding switch_channel_perform_answer_def using assms(1,3-5) by (simp add: Let_def)
qed

lemma mark_answered_taken:
  assumes quiet: "\<And>v ch. same_call ch (run_hook env v ch)" "\<And>ch. same_call ch (snd (receive env ANSWER_EVENT ch))"
    and "cstate a < CS_HANGUP" "hangup_cause a = 0" "\<not> switch_channel_test_flag a CF_ANSWERED"
  shows "taken env a (snd (switch_channel_perform_mark_answered env a))"
proof -
  let ?d = "switch_channel_perform_set_callstate CCS_ACTIVE (answer_hooks env (marked_answered env a))"
  have "same_call (emit [Answer_Event] (a\<lparr>answered_time := time_now env, flags := (flags a)(CF_ANSWERED := 1)\<rparr>)) (marked_answered env a)"
    by (simp add: marked_answered_def set_plain_flag flag_numbers same_call_def answers_def emit_def Let_def)
  then have "taken env a ?d" by (intro taken_active same_hooks quiet(1))
  then have d: "taken env a (snd (receive env ANSWER_EVENT ?d))" by (rule taken_same [OF _ quiet(2)])
  note mark_answered_eq [OF assms(3-5), of env]
  with d show ?thesis by (simp add: Let_def taken_emit)
qed

text \<open>Flags and holding do not touch the state and the cause.\<close>

definition same_state :: "channel \<Rightarrow> channel \<Rightarrow> bool" where
  "same_state a b \<longleftrightarrow> cstate b = cstate a \<and> hangup_cause b = hangup_cause a"

lemma state_emit: "same_state a b \<Longrightarrow> same_state a (emit es b)"
  by (simp add: same_state_def emit_def)

lemma state_callstate: "same_state a b \<Longrightarrow> same_state a (switch_channel_perform_set_callstate cs b)"
  by (simp add: same_state_def emit_def switch_channel_perform_set_callstate_def Let_def)

lemmas state_steps = shape [where R = same_state] state_emit state_callstate

lemma state_hold:
  "same_state a b \<Longrightarrow> same_state a (push_hold env b)"
  "same_state a b \<Longrightarrow> same_state a (end_hold env b)"
  unfolding push_hold_def end_hold_def by (intro state_steps; simp add: same_state_def state_callstate [unfolded same_state_def])+

lemma state_set_flag: "same_state a b \<Longrightarrow> same_state a (switch_channel_set_flag_value env fl v b)"
  unfolding switch_channel_set_flag_value_def by (intro state_steps state_hold; simp add: same_state_def)

lemma state_clear_flag: "same_state a b \<Longrightarrow> same_state a (switch_channel_clear_flag env fl b)"
  unfolding switch_channel_clear_flag_def by (intro state_steps state_hold; simp add: same_state_def)

lemma state_mark_hold: "same_state a b \<Longrightarrow> same_state a (switch_channel_mark_hold env on b)"
  unfolding switch_channel_mark_hold_def by (intro state_steps state_set_flag state_clear_flag; assumption)

text \<open>Hanging up: a channel that is up goes down with the cause, one that is down already keeps its own.\<close>

lemma hangup_down:
  fixes n :: string and cause :: nat
  assumes "\<And>ch. later ch (hangup_state env ch)" "\<not> ocf_hangup a \<or> CS_HANGUP \<le> cstate a"
  defines "b \<equiv> switch_channel_perform_hangup env n cause a"
  shows "CS_HANGUP \<le> cstate b \<and> hangup_cause b = (if cstate a < CS_HANGUP then cause else hangup_cause a)"
proof -
  define h where "h = (if switch_channel_test_flag (a\<lparr>ocf_hangup := True\<rparr>) CF_LEG_HOLDING
     then switch_channel_set_flag env CF_HANGUP_HELD (switch_channel_mark_hold env False (a\<lparr>ocf_hangup := True\<rparr>))
     else a\<lparr>ocf_hangup := True\<rparr>)"
  define c where "c = switch_channel_clear_flag env CF_BLOCK_STATE h"
  have h: "same_state a h"
    unfolding h_def by (intro state_steps state_set_flag state_mark_hold; simp add: same_state_def)
  then have c: "same_state a c" unfolding c_def by (rule state_clear_flag)
  show ?thesis
  proof (cases "cstate a < CS_HANGUP")
    case True
    define d where "d = (close_hold env c)\<lparr>cstate := CS_HANGUP, hangup_cause := cause\<rparr>"
    let ?e = "emit [Set_Partner_Variable ''last_bridge_hangup_cause'' n] d"
    have "b = hangup_state env (emit (hangup_effects env ?e) ?e)"
      unfolding b_def switch_channel_perform_hangup_def Let_def d_def
      using assms(2) c True by (auto simp: c_def h_def same_state_def)
    then have "later (emit (hangup_effects env ?e) ?e) b" using assms(1) by simp
    then show ?thesis using True by (simp add: later_def emit_def d_def)
  next
    case False
    then have "b = (if ocf_hangup a then h else c)"
      using c unfolding b_def switch_channel_perform_hangup_def Let_def by (simp add: c_def h_def same_state_def)
    then show ?thesis using False h c by (simp add: same_state_def)
  qed
qed

section \<open>Properties\<close>

text \<open>
  C10: Answering an inbound call that is up and not answered, through the receiver of the session, when the applications
  started by the answer, the media, the endpoint and the hooks leave the call alone (its direction, state, call state, hangup
  cause and answer; other flags they may change, and a receiver that refuses may have hung up).  The status is that of
  the receiver.  If it took the answer, the read of the video has been broken, the channel is marked answered at that time, its call
  state is active, one answer event is fired and a second answer does nothing more; if it refused, the channel is down,
  with the cause \<^verbatim>\<open>INCOMPATIBLE_DESTINATION\<close> unless the receiver had hung it up itself.\<close>
theorem channel_answer:
  assumes "\<And>v ch. same_call ch (run_hook env v ch)" "polite_session rx" "\<And>ch. history ch (hangup_state env ch)"
    and "direction a = SWITCH_CALL_DIRECTION_INBOUND" "cstate a < CS_HANGUP" "hangup_cause a = 0"
    and "\<not> switch_channel_test_flag a CF_ANSWERED" "\<not> ocf_hangup a"
    and b: "switch_channel_perform_answer (session_env env rx) a = (status, b)"
  shows "\<exists>c. switch_core_session_perform_receive_message env rx INDICATE_ANSWER a = Some (status, c) \<and>
    (if status = SWITCH_STATUS_SUCCESS
     then switch_channel_test_flag c CF_VIDEO_BREAK \<and>
       switch_channel_test_flag b CF_ANSWERED \<and> answered_time b = time_now env \<and>
       callstate b = (if callstate a = CCS_HANGUP then CCS_HANGUP else CCS_ACTIVE) \<and> cstate b = cstate a \<and>
       answers b = answers a + 1 \<and> switch_channel_perform_answer (session_env env rx) b = (SWITCH_STATUS_SUCCESS, b)
     else CS_HANGUP \<le> cstate b \<and>
       hangup_cause b = (if cstate c < CS_HANGUP then SWITCH_CAUSE_INCOMPATIBLE_DESTINATION else hangup_cause c))"
proof -
  let ?e = "session_env env rx"
  obtain st c where r: "switch_core_session_perform_receive_message env rx INDICATE_ANSWER a = Some (st, c)"
    by (cases "the (switch_core_session_perform_receive_message env rx INDICATE_ANSWER a)") (simp add: receive_plain)
  have k: "kept INDICATE_ANSWER a (st, c)" using receive_kept [OF assms(2), of INDICATE_ANSWER a env] by (simp add: r)
  have e: "same_call ch (run_hook ?e v ch)" "same_call ch (snd (receive ?e ANSWER_EVENT ch))" "later ch (hangup_state ?e ch)"
    "time_now ?e = time_now env" for v ch
    using assms(1) receive_kept [OF assms(2), of ANSWER_EVENT ch env] history_later [OF assms(3)] by (simp_all add: session_env_def kept_def)
  define d where "d = (if st = SWITCH_STATUS_SUCCESS
    then (let ch = snd (switch_channel_perform_mark_answered ?e c)
          in if \<not> switch_channel_test_flag ch CF_EARLY_MEDIA then audio_sync ch else ch)
    else hangup_incompatible ?e c)"
  have "receive ?e INDICATE_ANSWER a = (st, c)" by (simp add: session_env_def r)
  from answer_eq [OF assms(4-7) this] have "switch_channel_perform_answer ?e a = (st, answer_delay ?e d)" by (simp only: d_def)
  then obtain es where es: "status = st" "Answer_Event \<notin> set es" "b = emit es d"
    using b answer_delay_emits [of ?e d] by auto
  show ?thesis
  proof (cases "st = SWITCH_STATUS_SUCCESS")
    case True
    then have same: "same_call a c" using k by (simp add: kept_def)
    then have c: "cstate c < CS_HANGUP" "hangup_cause c = 0" "\<not> switch_channel_test_flag c CF_ANSWERED"
      using assms(5-7) by (simp_all add: same_call_def switch_channel_test_flag_def)
    have "taken ?e c (snd (switch_channel_perform_mark_answered ?e c))" by (rule mark_answered_taken [OF e(1,2) c])
    then have "taken ?e a d" using True taken_after [OF same] by (simp add: d_def audio_sync_def taken_emit Let_def)
    then have t: "taken ?e a b" using es by (simp add: taken_emit)
    then have "switch_channel_perform_answer ?e b = (SWITCH_STATUS_SUCCESS, b)"
      using assms(4-6) by (simp add: taken_def switch_channel_perform_answer_def)
    moreover have "switch_channel_test_flag c CF_VIDEO_BREAK" using receive_breaks [of env rx a c] r True c(1) by simp
    ultimately show ?thesis using t es(1) r True e(4) by (simp add: taken_def)
  next
    case False
    have "\<not> ocf_hangup c \<or> CS_HANGUP \<le> cstate c" using k assms(8) by (auto simp: kept_def same_call_def)
    from hangup_down [OF e(3) this] show ?thesis
      using False es(1,3) r by (auto simp: d_def hangup_incompatible_def emit_def)
  qed
qed

text \<open>An endpoint that takes or refuses an answer and marks the channel for early media or proxy mode.\<close>

definition sample_rx :: "switch_status \<Rightarrow> message_env" where
  "sample_rx st = \<lparr>rwlock = Some SWITCH_STATUS_SUCCESS, session_destroyed = False, media_receive = None,
     endpoint_receive = Some (\<lambda>message ch. (if message = INDICATE_ANSWER then st else SWITCH_STATUS_SUCCESS,
       ch\<lparr>flags := (flags ch)(CF_PROXY_OFF := 1)\<rparr>)), message_hooks = [], located = (\<lambda>_. False)\<rparr>"

lemma sample_rx_polite: "polite_session (sample_rx st)"
  by (simp add: polite_session_def sample_rx_def polite_def kept_def same_call_def answers_def CF_ANSWERED_def CF_PROXY_OFF_def)

lemma sample_rx_status:
  assumes "cstate a < CS_HANGUP" "switch_core_session_perform_receive_message env (sample_rx st) INDICATE_ANSWER a = Some (status, c)"
  shows "status = st \<and> cstate c < CS_HANGUP"
  using assms
  by (auto simp: receive_plain sample_rx_def switch_core_session_read_lock_hangup_def receive_body_def deliver_def call_receiver_def
      confirm_transfer_def after_message_def set_plain_flag flag_numbers emit_def Let_def less_eq_channel_state_def less_channel_state_def
      split: if_splits)

lemma channel_answer_witness:
  "let a = new_channel SWITCH_CALL_DIRECTION_INBOUND\<lparr>cstate := CS_EXECUTE\<rparr>;
       (yes, b) = switch_channel_perform_answer (session_env quiet_env (sample_rx SWITCH_STATUS_SUCCESS)) a;
       (no, d) = switch_channel_perform_answer (session_env quiet_env (sample_rx SWITCH_STATUS_FALSE)) a
   in yes = SWITCH_STATUS_SUCCESS \<and> switch_channel_test_flag b CF_ANSWERED \<and> callstate b = CCS_ACTIVE \<and>
      no = SWITCH_STATUS_FALSE \<and> CS_HANGUP \<le> cstate d \<and> hangup_cause d = SWITCH_CAUSE_INCOMPATIBLE_DESTINATION"
proof -
  define a where "a = new_channel SWITCH_CALL_DIRECTION_INBOUND\<lparr>cstate := CS_EXECUTE\<rparr>"
  obtain yes b no d where bd: "switch_channel_perform_answer (session_env quiet_env (sample_rx SWITCH_STATUS_SUCCESS)) a = (yes, b)"
    "switch_channel_perform_answer (session_env quiet_env (sample_rx SWITCH_STATUS_FALSE)) a = (no, d)" by fastforce
  have q: "same_call ch (run_hook quiet_env v ch)" "history ch (hangup_state quiet_env ch)" for v ch
    by (simp_all add: quiet_env_def history.start same_refl)
  have a: "direction a = SWITCH_CALL_DIRECTION_INBOUND" "cstate a < CS_HANGUP" "hangup_cause a = 0"
    "\<not> switch_channel_test_flag a CF_ANSWERED" "\<not> ocf_hangup a" "callstate a = CCS_DOWN"
    by (simp_all add: a_def new_channel_def switch_channel_test_flag_def state_order)
  note answer = channel_answer [OF q(1) sample_rx_polite q(2) a(1-5)]
  from answer [OF bd(1)] answer [OF bd(2)] sample_rx_status [OF a(2)] a(6)
  show ?thesis by (auto simp: a_def [symmetric] bd split: if_splits)
qed

end
