(* ===== verification/Hashtable.thy ===== *)
theory Hashtable
  imports Prelude Ascii
begin

text \<open>
  The chained hash table of \<^verbatim>\<open>src/switch_hashtable.c\<close> (Clark's C hashtable) with the key
  functions of \<^verbatim>\<open>include/switch_hashtable.h\<close> and the mixing of
  \<^verbatim>\<open>include/private/switch_hashtable_private.h\<close>.  A bucket is the list of its chained
  entries.  The table is shown to be a finite map up to the key equality, under every
  growth of the table, and to release what it owns exactly once.
\<close>

unbundle bit_operations_syntax

section \<open>Data\<close>

definition HASHTABLE_FLAG_NONE :: u32 where "HASHTABLE_FLAG_NONE = 0"
definition HASHTABLE_FLAG_FREE_KEY :: u32 where "HASHTABLE_FLAG_FREE_KEY = 1"
definition HASHTABLE_FLAG_FREE_VALUE :: u32 where "HASHTABLE_FLAG_FREE_VALUE = 2"
definition HASHTABLE_DUP_CHECK :: u32 where "HASHTABLE_DUP_CHECK = 4"

lemmas hashtable_flags = HASHTABLE_FLAG_NONE_def HASHTABLE_FLAG_FREE_KEY_def
  HASHTABLE_FLAG_FREE_VALUE_def HASHTABLE_DUP_CHECK_def

text \<open>
  An entry: key, value (\<open>None\<close> is the \<^verbatim>\<open>NULL\<close> pointer), mixed hash, flags, and the
  destructor, a function pointer named by a number.
\<close>

record ('k, 'v) entry =
  e_k :: 'k
  e_v :: "'v option"
  e_h :: u32
  e_flags :: u32
  e_destructor :: "nat option"

record ('k, 'v) switch_hashtable =
  tablelength :: nat
  table :: "('k, 'v) entry list list"
  entrycount :: u32
  loadlimit :: u32
  primeindex :: nat
  hashfn :: "'k \<Rightarrow> u32"
  eqfn :: "'k \<Rightarrow> 'k \<Rightarrow> bool"

text \<open>
  The iterator: the bucket position and the current entry with those chained behind it
  (\<open>[]\<close> is a \<^verbatim>\<open>NULL\<close> entry pointer).
\<close>

record ('k, 'v) switch_hashtable_iterator =
  pos :: nat
  it_e :: "('k, 'v) entry list"
  it_h :: "('k, 'v) switch_hashtable"

text \<open>What a table does to the memory it was given: the calls on keys and values.\<close>

datatype ('k, 'v) release =
    FreeKey 'k
  | FreeValue 'v
  | Destructor nat "'v option"

text \<open>Which of the allocations of one insertion succeed.\<close>

record ht_alloc =
  table_malloc :: bool
  table_realloc :: bool
  entry_malloc :: bool

section \<open>Hashing of keys\<close>

definition hash :: "('k, 'v) switch_hashtable \<Rightarrow> 'k \<Rightarrow> u32" where
  "hash h k =
     (let i = hashfn h k;
          i = i + NOT (push_bit 9 i);
          i = i XOR (drop_bit 14 i OR push_bit 18 i);
          i = i + push_bit 4 i;
          i = i XOR (drop_bit 10 i OR push_bit 22 i)
      in i)"

definition indexFor :: "nat \<Rightarrow> u32 \<Rightarrow> nat" where
  "indexFor len hashvalue = unat hashvalue mod len"

definition switch_hash_default_int :: "u32 \<Rightarrow> u32" where
  "switch_hash_default_int ky =
     (let x = ky;
          x = (drop_bit 16 x XOR x) * 0x45d9f3b;
          x = (drop_bit 16 x XOR x) * 0x45d9f3b;
          x = drop_bit 16 x XOR x
      in x)"

definition switch_hash_equalkeys_int :: "u32 \<Rightarrow> u32 \<Rightarrow> bool" where
  "switch_hash_equalkeys_int k1 k2 \<longleftrightarrow> k1 = k2"

text \<open>
  C strings are character lists without the terminating NUL; a loop over \<^verbatim>\<open>*str\<close> that ends
  at NUL is a recursion that ends with the list.
\<close>

definition sdbm_step :: "u32 \<Rightarrow> u32 \<Rightarrow> u32" where
  "sdbm_step hsh c = c + push_bit 6 hsh + push_bit 16 hsh - hsh"

primrec sdbm_loop :: "(u32 \<Rightarrow> u32) \<Rightarrow> string \<Rightarrow> u32 \<Rightarrow> u32" where
  "sdbm_loop f [] hsh = hsh"
| "sdbm_loop f (c # str) hsh =
     (let c' = f (of_char c) in if c' = 0 then hsh else sdbm_loop f str (sdbm_step hsh c'))"

definition switch_hash_default :: "string \<Rightarrow> u32" where
  "switch_hash_default ky = sdbm_loop (\<lambda>c. c) ky 0"

definition switch_hash_default_ci :: "string \<Rightarrow> u32" where
  "switch_hash_default_ci ky = sdbm_loop switch_tolower ky 0"

text \<open>The results of \<^verbatim>\<open>strcmp\<close> and \<^verbatim>\<open>strcasecmp\<close> are only tested for zero.\<close>

definition switch_hash_equalkeys :: "string \<Rightarrow> string \<Rightarrow> bool" where
  "switch_hash_equalkeys k1 k2 \<longleftrightarrow> k1 = k2"

definition switch_hash_equalkeys_ci :: "string \<Rightarrow> string \<Rightarrow> bool" where
  "switch_hash_equalkeys_ci k1 k2 \<longleftrightarrow> strcaseeq k1 k2"

section \<open>Creation\<close>

definition primes :: "nat list" where
  "primes = [53, 97, 193, 389, 769, 1543, 3079, 6151, 12289, 24593, 49157, 98317,
     196613, 393241, 786433, 1572869, 3145739, 6291469, 12582917, 25165843,
     50331653, 100663319, 201326611, 402653189, 805306457, 1610612741]"

definition prime_table_length :: nat where
  "prime_table_length = length primes"

text \<open>
  \<^verbatim>\<open>(unsigned int) ceil(size * max_load_factor)\<close> in single precision: the integer and the
  product are each rounded to 24 significant bits, to nearest with ties to even, and
  \<^verbatim>\<open>0.65f\<close> is 10905190 / 2^24.
\<close>

fun bit_count :: "nat \<Rightarrow> nat" where
  "bit_count n = (if n = 0 then 0 else Suc (bit_count (n div 2)))"

declare bit_count.simps [simp del]

definition float_round :: "nat \<Rightarrow> nat" where
  "float_round x =
     (let s = bit_count x - 24; q = x div 2 ^ s; r = x mod 2 ^ s in
      if s = 0 then x
      else if r > 2 ^ (s - 1) \<or> (r = 2 ^ (s - 1) \<and> odd q) then (q + 1) * 2 ^ s
      else q * 2 ^ s)"

definition max_load_factor :: nat where
  "max_load_factor = 10905190"

definition load_limit :: "nat \<Rightarrow> u32" where
  "load_limit sz =
     (let p = float_round (float_round sz * max_load_factor) in
      of_nat ((p + 2 ^ 24 - 1) div 2 ^ 24))"

text \<open>The search for the first prime above \<open>minsize\<close>: its index and value.\<close>

fun pick_prime :: "nat \<Rightarrow> nat \<Rightarrow> nat list \<Rightarrow> nat \<times> nat" where
  "pick_prime minsize pindex [] = (pindex, 53)"
| "pick_prime minsize pindex (p # ps) =
     (if p > minsize then (pindex, p) else pick_prime minsize (Suc pindex) ps)"

definition switch_create_hashtable ::
  "nat \<Rightarrow> ('k \<Rightarrow> u32) \<Rightarrow> ('k \<Rightarrow> 'k \<Rightarrow> bool) \<Rightarrow> ('k, 'v) switch_hashtable option \<times> switch_status" where
  "switch_create_hashtable minsize hashf eqf =
     (if minsize > 2 ^ 30 then (None, SWITCH_STATUS_FALSE)
      else (let (pindex, len) = pick_prime minsize 0 primes in
        (Some \<lparr>tablelength = len, table = replicate len [], entrycount = 0,
               loadlimit = load_limit len, primeindex = pindex,
               hashfn = hashf, eqfn = eqf\<rparr>, SWITCH_STATUS_SUCCESS)))"

section \<open>Growth\<close>

primrec rehash_chain ::
  "nat \<Rightarrow> ('k, 'v) entry list \<Rightarrow> ('k, 'v) entry list list \<Rightarrow> ('k, 'v) entry list list" where
  "rehash_chain newsize [] newtable = newtable"
| "rehash_chain newsize (e # es) newtable =
     (let index = indexFor newsize (e_h e) in
      rehash_chain newsize es (newtable[index := e # newtable ! index]))"

primrec rehash ::
  "nat \<Rightarrow> ('k, 'v) entry list list \<Rightarrow> ('k, 'v) entry list list \<Rightarrow> ('k, 'v) entry list list" where
  "rehash newsize [] newtable = newtable"
| "rehash newsize (c # cs) newtable = rehash newsize cs (rehash_chain newsize c newtable)"

text \<open>
  The result is \<open>None\<close> on the \<^verbatim>\<open>realloc\<close> path once it got the memory: there the code
  calls \<^verbatim>\<open>memset\<close> on the pointer stored at \<^verbatim>\<open>newtable[h->tablelength]\<close>, which is not initialised.
  The boolean is the C result \<^verbatim>\<open>-1\<close> (grown) or \<^verbatim>\<open>0\<close>.
\<close>

definition hashtable_expand ::
  "ht_alloc \<Rightarrow> ('k, 'v) switch_hashtable \<Rightarrow> (bool \<times> ('k, 'v) switch_hashtable) option" where
  "hashtable_expand al h =
     (if primeindex h = prime_table_length - 1 then Some (False, h)
      else (let pindex = primeindex h + 1; newsize = primes ! pindex in
        if table_malloc al then
          Some (True, h\<lparr>primeindex := pindex,
                         table := rehash newsize (table h) (replicate newsize []),
                         tablelength := newsize, loadlimit := load_limit newsize\<rparr>)
        else if table_realloc al then None
        else Some (False, h)))"

section \<open>Lookup, removal and insertion\<close>

definition switch_hashtable_count :: "('k, 'v) switch_hashtable \<Rightarrow> u32" where
  "switch_hashtable_count h = entrycount h"

definition key_matches :: "('k, 'v) switch_hashtable \<Rightarrow> u32 \<Rightarrow> 'k \<Rightarrow> ('k, 'v) entry \<Rightarrow> bool" where
  "key_matches h hashvalue k e \<longleftrightarrow> hashvalue = e_h e \<and> eqfn h k (e_k e)"

text \<open>The walk of \<^verbatim>\<open>_switch_hashtable_remove\<close>: the entry unlinked and the chain left.\<close>

fun chain_unlink ::
  "(('k, 'v) entry \<Rightarrow> bool) \<Rightarrow> ('k, 'v) entry list \<Rightarrow> (('k, 'v) entry \<times> ('k, 'v) entry list) option" where
  "chain_unlink m [] = None"
| "chain_unlink m (e # es) =
     (if m e then Some (e, es)
      else map_option (\<lambda>(x, rest). (x, e # rest)) (chain_unlink m es))"

text \<open>What is released when an entry goes: by removal or with the table.\<close>

definition release_entry :: "('k, 'v) entry \<Rightarrow> ('k, 'v) release list" where
  "release_entry e =
     (if e_flags e AND HASHTABLE_FLAG_FREE_KEY \<noteq> 0 then [FreeKey (e_k e)] else []) @
     (if e_flags e AND HASHTABLE_FLAG_FREE_VALUE \<noteq> 0
      then (case e_v e of None \<Rightarrow> [] | Some v \<Rightarrow> [FreeValue v])
      else (case e_destructor e of None \<Rightarrow> [] | Some d \<Rightarrow> [Destructor d (e_v e)]))"

definition removed_value :: "('k, 'v) entry \<Rightarrow> 'v option" where
  "removed_value e =
     (if e_flags e AND HASHTABLE_FLAG_FREE_VALUE \<noteq> 0 then None
      else if e_destructor e \<noteq> None then None else e_v e)"

definition hashtable_remove_at ::
  "('k, 'v) switch_hashtable \<Rightarrow> 'k \<Rightarrow> u32 \<Rightarrow> nat \<Rightarrow>
   'v option \<times> ('k, 'v) switch_hashtable \<times> ('k, 'v) release list" where
  "hashtable_remove_at h k hashvalue index =
     (case chain_unlink (key_matches h hashvalue k) (table h ! index) of
        None \<Rightarrow> (None, h, [])
      | Some (e, rest) \<Rightarrow>
          (removed_value e,
           h\<lparr>table := (table h)[index := rest], entrycount := entrycount h - 1\<rparr>,
           release_entry e))"

definition switch_hashtable_insert_destructor ::
  "ht_alloc \<Rightarrow> ('k, 'v) switch_hashtable \<Rightarrow> 'k \<Rightarrow> 'v option \<Rightarrow> u32 \<Rightarrow> nat option \<Rightarrow>
   (bool \<times> ('k, 'v) switch_hashtable \<times> ('k, 'v) release list) option" where
  "switch_hashtable_insert_destructor al h k v flags destructor =
     (let hashvalue = hash h k;
          index = indexFor (tablelength h) hashvalue;
          (h, out) = (if flags AND HASHTABLE_DUP_CHECK \<noteq> 0
                      then snd (hashtable_remove_at h k hashvalue index) else (h, []));
          h = h\<lparr>entrycount := entrycount h + 1\<rparr>
      in case (if entrycount h > loadlimit h
               then map_option snd (hashtable_expand al h) else Some h) of
           None \<Rightarrow> None
         | Some h \<Rightarrow>
             if \<not> entry_malloc al then Some (False, h\<lparr>entrycount := entrycount h - 1\<rparr>, out)
             else (let index = indexFor (tablelength h) hashvalue;
                       e = \<lparr>e_k = k, e_v = v, e_h = hashvalue, e_flags = flags,
                            e_destructor = destructor\<rparr>
                   in Some (True, h\<lparr>table := (table h)[index := e # table h ! index]\<rparr>, out)))"

fun chain_find :: "(('k, 'v) entry \<Rightarrow> bool) \<Rightarrow> ('k, 'v) entry list \<Rightarrow> ('k, 'v) entry option" where
  "chain_find m [] = None"
| "chain_find m (e # es) = (if m e then Some e else chain_find m es)"

definition hashtable_find :: "('k, 'v) switch_hashtable \<Rightarrow> 'k \<Rightarrow> ('k, 'v) entry option" where
  "hashtable_find h k =
     (let hashvalue = hash h k in
      chain_find (key_matches h hashvalue k) (table h ! indexFor (tablelength h) hashvalue))"

definition switch_hashtable_search :: "('k, 'v) switch_hashtable \<Rightarrow> 'k \<Rightarrow> 'v option" where
  "switch_hashtable_search h k =
     (case hashtable_find h k of None \<Rightarrow> None | Some e \<Rightarrow> e_v e)"

definition switch_hashtable_remove ::
  "('k, 'v) switch_hashtable \<Rightarrow> 'k \<Rightarrow>
   'v option \<times> ('k, 'v) switch_hashtable \<times> ('k, 'v) release list" where
  "switch_hashtable_remove h k =
     (let hashvalue = hash h k in
      hashtable_remove_at h k hashvalue (indexFor (tablelength h) hashvalue))"

primrec destroy_chain :: "('k, 'v) entry list \<Rightarrow> ('k, 'v) release list" where
  "destroy_chain [] = []"
| "destroy_chain (f # e) = release_entry f @ destroy_chain e"

definition switch_hashtable_destroy :: "('k, 'v) switch_hashtable \<Rightarrow> ('k, 'v) release list" where
  "switch_hashtable_destroy h = concat (map (\<lambda>i. destroy_chain (table h ! i)) [0..<tablelength h])"

section \<open>Iteration\<close>

text \<open>\<^verbatim>\<open>while (i->pos < i->h->tablelength && !i->h->table[i->pos]) i->pos++;\<close>\<close>

function skip_empty :: "('k, 'v) switch_hashtable \<Rightarrow> nat \<Rightarrow> nat" where
  "skip_empty h p = (if p < tablelength h \<and> table h ! p = [] then skip_empty h (Suc p) else p)"
  by auto
termination by (relation "measure (\<lambda>(h, p). tablelength h - p)") auto

declare skip_empty.simps [simp del]

definition next_bucket ::
  "('k, 'v) switch_hashtable_iterator \<Rightarrow> ('k, 'v) switch_hashtable_iterator option" where
  "next_bucket i =
     (let p = skip_empty (it_h i) (pos i) in
      if p \<ge> tablelength (it_h i) then None
      else if table (it_h i) ! p \<noteq> [] then Some (i\<lparr>pos := p, it_e := table (it_h i) ! p\<rparr>)
      else None)"

text \<open>\<open>None\<close> is the end: the iterator is freed and \<^verbatim>\<open>NULL\<close> returned.\<close>

definition switch_hashtable_next ::
  "('k, 'v) switch_hashtable_iterator \<Rightarrow> ('k, 'v) switch_hashtable_iterator option" where
  "switch_hashtable_next i =
     (case it_e i of
        [] \<Rightarrow> next_bucket i
      | _ # nxt \<Rightarrow>
          if nxt \<noteq> [] then Some (i\<lparr>it_e := nxt\<rparr>)
          else next_bucket (i\<lparr>it_e := [], pos := pos i + 1\<rparr>))"

definition switch_hashtable_first_iter ::
  "('k, 'v) switch_hashtable \<Rightarrow> ('k, 'v) switch_hashtable_iterator option" where
  "switch_hashtable_first_iter h = switch_hashtable_next \<lparr>pos = 0, it_e = [], it_h = h\<rparr>"

text \<open>The key and value out-parameters, \<open>None\<close> where \<^verbatim>\<open>NULL\<close> is stored.\<close>

definition switch_hashtable_this ::
  "('k, 'v) switch_hashtable_iterator \<Rightarrow> 'k option \<times> 'v option" where
  "switch_hashtable_this i =
     (case it_e i of [] \<Rightarrow> (None, None) | e # _ \<Rightarrow> (Some (e_k e), e_v e))"

text \<open>\<^verbatim>\<open>i->e->v = val\<close> writes through the entry pointer into the table.\<close>

definition switch_hashtable_this_val ::
  "('k, 'v) switch_hashtable_iterator \<Rightarrow> 'v option \<Rightarrow> ('k, 'v) switch_hashtable_iterator" where
  "switch_hashtable_this_val i val =
     (case it_e i of
        [] \<Rightarrow> i
      | e # nxt \<Rightarrow>
          (let chain = table (it_h i) ! pos i;
               off = length chain - length (it_e i);
               new = e\<lparr>e_v := val\<rparr> # nxt
           in i\<lparr>it_e := new,
                 it_h := (it_h i)\<lparr>table := (table (it_h i))[pos i := take off chain @ new]\<rparr>\<rparr>))"

text \<open>
  The loop every caller writes,
  \<^verbatim>\<open>for (hi = switch_hashtable_first(h); hi; hi = switch_hashtable_next(&hi))\<close>, collecting
  what \<open>f\<close> reads from the iterator; the fuel bounds the number of entries visited.
\<close>

fun iterate :: "nat \<Rightarrow> (('k, 'v) switch_hashtable_iterator \<Rightarrow> 'a) \<Rightarrow>
    ('k, 'v) switch_hashtable_iterator option \<Rightarrow> 'a list option" where
  "iterate n f None = Some []"
| "iterate 0 f (Some i) = None"
| "iterate (Suc n) f (Some i) =
     map_option (\<lambda>xs. f i # xs) (iterate n f (switch_hashtable_next i))"

section \<open>Key functions agree with their equalities\<close>

locale hash_keys =
  fixes hf :: "'k \<Rightarrow> u32" and eq :: "'k \<Rightarrow> 'k \<Rightarrow> bool"
  assumes eq_refl: "eq k k"
    and eq_sym: "eq k k' \<Longrightarrow> eq k' k"
    and eq_trans: "eq k k' \<Longrightarrow> eq k' k'' \<Longrightarrow> eq k k''"
    and eq_hash: "eq k k' \<Longrightarrow> hf k = hf k'"
begin

lemma eq_left: "eq k k' \<Longrightarrow> eq k x \<longleftrightarrow> eq k' x"
  using eq_sym eq_trans by blast

end

interpretation int_keys: hash_keys switch_hash_default_int switch_hash_equalkeys_int
  by unfold_locales (simp_all add: switch_hash_equalkeys_int_def)

interpretation str_keys: hash_keys switch_hash_default switch_hash_equalkeys
  by unfold_locales (simp_all add: switch_hash_equalkeys_def)

lemma sdbm_loop_ci:
  "map c_tolower k = map c_tolower k' \<Longrightarrow>
   sdbm_loop switch_tolower k hsh = sdbm_loop switch_tolower k' hsh"
proof (induction k arbitrary: k' hsh)
  case (Cons c k)
  then obtain d k2 where "k' = d # k2" "c_tolower c = c_tolower d" "map c_tolower k = map c_tolower k2"
    by (cases k') auto
  with Cons.IH show ?case by (simp add: switch_tolower_char Let_def)
qed simp

interpretation ci_keys: hash_keys switch_hash_default_ci switch_hash_equalkeys_ci
  by unfold_locales
    (auto simp: switch_hash_equalkeys_ci_def strcaseeq_def switch_hash_default_ci_def intro: sdbm_loop_ci)

section \<open>The table as a multiset of entries\<close>

definition entries :: "('k, 'v) switch_hashtable \<Rightarrow> ('k, 'v) entry multiset" where
  "entries h = mset (concat (table h))"

definition placed :: "nat \<Rightarrow> ('k, 'v) entry list list \<Rightarrow> bool" where
  "placed len t \<longleftrightarrow> length t = len \<and> 0 < len \<and>
     (\<forall>i < len. \<forall>e \<in> set (t ! i). indexFor len (e_h e) = i)"

definition keys_unique :: "('k \<Rightarrow> 'k \<Rightarrow> bool) \<Rightarrow> ('k, 'v) entry multiset \<Rightarrow> bool" where
  "keys_unique eq M \<longleftrightarrow> (\<forall>k. size (filter_mset (\<lambda>e. eq k (e_k e)) M) \<le> 1)"

text \<open>
  The well-formedness every operation keeps: \<open>ht_shape\<close> is what the middle of an
  insertion has too, \<open>ht_inv\<close> adds the entry count and that no two keys are equal.
\<close>

definition ht_shape :: "('k, 'v) switch_hashtable \<Rightarrow> bool" where
  "ht_shape h \<longleftrightarrow> hash_keys (hashfn h) (eqfn h) \<and> primeindex h < prime_table_length \<and>
     tablelength h = primes ! primeindex h \<and> placed (tablelength h) (table h) \<and>
     (\<forall>e \<in># entries h. e_h e = hash h (e_k e))"

definition ht_inv :: "('k, 'v) switch_hashtable \<Rightarrow> bool" where
  "ht_inv h \<longleftrightarrow> ht_shape h \<and> keys_unique (eqfn h) (entries h) \<and>
     entrycount h = of_nat (size (entries h))"

lemma hash_cong: "hashfn h = hashfn h' \<Longrightarrow> hash h = hash h'"
  by (simp add: fun_eq_iff hash_def)

lemma hash_updates [simp]:
  "hash (h\<lparr>entrycount := n\<rparr>) = hash h"
  "hash (h\<lparr>table := t\<rparr>) = hash h"
  "hash (h\<lparr>loadlimit := n\<rparr>) = hash h"
  "hash (h\<lparr>tablelength := l\<rparr>) = hash h"
  "hash (h\<lparr>primeindex := l\<rparr>) = hash h"
  by (simp_all add: fun_eq_iff hash_def)

lemma entries_updates [simp]:
  "entries (h\<lparr>entrycount := n\<rparr>) = entries h"
  "entries (h\<lparr>loadlimit := n\<rparr>) = entries h"
  "entries (h\<lparr>table := t\<rparr>) = mset (concat t)"
  by (simp_all add: entries_def)

lemma shape_count [simp]: "ht_shape (h\<lparr>entrycount := n\<rparr>) = ht_shape h"
  by (simp add: ht_shape_def)

lemma mset_concat_update:
  "i < length t \<Longrightarrow> mset (concat (t[i := c])) + mset (t ! i) = mset (concat t) + mset c"
proof (induction t arbitrary: i)
  case (Cons a t)
  then show ?case by (cases i) (auto simp: union_ac)
qed simp

lemma mset_concat_push:
  "i < length t \<Longrightarrow> mset (concat (t[i := e # t ! i])) = add_mset e (mset (concat t))"
  using mset_concat_update [of i t "e # t ! i"] by simp

lemma placed_update:
  "placed len t \<Longrightarrow> i < len \<Longrightarrow> (\<And>e. e \<in> set c \<Longrightarrow> indexFor len (e_h e) = i) \<Longrightarrow>
   placed len (t[i := c])"
  by (auto simp: placed_def nth_list_update)

lemma placedD: "placed len t \<Longrightarrow> i < length t \<Longrightarrow> e \<in> set (t ! i) \<Longrightarrow> indexFor len (e_h e) = i"
  by (simp add: placed_def)

lemma placed_empty: "0 < len \<Longrightarrow> placed len (replicate len [])"
  by (simp add: placed_def)

lemma indexFor_less: "0 < len \<Longrightarrow> indexFor len hv < len"
  by (simp add: indexFor_def)

lemma placed_push:
  "placed len t \<Longrightarrow> i = indexFor len (e_h e) \<Longrightarrow>
   placed len (t[i := e # t ! i]) \<and> mset (concat (t[i := e # t ! i])) = add_mset e (mset (concat t))"
  by (auto simp: placed_def nth_list_update mset_concat_push indexFor_less)

section \<open>Growing keeps the entries\<close>

lemma rehash_chain_placed:
  "placed len t \<Longrightarrow>
   placed len (rehash_chain len c t) \<and> mset (concat (rehash_chain len c t)) = mset c + mset (concat t)"
proof (induction c arbitrary: t)
  case (Cons e c)
  from placed_push [OF Cons.prems refl, of e]
  have "placed len (t[indexFor len (e_h e) := e # t ! indexFor len (e_h e)])"
    and "mset (concat (t[indexFor len (e_h e) := e # t ! indexFor len (e_h e)])) =
         add_mset e (mset (concat t))" by auto
  with Cons.IH show ?case by (simp add: Let_def)
qed simp

lemma rehash_placed:
  "placed len t \<Longrightarrow>
   placed len (rehash len cs t) \<and> mset (concat (rehash len cs t)) = mset (concat cs) + mset (concat t)"
  by (induction cs arbitrary: t) (simp_all add: rehash_chain_placed union_ac)

lemma primes_pos: "p \<in> set primes \<Longrightarrow> 0 < p"
  by (auto simp: primes_def)

lemma primes_nth_pos: "i < prime_table_length \<Longrightarrow> 0 < primes ! i"
  by (rule primes_pos) (simp add: prime_table_length_def)

lemma expand_spec:
  assumes "ht_shape h" and "table_malloc al \<or> \<not> table_realloc al"
  obtains b h' where "hashtable_expand al h = Some (b, h')" "ht_shape h'" "entries h' = entries h"
    "entrycount h' = entrycount h" "hashfn h' = hashfn h" "eqfn h' = eqfn h"
proof (cases "primeindex h = prime_table_length - 1 \<or> \<not> table_malloc al")
  case True
  then have "hashtable_expand al h = Some (False, h)"
    using assms(2) by (auto simp: hashtable_expand_def Let_def)
  then show ?thesis using that assms(1) by blast
next
  case False
  let ?p = "primeindex h + 1" and ?t = "rehash (primes ! (primeindex h + 1)) (table h)
    (replicate (primes ! (primeindex h + 1)) [])"
  let ?h = "h\<lparr>primeindex := ?p, table := ?t, tablelength := primes ! ?p,
    loadlimit := load_limit (primes ! ?p)\<rparr>"
  have p: "?p < prime_table_length" using False assms(1) by (auto simp: ht_shape_def)
  from rehash_placed [OF placed_empty [OF primes_nth_pos [OF p]], of "table h"]
  have t: "placed (primes ! ?p) ?t" "mset (concat ?t) = entries h"
    by (auto simp: entries_def)
  then have e: "entries ?h = entries h" by (simp add: entries_def)
  moreover have "ht_shape ?h"
    unfolding ht_shape_def using assms(1) p t(1) e by (simp add: ht_shape_def)
  moreover have "hashtable_expand al h = Some (True, ?h)"
    using False by (simp add: hashtable_expand_def Let_def)
  ultimately show ?thesis by (intro that [of True ?h]) simp_all
qed

section \<open>Chains\<close>

lemma chain_find_None: "chain_find m c = None \<longleftrightarrow> (\<forall>e \<in> set c. \<not> m e)"
  by (induction c) auto

lemma chain_find_Some: "chain_find m c = Some e \<Longrightarrow> e \<in> set c \<and> m e"
  by (induction c) (auto split: if_splits)

lemma chain_unlink_None: "chain_unlink m c = None \<longleftrightarrow> (\<forall>e \<in> set c. \<not> m e)"
  by (induction c) auto

lemma chain_unlink_Some:
  "chain_unlink m c = Some (e, r) \<Longrightarrow> chain_find m c = Some e \<and> mset c = add_mset e (mset r)"
  by (induction c arbitrary: r) (auto split: if_splits)

text \<open>An equal key is only ever in the bucket the walk looks at.\<close>

lemma bucket_of_key:
  assumes "ht_shape h" "e \<in># entries h" "eqfn h k (e_k e)"
  shows "e \<in> set (table h ! indexFor (tablelength h) (hash h k)) \<and> key_matches h (hash h k) k e"
proof -
  have pl: "placed (tablelength h) (table h)" and kl: "hash_keys (hashfn h) (eqfn h)"
    using assms(1) by (auto simp: ht_shape_def)
  from assms(2) obtain c where "c \<in> set (table h)" "e \<in> set c"
    by (auto simp: entries_def)
  then obtain i where i: "i < tablelength h" "e \<in> set (table h ! i)"
    using pl by (metis in_set_conv_nth placed_def)
  have "hash h k = hash h (e_k e)"
    using hash_keys.eq_hash [OF kl assms(3)] by (simp add: hash_def)
  then have "e_h e = hash h k" using assms(1,2) by (simp add: ht_shape_def)
  moreover from i pl have "i = indexFor (tablelength h) (e_h e)" by (simp add: placed_def)
  ultimately show ?thesis using i(2) assms(3) by (simp only: key_matches_def)
qed

lemma in_bucket_in_entries:
  "ht_shape h \<Longrightarrow> e \<in> set (table h ! indexFor (tablelength h) hv) \<Longrightarrow> e \<in># entries h"
  unfolding ht_shape_def placed_def entries_def
  using indexFor_less [of "tablelength h" hv] nth_mem [of "indexFor (tablelength h) hv" "table h"]
  by auto

lemma find_None:
  "ht_shape h \<Longrightarrow> hashtable_find h k = None \<longleftrightarrow> (\<forall>e \<in># entries h. \<not> eqfn h k (e_k e))"
  unfolding hashtable_find_def Let_def chain_find_None
  using bucket_of_key [of h _ k] in_bucket_in_entries [of h _ "hash h k"]
  by (meson key_matches_def)

lemma find_Some: 
  "ht_shape h \<Longrightarrow> hashtable_find h k = Some e \<Longrightarrow> e \<in># entries h \<and> eqfn h k (e_k e)"
  unfolding hashtable_find_def Let_def
  using in_bucket_in_entries [of h e "hash h k"] chain_find_Some key_matches_def by metis

lemma unique_entry:
  assumes "keys_unique eq M" "e \<in># M" "e' \<in># M" "eq k (e_k e)" "eq k (e_k e')"
  shows "e = e'"
proof (rule ccontr)
  assume "e \<noteq> e'"
  then have "{#e, e'#} \<subseteq># filter_mset (\<lambda>e. eq k (e_k e)) M"
    using assms(2-5) by (simp add: insert_subset_eq_iff in_diff_count)
  then have "size {#e, e'#} \<le> size (filter_mset (\<lambda>e. eq k (e_k e)) M)"
    by (rule size_mset_mono)
  moreover have "size (filter_mset (\<lambda>e. eq k (e_k e)) M) \<le> 1"
    using assms(1) unfolding keys_unique_def by blast
  ultimately show False by simp
qed

lemma find_iff:
  assumes "ht_shape h" "keys_unique (eqfn h) (entries h)"
  shows "hashtable_find h k = Some e \<longleftrightarrow> e \<in># entries h \<and> eqfn h k (e_k e)"
proof
  assume e: "e \<in># entries h \<and> eqfn h k (e_k e)"
  then obtain e' where f: "hashtable_find h k = Some e'"
    using find_None [OF assms(1), of k] by (cases "hashtable_find h k") auto
  from find_Some [OF assms(1) f] e have "e' = e"
    using unique_entry [OF assms(2)] by blast
  with f show "hashtable_find h k = Some e" by simp
qed (rule find_Some [OF assms(1)])

lemma unique_remove:
  assumes "keys_unique eq (add_mset e M)"
  shows "keys_unique eq M"
  unfolding keys_unique_def
proof
  fix k
  have "size (filter_mset (\<lambda>e. eq k (e_k e)) M) \<le> size (filter_mset (\<lambda>e. eq k (e_k e)) (add_mset e M))"
    by simp
  also have "\<dots> \<le> 1" using assms unfolding keys_unique_def by blast
  finally show "size (filter_mset (\<lambda>e. eq k (e_k e)) M) \<le> 1" .
qed

lemma unique_insert:
  assumes "hash_keys hf eq" "keys_unique eq M" "\<And>e'. e' \<in># M \<Longrightarrow> \<not> eq (e_k e) (e_k e')"
  shows "keys_unique eq (add_mset e M)"
  unfolding keys_unique_def
proof
  fix k
  show "size (filter_mset (\<lambda>e. eq k (e_k e)) (add_mset e M)) \<le> 1"
  proof (cases "eq k (e_k e)")
    case True
    have "filter_mset (\<lambda>e. eq k (e_k e)) M = filter_mset (\<lambda>_. False) M"
      using hash_keys.eq_left [OF assms(1) True] assms(3) by (intro filter_mset_cong) auto
    then show ?thesis using True by simp
  next
    case False
    then show ?thesis using assms(2) by (simp add: keys_unique_def)
  qed
qed

lemma find_add:
  assumes "ht_inv h" "ht_inv h'" "eqfn h' = eqfn h" "entries h' = add_mset e (entries h)"
  shows "hashtable_find h' k = (if eqfn h k (e_k e) then Some e else hashtable_find h k)"
proof -
  have f: "hashtable_find h k = Some x \<longleftrightarrow> x \<in># entries h \<and> eqfn h k (e_k x)"
    "hashtable_find h' k = Some x \<longleftrightarrow> x \<in># entries h' \<and> eqfn h k (e_k x)" for x
    using assms by (auto simp: ht_inv_def find_iff)
  show ?thesis
  proof (cases "eqfn h k (e_k e)")
    case True
    then show ?thesis using f(2) [of e] assms(4) by simp
  next
    case False
    then have "hashtable_find h' k = Some x \<longleftrightarrow> hashtable_find h k = Some x" for x
      using f [of x] assms(4) by auto
    then have "hashtable_find h' k = hashtable_find h k"
      by (metis option.exhaust)
    then show ?thesis using False by simp
  qed
qed

section \<open>Removal\<close>

definition owed :: "('k, 'v) switch_hashtable \<Rightarrow> ('k, 'v) release multiset" where
  "owed h = \<Sum>\<^sub># (image_mset (\<lambda>e. mset (release_entry e)) (entries h))"

lemma owed_cong: "entries h = entries h' \<Longrightarrow> owed h = owed h'"
  by (simp add: owed_def)

lemma owed_add: "entries h' = add_mset e (entries h) \<Longrightarrow> owed h' = mset (release_entry e) + owed h"
  by (simp add: owed_def)

lemma remove_miss:
  "ht_shape h \<Longrightarrow> hashtable_find h k = None \<Longrightarrow> switch_hashtable_remove h k = (None, h, [])"
  by (simp add: switch_hashtable_remove_def hashtable_remove_at_def hashtable_find_def Let_def
      chain_find_None chain_unlink_None [THEN iffD2])

lemma remove_hit:
  assumes "ht_shape h" "hashtable_find h k = Some e"
  obtains h' where "switch_hashtable_remove h k = (removed_value e, h', release_entry e)"
    "ht_shape h'" "entries h = add_mset e (entries h')" "entrycount h' = entrycount h - 1"
    "hashfn h' = hashfn h" "eqfn h' = eqfn h" "tablelength h' = tablelength h"
proof -
  let ?i = "indexFor (tablelength h) (hash h k)" and ?m = "key_matches h (hash h k) k"
  have pl: "placed (tablelength h) (table h)" using assms(1) unfolding ht_shape_def by blast
  then have i: "?i < length (table h)" by (simp add: placed_def indexFor_less)
  have "chain_unlink ?m (table h ! ?i) \<noteq> None"
    using assms(2) chain_find_Some [of ?m "table h ! ?i" e]
    by (auto simp: chain_unlink_None hashtable_find_def Let_def)
  then obtain e' r where u: "chain_unlink ?m (table h ! ?i) = Some (e', r)" by auto
  from chain_unlink_Some [OF u] assms(2)
  have e: "e' = e" and r: "mset (table h ! ?i) = add_mset e (mset r)"
    by (auto simp: hashtable_find_def Let_def)
  let ?h = "h\<lparr>table := (table h)[?i := r], entrycount := entrycount h - 1\<rparr>"
  have ent: "entries h = add_mset e (entries ?h)"
    using mset_concat_update [OF i, of r] r by (simp add: entries_def)
  have set_r: "set (table h ! ?i) = insert e (set r)"
    using arg_cong [OF r, of set_mset] by simp
  have "indexFor (tablelength h) (e_h x) = ?i" if "x \<in> set r" for x
    using placedD [OF pl i] that set_r by simp
  then have "placed (tablelength h) ((table h)[?i := r])"
    using pl i by (intro placed_update) (simp_all add: placed_def)
  then have "ht_shape ?h"
    using assms(1) ent unfolding ht_shape_def by simp
  moreover have "switch_hashtable_remove h k = (removed_value e, ?h, release_entry e)"
    using u e by (simp add: switch_hashtable_remove_def hashtable_remove_at_def Let_def)
  ultimately show ?thesis using ent by (intro that [of ?h]) simp_all
qed

text \<open>What removing a key releases.\<close>

definition released :: "('k, 'v) switch_hashtable \<Rightarrow> 'k \<Rightarrow> ('k, 'v) release list" where
  "released h k = (case hashtable_find h k of None \<Rightarrow> [] | Some e \<Rightarrow> release_entry e)"

text \<open>The table left by a removal, whether the key was there or not.\<close>

lemma remove_spec:
  assumes "ht_inv h"
  obtains h' where
    "switch_hashtable_remove h k = (Option.bind (hashtable_find h k) removed_value, h', released h k)"
    "ht_inv h'" "hashfn h' = hashfn h" "eqfn h' = eqfn h" "tablelength h' = tablelength h"
    "\<And>k'. hashtable_find h' k' = (if eqfn h k k' then None else hashtable_find h k')"
    "owed h = mset (released h k) + owed h'"
    "size (entries h) = size (entries h') + (if hashtable_find h k = None then 0 else 1)"
proof -
  have sh: "ht_shape h" and kl: "hash_keys (hashfn h) (eqfn h)"
    using assms by (auto simp: ht_inv_def ht_shape_def)
  show ?thesis
  proof (cases "hashtable_find h k")
    case None
    have "hashtable_find h k' = None" if "eqfn h k k'" for k'
      using None that hash_keys.eq_left [OF kl that] by (simp add: find_None [OF sh])
    then show ?thesis
      using remove_miss [OF sh None] assms None by (intro that [of h]) (simp_all add: released_def)
  next
    case (Some e)
    from remove_hit [OF sh Some] obtain h' where h':
      "switch_hashtable_remove h k = (removed_value e, h', release_entry e)"
      "ht_shape h'" "entries h = add_mset e (entries h')" "entrycount h' = entrycount h - 1"
      "hashfn h' = hashfn h" "eqfn h' = eqfn h" "tablelength h' = tablelength h" by blast
    have inv: "ht_inv h'"
      using assms h' unique_remove [of "eqfn h" e "entries h'"] by (simp add: ht_inv_def)
    have ke: "eqfn h k (e_k e)" using find_Some [OF sh Some] by simp
    have "hashtable_find h' k' = (if eqfn h k k' then None else hashtable_find h k')" for k'
    proof (cases "eqfn h k k'")
      case True
      have "\<not> eqfn h k' (e_k x)" if "x \<in># entries h'" for x
      proof
        assume "eqfn h k' (e_k x)"
        then have kx: "eqfn h k (e_k x)" using hash_keys.eq_left [OF kl True] by simp
        have "{#e, x#} \<subseteq># filter_mset (\<lambda>e. eqfn h k (e_k e)) (entries h)"
          using that kx ke h'(3) by simp
        then have "size {#e, x#} \<le> size (filter_mset (\<lambda>e. eqfn h k (e_k e)) (entries h))"
          by (rule size_mset_mono)
        moreover have "size (filter_mset (\<lambda>e. eqfn h k (e_k e)) (entries h)) \<le> 1"
          using assms unfolding ht_inv_def keys_unique_def by blast
        ultimately show False by simp
      qed
      then show ?thesis using True find_None [OF h'(2)] h'(6) by simp
    next
      case False
      then have "\<not> eqfn h k' (e_k e)"
        using ke hash_keys.eq_left [OF kl] hash_keys.eq_sym [OF kl] by blast
      then show ?thesis
        using False find_add [OF inv assms, of e k'] h'(3,6) by simp
    qed
    then show ?thesis
      using h' inv owed_add [OF h'(3)] Some by (intro that [of h']) (simp_all add: released_def)
  qed
qed

section \<open>Insertion\<close>

definition new_entry :: "('k, 'v) switch_hashtable \<Rightarrow> 'k \<Rightarrow> 'v option \<Rightarrow> u32 \<Rightarrow> nat option \<Rightarrow> ('k, 'v) entry" where
  "new_entry h k v flags d = \<lparr>e_k = k, e_v = v, e_h = hash h k, e_flags = flags, e_destructor = d\<rparr>"

text \<open>Linking one more entry into a table that counted it already.\<close>

lemma link_shape:
  assumes "ht_shape h" "e_h e = hash h (e_k e)"
  defines "h' \<equiv> h\<lparr>table := (table h)[indexFor (tablelength h) (e_h e) :=
     e # table h ! indexFor (tablelength h) (e_h e)]\<rparr>"
  shows "ht_shape h' \<and> entries h' = add_mset e (entries h)"
proof -
  have pl: "placed (tablelength h) (table h)" using assms(1) unfolding ht_shape_def by blast
  from placed_push [OF pl refl, of e] have "entries h' = add_mset e (entries h)"
    by (simp add: h'_def entries_def)
  moreover have "placed (tablelength h') (table h')"
    using placed_push [OF pl refl, of e] by (simp add: h'_def)
  ultimately show ?thesis
    using assms(1,2) unfolding ht_shape_def h'_def by simp
qed

text \<open>The part of an insertion after the duplicate check.\<close>

definition insert_tail ::
  "ht_alloc \<Rightarrow> ('k, 'v) switch_hashtable \<Rightarrow> ('k, 'v) entry \<Rightarrow> (bool \<times> ('k, 'v) switch_hashtable) option" where
  "insert_tail al h e =
     (let h = h\<lparr>entrycount := entrycount h + 1\<rparr> in
      case (if entrycount h > loadlimit h then map_option snd (hashtable_expand al h) else Some h) of
        None \<Rightarrow> None
      | Some h \<Rightarrow>
          if \<not> entry_malloc al then Some (False, h\<lparr>entrycount := entrycount h - 1\<rparr>)
          else (let index = indexFor (tablelength h) (e_h e) in
                Some (True, h\<lparr>table := (table h)[index := e # table h ! index]\<rparr>)))"

lemma insert_unfold:
  "switch_hashtable_insert_destructor al h k v flags d =
     (let (h0, out) = (if flags AND HASHTABLE_DUP_CHECK \<noteq> 0
                       then snd (switch_hashtable_remove h k) else (h, []))
      in map_option (\<lambda>(r, h'). (r, h', out)) (insert_tail al h0 (new_entry h k v flags d)))"
  by (simp add: switch_hashtable_insert_destructor_def insert_tail_def new_entry_def
      switch_hashtable_remove_def Let_def split: prod.split option.split)

lemma insert_tail_shape:
  assumes "ht_shape h" "e_h e = hash h (e_k e)" "table_malloc al \<or> \<not> table_realloc al"
  obtains h' where "insert_tail al h e = Some (entry_malloc al, h')" "ht_shape h'"
    "entries h' = (if entry_malloc al then add_mset e (entries h) else entries h)"
    "entrycount h' = (if entry_malloc al then entrycount h + 1 else entrycount h)"
    "hashfn h' = hashfn h" "eqfn h' = eqfn h"
proof -
  let ?h1 = "h\<lparr>entrycount := entrycount h + 1\<rparr>"
  have sh1: "ht_shape ?h1" using assms(1) by simp
  obtain h2 where h2:
    "(if entrycount ?h1 > loadlimit ?h1 then map_option snd (hashtable_expand al ?h1) else Some ?h1)
      = Some h2"
    "ht_shape h2" "entries h2 = entries h" "entrycount h2 = entrycount h + 1"
    "hashfn h2 = hashfn h" "eqfn h2 = eqfn h"
  proof (cases "entrycount ?h1 > loadlimit ?h1")
    case True
    obtain b h2 where "hashtable_expand al ?h1 = Some (b, h2)" "ht_shape h2"
      "entries h2 = entries ?h1" "entrycount h2 = entrycount ?h1" "hashfn h2 = hashfn ?h1"
      "eqfn h2 = eqfn ?h1"
      using expand_spec [OF sh1 assms(3)] by blast
    with True show ?thesis by (intro that [of h2]) simp_all
  next
    case False
    then show ?thesis using sh1 by (intro that [of ?h1]) simp_all
  qed
  have eh: "e_h e = hash h2 (e_k e)" using assms(2) hash_cong [OF h2(5)] by simp
  show ?thesis
  proof (cases "entry_malloc al")
    case True
    let ?h' = "h2\<lparr>table := (table h2)[indexFor (tablelength h2) (e_h e) :=
      e # table h2 ! indexFor (tablelength h2) (e_h e)]\<rparr>"
    have "insert_tail al h e = Some (True, ?h')"
      using h2(1) True by (simp add: insert_tail_def Let_def)
    then show ?thesis
      using link_shape [OF h2(2) eh] h2 True by (intro that [of ?h']) simp_all
  next
    case False
    have "insert_tail al h e = Some (False, h2\<lparr>entrycount := entrycount h2 - 1\<rparr>)"
      using h2(1) False by (simp add: insert_tail_def Let_def)
    then show ?thesis
      using h2 False by (intro that [of "h2\<lparr>entrycount := entrycount h2 - 1\<rparr>"]) simp_all
  qed
qed

lemma insert_tail_inv:
  assumes "ht_inv h" "e_h e = hash h (e_k e)" "table_malloc al \<or> \<not> table_realloc al"
    and absent: "hashtable_find h (e_k e) = None"
  obtains h' where "insert_tail al h e = Some (entry_malloc al, h')" "ht_inv h'"
    "entries h' = (if entry_malloc al then add_mset e (entries h) else entries h)"
    "hashfn h' = hashfn h" "eqfn h' = eqfn h"
    "\<And>k. hashtable_find h' k =
       (if entry_malloc al \<and> eqfn h k (e_k e) then Some e else hashtable_find h k)"
proof -
  have sh: "ht_shape h" and kl: "hash_keys (hashfn h) (eqfn h)"
    using assms(1) by (auto simp: ht_inv_def ht_shape_def)
  from insert_tail_shape [OF sh assms(2,3)] obtain h' where h':
    "insert_tail al h e = Some (entry_malloc al, h')" "ht_shape h'"
    "entries h' = (if entry_malloc al then add_mset e (entries h) else entries h)"
    "entrycount h' = (if entry_malloc al then entrycount h + 1 else entrycount h)"
    "hashfn h' = hashfn h" "eqfn h' = eqfn h" by blast
  have "keys_unique (eqfn h) (add_mset e (entries h))"
    using assms(1) absent find_None [OF sh, of "e_k e"]
    by (intro unique_insert [OF kl]) (auto simp: ht_inv_def)
  then have inv: "ht_inv h'" using assms(1) h' by (simp add: ht_inv_def)
  have "hashtable_find h' k =
      (if entry_malloc al \<and> eqfn h k (e_k e) then Some e else hashtable_find h k)" for k
  proof (cases "entry_malloc al")
    case True
    then show ?thesis using find_add [OF assms(1) inv h'(6)] h'(3) by simp
  next
    case False
    then have same: "entries h' = entries h" using h'(3) by simp
    have "hashtable_find h' k = Some x \<longleftrightarrow> hashtable_find h k = Some x" for x
      using inv assms(1) by (simp add: ht_inv_def find_iff same h'(6))
    then have "hashtable_find h' k = hashtable_find h k" by (metis option.exhaust)
    then show ?thesis using False by simp
  qed
  then show ?thesis using h' inv by (intro that [of h']) simp_all
qed

text \<open>What an insertion does, with the releases of the entry it replaces.\<close>

lemma insert_spec:
  assumes inv: "ht_inv h" and "flags AND HASHTABLE_DUP_CHECK \<noteq> 0 \<or> hashtable_find h k = None"
    and mem: "table_malloc al \<or> \<not> table_realloc al"
  obtains h' where
    "switch_hashtable_insert_destructor al h k v flags d =
       Some (entry_malloc al, h', released h k)"
    "ht_inv h'" "hashfn h' = hashfn h" "eqfn h' = eqfn h"
    "\<And>k'. hashtable_find h' k' = (if eqfn h k k'
        then (if entry_malloc al then Some (new_entry h k v flags d) else None)
        else hashtable_find h k')"
    "mset (released h k) + owed h' =
     owed h + (if entry_malloc al then mset (release_entry (new_entry h k v flags d)) else {#})"
    "size (entries h') + (if hashtable_find h k = None then 0 else 1) =
     size (entries h) + (if entry_malloc al then 1 else 0)"
proof -
  have kl: "hash_keys (hashfn h) (eqfn h)" using inv by (auto simp: ht_inv_def ht_shape_def)
  obtain h0 where h0:
    "snd (switch_hashtable_remove h k) = (h0, released h k)"
    "ht_inv h0" "hashfn h0 = hashfn h" "eqfn h0 = eqfn h"
    "\<And>k'. hashtable_find h0 k' = (if eqfn h k k' then None else hashtable_find h k')"
    "owed h = mset (released h k) + owed h0"
    "size (entries h) = size (entries h0) + (if hashtable_find h k = None then 0 else 1)"
    by (rule remove_spec [OF inv, of k]) auto
  let ?e = "new_entry h k v flags d"
  have pre: "e_h ?e = hash h0 (e_k ?e)" "hashtable_find h0 (e_k ?e) = None"
    using hash_cong [OF h0(3)] h0(5) [of k] hash_keys.eq_refl [OF kl] by (simp_all add: new_entry_def)
  obtain h' where h': "insert_tail al h0 ?e = Some (entry_malloc al, h')" "ht_inv h'"
    "entries h' = (if entry_malloc al then add_mset ?e (entries h0) else entries h0)"
    "hashfn h' = hashfn h0" "eqfn h' = eqfn h0"
    "\<And>k. hashtable_find h' k =
       (if entry_malloc al \<and> eqfn h0 k (e_k ?e) then Some ?e else hashtable_find h0 k)"
    using insert_tail_inv [OF h0(2) pre(1) mem pre(2)] by blast
  have same: "(if flags AND HASHTABLE_DUP_CHECK \<noteq> 0 then snd (switch_hashtable_remove h k) else (h, []))
      = (h0, released h k)"
    using assms(2) h0(1) remove_miss [of h k] inv by (auto simp: ht_inv_def released_def)
  have f: "hashtable_find h' k' = (if eqfn h k k' then (if entry_malloc al then Some ?e else None)
        else hashtable_find h k')" for k'
  proof -
    have "eqfn h k' k \<longleftrightarrow> eqfn h k k'" using hash_keys.eq_sym [OF kl] by blast
    then show ?thesis using h'(6) [of k'] h0(4) h0(5) [of k'] by (simp add: new_entry_def)
  qed
  have o: "mset (released h k) + owed h' = owed h + (if entry_malloc al then mset (release_entry ?e) else {#})"
    using h'(3) h0(6) by (simp add: owed_def)
  have r: "switch_hashtable_insert_destructor al h k v flags d = Some (entry_malloc al, h', released h k)"
    unfolding insert_unfold same h'(1) Let_def prod.case by simp
  have n: "size (entries h') + (if hashtable_find h k = None then 0 else 1) =
      size (entries h) + (if entry_malloc al then 1 else 0)"
    using h'(3) h0(7) by simp
  have hf: "hashfn h' = hashfn h" "eqfn h' = eqfn h" using h'(4,5) h0(3,4) by simp_all
  show ?thesis by (rule that [OF r h'(2) hf f o n])
qed

lemma pick_prime_spec:
  "\<exists>p \<in> set ps. minsize < p \<Longrightarrow>
   \<exists>i < length ps. pick_prime minsize n ps = (n + i, ps ! i) \<and> minsize < ps ! i"
proof (induction ps arbitrary: n)
  case (Cons p ps)
  show ?case
  proof (cases "minsize < p")
    case False
    with Cons.prems have "\<exists>p \<in> set ps. minsize < p" by auto
    from Cons.IH [OF this, of "Suc n"] obtain i where
      "i < length ps" "pick_prime minsize (Suc n) ps = (Suc n + i, ps ! i)" "minsize < ps ! i" by blast
    with False show ?thesis by (intro exI [of _ "Suc i"]) simp
  qed auto
qed simp

lemma create_spec:
  fixes hf :: "'a \<Rightarrow> u32" and eq :: "'a \<Rightarrow> 'a \<Rightarrow> bool"
  assumes "hash_keys hf eq" "minsize \<le> 2 ^ 30"
  obtains h :: "('a, 'b) switch_hashtable"
  where "switch_create_hashtable minsize hf eq = (Some h, SWITCH_STATUS_SUCCESS)"
    "ht_inv h" "entries h = {#}" "hashfn h = hf" "eqfn h = eq" "minsize < tablelength h"
proof -
  have "\<exists>p \<in> set primes. minsize < p"
    using assms(2) by (intro bexI [of _ 1610612741]) (simp_all add: primes_def)
  from pick_prime_spec [OF this, of 0] obtain i where
    i: "i < prime_table_length" "pick_prime minsize 0 primes = (i, primes ! i)" "minsize < primes ! i"
    by (auto simp: prime_table_length_def)
  define h :: "('a, 'b) switch_hashtable" where
    "h = \<lparr>tablelength = primes ! i, table = replicate (primes ! i) [], entrycount = 0,
      loadlimit = load_limit (primes ! i), primeindex = i, hashfn = hf, eqfn = eq\<rparr>"
  have ent: "entries h = {#}" by (simp add: entries_def h_def)
  have pl: "placed (tablelength h) (table h)"
    using placed_empty [OF primes_nth_pos [OF i(1)]] by (simp add: h_def)
  have "ht_inv h"
    unfolding ht_inv_def ht_shape_def keys_unique_def ent
    using i(1) assms(1) pl by (simp add: h_def)
  moreover have "switch_create_hashtable minsize hf eq = (Some h, SWITCH_STATUS_SUCCESS)"
    using i assms(2) by (simp add: switch_create_hashtable_def h_def)
  ultimately show ?thesis
    using i(3) ent by (intro that [of h]) (simp_all add: h_def)
qed

section \<open>Iteration visits every entry once\<close>

lemma skip_empty_concat:
  "length (table h) = tablelength h \<Longrightarrow>
   concat (drop (skip_empty h p) (table h)) = concat (drop p (table h))"
proof (induction h p rule: skip_empty.induct)
  case (1 h p)
  show ?case
  proof (cases "p < tablelength h \<and> table h ! p = []")
    case True
    then have "concat (drop p (table h)) = concat (drop (Suc p) (table h))"
      using 1(2) by (simp add: Cons_nth_drop_Suc [symmetric])
    with True 1 show ?thesis by (simp add: skip_empty.simps [of h p])
  next
    case False
    then show ?thesis by (subst skip_empty.simps) auto
  qed
qed

lemma skip_empty_stops: "skip_empty h p < tablelength h \<Longrightarrow> table h ! skip_empty h p \<noteq> []"
proof (induction h p rule: skip_empty.induct)
  case (1 h p)
  then show ?case by (cases "p < tablelength h \<and> table h ! p = []")
      (auto simp: skip_empty.simps [of h p])
qed

text \<open>What an iterator has still to visit, its current entry first.\<close>

definition pending :: "('k, 'v) switch_hashtable_iterator \<Rightarrow> ('k, 'v) entry list" where
  "pending i = it_e i @ concat (drop (Suc (pos i)) (table (it_h i)))"

lemma next_bucket_cases:
  assumes "length (table (it_h i)) = tablelength (it_h i)"
  shows "case next_bucket i of
      None \<Rightarrow> concat (drop (pos i) (table (it_h i))) = []
    | Some i' \<Rightarrow> it_h i' = it_h i \<and> it_e i' \<noteq> [] \<and> pending i' = concat (drop (pos i) (table (it_h i)))"
proof -
  let ?p = "skip_empty (it_h i) (pos i)"
  note sk = skip_empty_concat [OF assms, of "pos i"]
  show ?thesis
  proof (cases "?p < tablelength (it_h i)")
    case True
    then have "next_bucket i = Some (i\<lparr>pos := ?p, it_e := table (it_h i) ! ?p\<rparr>)"
      using skip_empty_stops by (simp add: next_bucket_def Let_def)
    moreover have "table (it_h i) ! ?p @ concat (drop (Suc ?p) (table (it_h i))) =
        concat (drop (pos i) (table (it_h i)))"
      using True assms sk by (simp add: Cons_nth_drop_Suc [symmetric])
    ultimately show ?thesis using True skip_empty_stops by (simp add: pending_def)
  next
    case False
    then show ?thesis using assms sk by (simp add: next_bucket_def Let_def)
  qed
qed

lemma next_cases:
  assumes "length (table (it_h i)) = tablelength (it_h i)" "it_e i = e # es"
  shows "case switch_hashtable_next i of
      None \<Rightarrow> pending i = [e]
    | Some i' \<Rightarrow> it_h i' = it_h i \<and> it_e i' \<noteq> [] \<and> pending i = e # pending i'"
proof (cases es)
  case Nil
  let ?i = "i\<lparr>it_e := [], pos := pos i + 1\<rparr>"
  have "switch_hashtable_next i = next_bucket ?i"
    using assms(2) Nil by (simp add: switch_hashtable_next_def)
  then show ?thesis
    using next_bucket_cases [of ?i] assms Nil by (auto simp: pending_def split: option.splits)
qed (use assms in \<open>simp add: switch_hashtable_next_def pending_def\<close>)

lemma iterate_pending:
  assumes "length (table (it_h i)) = tablelength (it_h i)" "it_e i \<noteq> []" "length (pending i) \<le> n"
  shows "iterate n switch_hashtable_this (Some i) =
    Some (map (\<lambda>e. (Some (e_k e), e_v e)) (pending i))"
  using assms
proof (induction n arbitrary: i)
  case 0
  then show ?case by (simp add: pending_def)
next
  case (Suc n)
  from Suc.prems(2) obtain e es where ies: "it_e i = e # es" by (cases "it_e i") auto
  note nx = next_cases [OF Suc.prems(1) ies]
  have this_e: "switch_hashtable_this i = (Some (e_k e), e_v e)"
    using ies by (simp add: switch_hashtable_this_def)
  show ?case
  proof (cases "switch_hashtable_next i")
    case None
    with nx this_e show ?thesis by simp
  next
    case (Some i')
    with nx have "it_h i' = it_h i" "it_e i' \<noteq> []" "pending i = e # pending i'" by simp_all
    with Suc.IH [of i'] Suc.prems Some this_e show ?thesis by simp
  qed
qed

lemma iterate_all:
  assumes "length (table h) = tablelength h" "length (concat (table h)) \<le> n"
  shows "iterate n switch_hashtable_this (switch_hashtable_first_iter h) =
    Some (map (\<lambda>e. (Some (e_k e), e_v e)) (concat (table h)))"
proof -
  let ?i = "\<lparr>pos = 0, it_e = [], it_h = h\<rparr>"
  have fi: "switch_hashtable_first_iter h = next_bucket ?i"
    by (simp add: switch_hashtable_first_iter_def switch_hashtable_next_def)
  show ?thesis
  proof (cases "next_bucket ?i")
    case None
    then show ?thesis using next_bucket_cases [of ?i] assms(1) fi by simp
  next
    case (Some i')
    with next_bucket_cases [of ?i] assms(1)
    have "it_h i' = h" "it_e i' \<noteq> []" "pending i' = concat (table h)" by simp_all
    then show ?thesis using iterate_pending [of i' n] assms fi Some by simp
  qed
qed

section \<open>Sequences of operations\<close>

datatype ('k, 'v) ht_op =
    Insert ht_alloc 'k "'v option" u32 "nat option"
  | Remove 'k

fun ht_run :: "('k, 'v) ht_op list \<Rightarrow> ('k, 'v) switch_hashtable \<Rightarrow>
    (('k, 'v) switch_hashtable \<times> ('k, 'v) release list) option" where
  "ht_run [] h = Some (h, [])"
| "ht_run (Insert al k v flags d # ops) h =
     (case switch_hashtable_insert_destructor al h k v flags d of
        None \<Rightarrow> None
      | Some (_, h, out) \<Rightarrow> map_option (\<lambda>(h, out'). (h, out @ out')) (ht_run ops h))"
| "ht_run (Remove k # ops) h =
     (case switch_hashtable_remove h k of
        (_, h, out) \<Rightarrow> map_option (\<lambda>(h, out'). (h, out @ out')) (ht_run ops h))"

text \<open>The insertions as the wrappers make them: duplicates checked, no growth by \<^verbatim>\<open>realloc\<close>.\<close>

fun op_checked :: "('k, 'v) ht_op \<Rightarrow> bool" where
  "op_checked (Insert al k v flags d) \<longleftrightarrow>
     flags AND HASHTABLE_DUP_CHECK \<noteq> 0 \<and> (table_malloc al \<or> \<not> table_realloc al)"
| "op_checked (Remove k) \<longleftrightarrow> True"

text \<open>What the table owes for an operation: the releases its flags and destructor ask for.\<close>

fun op_owes :: "('k, 'v) ht_op \<Rightarrow> ('k, 'v) release list" where
  "op_owes (Insert al k v flags d) =
     (if entry_malloc al
      then release_entry \<lparr>e_k = k, e_v = v, e_h = 0, e_flags = flags, e_destructor = d\<rparr> else [])"
| "op_owes (Remove k) = []"

lemma release_new_entry:
  "release_entry (new_entry h k v flags d) =
   release_entry \<lparr>e_k = k, e_v = v, e_h = 0, e_flags = flags, e_destructor = d\<rparr>"
  by (simp add: release_entry_def new_entry_def split: option.split)

lemma owed_trans:
  fixes a b c d h h1 h' :: "'a multiset"
  shows "a + h1 = h + b \<Longrightarrow> d + h' = h1 + c \<Longrightarrow> a + d + h' = h + (b + c)"
  by (metis add.assoc)

lemma ht_run_spec:
  assumes "ht_inv h" "\<forall>p \<in> set ops. op_checked p"
  shows "\<exists>h' out. ht_run ops h = Some (h', out) \<and> ht_inv h' \<and>
    mset out + owed h' = owed h + mset (concat (map op_owes ops))"
  using assms
proof (induction ops arbitrary: h)
  case (Cons p ops)
  show ?case
  proof (cases p)
    case (Insert al k v flags d)
    then have pre: "flags AND HASHTABLE_DUP_CHECK \<noteq> 0 \<or> hashtable_find h k = None"
      "table_malloc al \<or> \<not> table_realloc al" using Cons.prems(2) by auto
    have ow: "mset (op_owes p) =
        (if entry_malloc al then mset (release_entry (new_entry h k v flags d)) else {#})"
      using Insert by (simp add: release_new_entry)
    obtain h1 where h1: "switch_hashtable_insert_destructor al h k v flags d =
       Some (entry_malloc al, h1, released h k)" "ht_inv h1"
      "mset (released h k) + owed h1 = owed h + mset (op_owes p)"
      unfolding ow using insert_spec [OF Cons.prems(1) pre, where v = v and d = d] by blast
    from Cons.IH [OF h1(2)] Cons.prems(2) obtain h' out where r:
      "ht_run ops h1 = Some (h', out)" "ht_inv h'"
      "mset out + owed h' = owed h1 + mset (concat (map op_owes ops))" by auto
    with owed_trans [OF h1(3) r(3)] show ?thesis using h1(1) r(1) Insert by simp
  next
    case (Remove k)
    obtain h1 where h1: "switch_hashtable_remove h k =
        (Option.bind (hashtable_find h k) removed_value, h1, released h k)" "ht_inv h1"
      "mset (released h k) + owed h1 = owed h + {#}"
      using remove_spec [OF Cons.prems(1), of k] by (metis add.right_neutral)
    from Cons.IH [OF h1(2)] Cons.prems(2) obtain h' out where r:
      "ht_run ops h1 = Some (h', out)" "ht_inv h'"
      "mset out + owed h' = owed h1 + mset (concat (map op_owes ops))" by auto
    with owed_trans [OF h1(3) r(3)] show ?thesis using h1(1) r(1) Remove by simp
  qed
qed simp

lemma destroy_owed:
  assumes "length (table h) = tablelength h"
  shows "mset (switch_hashtable_destroy h) = owed h"
proof -
  have chain: "destroy_chain c = concat (map release_entry c)" for c :: "('a, 'b) entry list"
    by (induction c) simp_all
  have all: "concat (map destroy_chain cs) = concat (map release_entry (concat cs))"
    for cs :: "('a, 'b) entry list list"
    by (induction cs) (simp_all add: chain)
  have sum: "mset (concat (map release_entry es)) =
      \<Sum>\<^sub># (image_mset (\<lambda>e. mset (release_entry e)) (mset es))" for es :: "('a, 'b) entry list"
    by (induction es) simp_all
  have "switch_hashtable_destroy h = concat (map destroy_chain (map ((!) (table h)) [0..<length (table h)]))"
    using assms by (simp add: switch_hashtable_destroy_def comp_def)
  then show ?thesis by (simp only: map_nth all sum owed_def entries_def)
qed

section \<open>Properties\<close>

text \<open>A table with \<^verbatim>\<open>uint32_t\<close> keys, and that table with one entry, for the witnesses.\<close>

definition all_memory :: ht_alloc where
  "all_memory = \<lparr>table_malloc = True, table_realloc = True, entry_malloc = True\<rparr>"

definition sample_table :: "(u32, nat) switch_hashtable" where
  "sample_table = the (fst (switch_create_hashtable 16 switch_hash_default_int switch_hash_equalkeys_int))"

definition sample_table1 :: "(u32, nat) switch_hashtable" where
  "sample_table1 =
     fst (snd (the (switch_hashtable_insert_destructor all_memory sample_table 7 (Some 42) 4 None)))"

lemma sample_table:
  "ht_inv sample_table" "entries sample_table = {#}" "eqfn sample_table = switch_hash_equalkeys_int"
  "hashtable_find sample_table k = None"
proof -
  obtain h :: "(u32, nat) switch_hashtable" where
    h: "switch_create_hashtable 16 switch_hash_default_int switch_hash_equalkeys_int =
        (Some h, SWITCH_STATUS_SUCCESS)"
      "ht_inv h" "entries h = {#}" "eqfn h = switch_hash_equalkeys_int"
    using create_spec [OF int_keys.hash_keys_axioms, of 16] by auto
  then show f: "ht_inv sample_table" "entries sample_table = {#}"
    "eqfn sample_table = switch_hash_equalkeys_int"
    by (simp_all add: sample_table_def)
  then show "hashtable_find sample_table k = None"
    by (simp add: find_None ht_inv_def)
qed

lemma sample_table1:
  "ht_inv sample_table1" "eqfn sample_table1 = switch_hash_equalkeys_int"
  "hashtable_find sample_table1 k =
     (if k = 7 then Some (new_entry sample_table 7 (Some 42) 4 None) else None)"
  "size (entries sample_table1) = 1"
proof -
  have am: "entry_malloc all_memory" and
    pre: "(4 :: u32) AND HASHTABLE_DUP_CHECK \<noteq> 0 \<or> hashtable_find sample_table 7 = None"
      "table_malloc all_memory \<or> \<not> table_realloc all_memory"
    by (simp_all add: all_memory_def sample_table(4))
  obtain h' where h': "switch_hashtable_insert_destructor all_memory sample_table 7 (Some 42) 4 None =
      Some (entry_malloc all_memory, h', released sample_table 7)" "ht_inv h'"
    "eqfn h' = eqfn sample_table"
    "\<And>k'. hashtable_find h' k' = (if eqfn sample_table 7 k'
        then (if entry_malloc all_memory then Some (new_entry sample_table 7 (Some 42) 4 None) else None)
        else hashtable_find sample_table k')"
    "size (entries h') + (if hashtable_find sample_table 7 = None then 0 else 1) =
     size (entries sample_table) + (if entry_malloc all_memory then 1 else 0)"
    using insert_spec [OF sample_table(1) pre, where v = "Some 42" and d = None] by blast
  then have "sample_table1 = h'" by (simp add: sample_table1_def)
  then show "ht_inv sample_table1" "eqfn sample_table1 = switch_hash_equalkeys_int"
    "hashtable_find sample_table1 k =
     (if k = 7 then Some (new_entry sample_table 7 (Some 42) 4 None) else None)"
    "size (entries sample_table1) = 1"
    using h' sample_table am by (simp_all add: switch_hash_equalkeys_int_def)
qed

text \<open>
  C1: On a well-formed table, an insertion that checks for duplicates, or that inserts a key
  the table has not, keeps the table well formed and behaves as a map update for every
  key: whatever the table was grown to, the keys equal to \<open>k\<close> find the new value (none, if the entry
  could not be allocated: the replaced entry is gone then), all others what they found before.\<close>
theorem hashtable_insert_updates:
  assumes "ht_inv h" "flags AND HASHTABLE_DUP_CHECK \<noteq> 0 \<or> hashtable_find h k = None"
    and "table_malloc al \<or> \<not> table_realloc al"
  shows "\<exists>h' out. switch_hashtable_insert_destructor al h k v flags d = Some (entry_malloc al, h', out) \<and>
    ht_inv h' \<and>
    (\<forall>k'. switch_hashtable_search h' k' =
       (if eqfn h k k' then (if entry_malloc al then v else None)
        else switch_hashtable_search h k')) \<and>
    switch_hashtable_count h' + (if hashtable_find h k = None then 0 else 1) =
      switch_hashtable_count h + (if entry_malloc al then 1 else 0)"
proof -
  obtain h' where h': "switch_hashtable_insert_destructor al h k v flags d =
      Some (entry_malloc al, h', released h k)" "ht_inv h'"
    "\<And>k'. hashtable_find h' k' = (if eqfn h k k'
        then (if entry_malloc al then Some (new_entry h k v flags d) else None)
        else hashtable_find h k')"
    "size (entries h') + (if hashtable_find h k = None then 0 else 1) =
     size (entries h) + (if entry_malloc al then 1 else 0)"
    using insert_spec [OF assms, where v = v and d = d] by blast
  have "switch_hashtable_search h' k' = (if eqfn h k k' then (if entry_malloc al then v else None)
        else switch_hashtable_search h k')" for k'
    by (simp add: switch_hashtable_search_def h'(3) new_entry_def)
  moreover have "switch_hashtable_count h' + (if hashtable_find h k = None then 0 else 1) =
      switch_hashtable_count h + (if entry_malloc al then 1 else 0)"
    using arg_cong [OF h'(4), of "of_nat :: nat \<Rightarrow> u32"] h'(2) assms(1)
    by (auto simp: switch_hashtable_count_def ht_inv_def split: if_splits)
  ultimately show ?thesis using h'(1,2) by blast
qed

lemma hashtable_insert_updates_witness:
  "ht_inv sample_table1 \<and>
   (\<exists>h' out. switch_hashtable_insert_destructor all_memory sample_table1 7 (Some 43)
        (HASHTABLE_DUP_CHECK OR HASHTABLE_FLAG_FREE_KEY) None = Some (True, h', out) \<and>
      switch_hashtable_search h' 7 = Some 43 \<and> switch_hashtable_search h' 8 = None)"
  using hashtable_insert_updates [of sample_table1 "HASHTABLE_DUP_CHECK OR HASHTABLE_FLAG_FREE_KEY" 7
      all_memory "Some 43" None] sample_table1
  by (auto simp: hashtable_flags all_memory_def switch_hash_equalkeys_int_def
      switch_hashtable_search_def)

text \<open>
  C25: A removal keeps a well-formed table well formed, makes the keys equal to \<open>k\<close> absent and
  leaves the result of every other search, and it returns the value the search found
  unless the entry owns its value, which is then released instead.\<close>
theorem hashtable_remove_deletes:
  assumes "ht_inv h"
  shows "\<exists>v h' out. switch_hashtable_remove h k = (v, h', out) \<and> ht_inv h' \<and>
    (\<forall>k'. switch_hashtable_search h' k' = (if eqfn h k k' then None else switch_hashtable_search h k')) \<and>
    v = Option.bind (hashtable_find h k) removed_value \<and>
    (\<forall>e. hashtable_find h k = Some e \<longrightarrow> out = release_entry e)"
proof -
  obtain h' where h': "switch_hashtable_remove h k =
      (Option.bind (hashtable_find h k) removed_value, h', released h k)" "ht_inv h'"
    "\<And>k'. hashtable_find h' k' = (if eqfn h k k' then None else hashtable_find h k')"
    using remove_spec [OF assms, of k] by blast
  have "switch_hashtable_search h' k' = (if eqfn h k k' then None else switch_hashtable_search h k')" for k'
    by (simp add: switch_hashtable_search_def h'(3))
  moreover have "\<forall>e. hashtable_find h k = Some e \<longrightarrow> released h k = release_entry e"
    by (simp add: released_def)
  ultimately show ?thesis using h'(1,2) by blast
qed

lemma hashtable_remove_deletes_witness:
  "ht_inv sample_table1 \<and>
   (\<exists>h' out. switch_hashtable_remove sample_table1 7 = (Some 42, h', out) \<and>
      switch_hashtable_search h' 7 = None)"
  using hashtable_remove_deletes [of sample_table1 7] sample_table1
  by (auto simp: hashtable_flags switch_hash_equalkeys_int_def removed_value_def new_entry_def)

text \<open>
  C11: Ownership: over the whole life of a table, from its creation through any sequence of
  duplicate-checked insertions and of removals to its destruction, each key and value that an
  insertion handed over is freed or destructed exactly once, and nothing else is.\<close>
theorem hashtable_releases_once:
  fixes ops :: "('k, 'v) ht_op list"
  assumes "hash_keys hf eq" "minsize \<le> 2 ^ 30" "\<forall>p \<in> set ops. op_checked p"
  shows "\<exists>h h' out. switch_create_hashtable minsize hf eq = (Some h, SWITCH_STATUS_SUCCESS) \<and>
    ht_run ops h = Some (h', out) \<and>
    mset out + mset (switch_hashtable_destroy h') = mset (concat (map op_owes ops))"
proof -
  obtain h :: "('k, 'v) switch_hashtable" where
    h: "switch_create_hashtable minsize hf eq = (Some h, SWITCH_STATUS_SUCCESS)"
      "ht_inv h" "entries h = {#}"
    using create_spec [OF assms(1,2)] by blast
  from ht_run_spec [OF h(2) assms(3)] obtain h' out where
    "ht_run ops h = Some (h', out)" "ht_inv h'" "mset out + owed h' = mset (concat (map op_owes ops))"
    using h(3) by (auto simp: owed_def)
  moreover have "mset (switch_hashtable_destroy h') = owed h'"
    using \<open>ht_inv h'\<close> by (intro destroy_owed) (simp add: ht_inv_def ht_shape_def placed_def)
  ultimately show ?thesis using h(1) by metis
qed

lemma hashtable_releases_once_witness:
  "\<exists>h h' out. switch_create_hashtable 16 switch_hash_default_int switch_hash_equalkeys_int =
      (Some h, SWITCH_STATUS_SUCCESS) \<and>
     ht_run [Insert all_memory 7 (Some (1 :: nat)) 7 None, Insert all_memory 7 (Some 2) 4 (Some 9)] h =
      Some (h', out) \<and>
     mset out + mset (switch_hashtable_destroy h') =
      {#FreeKey 7, FreeValue 1, Destructor 9 (Some 2)#}"
  using hashtable_releases_once [OF int_keys.hash_keys_axioms, of 16
      "[Insert all_memory 7 (Some (1 :: nat)) 7 None, Insert all_memory 7 (Some 2) 4 (Some 9)]"]
  by (simp add: hashtable_flags all_memory_def release_entry_def)

text \<open>
  C34: The iteration \<^verbatim>\<open>first, next, next, ...\<close> over a well-formed table ends, and visits every entry
  exactly once: the keys and values read are those of the entries, and there are
  \<open>switch_hashtable_count\<close> of them (modulo 2^32).\<close>
theorem hashtable_iterates_all:
  assumes "ht_inv h" "size (entries h) \<le> n"
  shows "\<exists>kvs. iterate n switch_hashtable_this (switch_hashtable_first_iter h) = Some kvs \<and>
    mset kvs = image_mset (\<lambda>e. (Some (e_k e), e_v e)) (entries h) \<and>
    switch_hashtable_count h = of_nat (length kvs)"
proof -
  have "length (table h) = tablelength h"
    using assms(1) by (simp add: ht_inv_def ht_shape_def placed_def)
  from iterate_all [OF this, of n] assms show ?thesis
    by (simp add: entries_def ht_inv_def switch_hashtable_count_def)
qed

lemma hashtable_iterates_all_witness:
  "ht_inv sample_table1 \<and>
   (\<exists>kvs. iterate 1 switch_hashtable_this (switch_hashtable_first_iter sample_table1) = Some kvs \<and>
      switch_hashtable_count sample_table1 = of_nat (length kvs))"
  using hashtable_iterates_all [of sample_table1 1] sample_table1(1,4) by auto

end
