(* ===== verification/Corehash.thy ===== *)
theory Corehash
  imports Hashtable Event
begin

text \<open>
  The core's hashes, \<^verbatim>\<open>src/switch_core_hash.c\<close>: string-keyed hashes that copy their keys,
  with or without case, and integer-keyed ones, all over the hash table.  The interface
  \<open>keyed_store\<close> states what a client of such a store relies on; it is shown once that a
  store behaves as its sequence of writes says, and each kind of hash is an instance.  Key
  copies (\<^verbatim>\<open>strdup\<close>) are taken to succeed, as the code does; the locked variants are the same
  functions under a mutex.
\<close>

unbundle bit_operations_syntax

section \<open>String-keyed hashes\<close>

type_synonym 'v switch_hash = "(string, 'v) switch_hashtable"

type_synonym ('k, 'v) hash_result = "(switch_status \<times> ('k, 'v) switch_hashtable \<times> ('k, 'v) release list) option"

definition switch_core_hash_init_case :: "bool \<Rightarrow> 'v switch_hash option \<times> switch_status" where
  "switch_core_hash_init_case case_sensitive =
     (if case_sensitive then switch_create_hashtable 16 switch_hash_default switch_hash_equalkeys
      else switch_create_hashtable 16 switch_hash_default_ci switch_hash_equalkeys_ci)"

definition switch_core_hash_destroy :: "'v switch_hash \<Rightarrow> switch_status \<times> (string, 'v) release list" where
  "switch_core_hash_destroy h = (SWITCH_STATUS_SUCCESS, switch_hashtable_destroy h)"

text \<open>
  The common shape of the insertions: the key copy is handed to the table, and freed with
  what else was allocated when the table refuses.
\<close>

definition insert_copied ::
  "ht_alloc \<Rightarrow> ('k, 'v) switch_hashtable \<Rightarrow> 'k \<Rightarrow> 'v option \<Rightarrow> u32 \<Rightarrow> nat option \<Rightarrow>
   ('k, 'v) release list \<Rightarrow> ('k, 'v) hash_result" where
  "insert_copied al h k v fl destructor on_failure =
     (case switch_hashtable_insert_destructor al h k v fl destructor of
        None \<Rightarrow> None
      | Some (r, h', out) \<Rightarrow>
          if r then Some (SWITCH_STATUS_SUCCESS, h', out)
          else Some (SWITCH_STATUS_FALSE, h', out @ on_failure))"

definition switch_core_hash_insert_destructor ::
  "ht_alloc \<Rightarrow> 'v switch_hash \<Rightarrow> string \<Rightarrow> 'v option \<Rightarrow> nat option \<Rightarrow> (string, 'v) hash_result" where
  "switch_core_hash_insert_destructor al h k data destructor =
     insert_copied al h k data (HASHTABLE_FLAG_FREE_KEY OR HASHTABLE_DUP_CHECK) destructor [FreeKey k]"

text \<open>\<^verbatim>\<open>switch_core_hash_insert\<close> is the macro without a destructor.\<close>

definition switch_core_hash_insert ::
  "ht_alloc \<Rightarrow> 'v switch_hash \<Rightarrow> string \<Rightarrow> 'v option \<Rightarrow> (string, 'v) hash_result" where
  "switch_core_hash_insert al h k data = switch_core_hash_insert_destructor al h k data None"

text \<open>\<open>fmt\<close> is what \<^verbatim>\<open>snprintf\<close> prints for \<^verbatim>\<open>%p\<close>; it is printed with enough room.\<close>

definition switch_core_hash_insert_pointer ::
  "('v option \<Rightarrow> string) \<Rightarrow> ht_alloc \<Rightarrow> 'v switch_hash \<Rightarrow> 'v option \<Rightarrow> (string, 'v) hash_result" where
  "switch_core_hash_insert_pointer fmt al h data =
     (if 0 < length (fmt data)
      then insert_copied al h (fmt data) data (HASHTABLE_FLAG_FREE_KEY OR HASHTABLE_DUP_CHECK) None
             [FreeKey (fmt data)]
      else Some (SWITCH_STATUS_FALSE, h, [FreeKey (fmt data)]))"

definition switch_core_hash_insert_auto_free ::
  "ht_alloc \<Rightarrow> 'v switch_hash \<Rightarrow> string \<Rightarrow> 'v option \<Rightarrow> (string, 'v) hash_result" where
  "switch_core_hash_insert_auto_free al h k data =
     insert_copied al h k data
       (HASHTABLE_FLAG_FREE_KEY OR HASHTABLE_FLAG_FREE_VALUE OR HASHTABLE_DUP_CHECK) None [FreeKey k]"

definition switch_core_hash_insert_dup_auto_free ::
  "ht_alloc \<Rightarrow> string switch_hash \<Rightarrow> string \<Rightarrow> string \<Rightarrow> (string, string) hash_result" where
  "switch_core_hash_insert_dup_auto_free al h k str =
     insert_copied al h k (Some str)
       (HASHTABLE_FLAG_FREE_KEY OR HASHTABLE_FLAG_FREE_VALUE OR HASHTABLE_DUP_CHECK) None
       [FreeValue str, FreeKey k]"

definition switch_core_hash_insert_dup_destructor ::
  "ht_alloc \<Rightarrow> string switch_hash \<Rightarrow> string \<Rightarrow> string \<Rightarrow> nat option \<Rightarrow> (string, string) hash_result" where
  "switch_core_hash_insert_dup_destructor al h k str destructor =
     insert_copied al h k (Some str) (HASHTABLE_FLAG_FREE_KEY OR HASHTABLE_DUP_CHECK) destructor
       [FreeValue str, FreeKey k]"

text \<open>The value is the block of \<open>sz\<close> zero bytes the function allocates and returns.\<close>

definition switch_core_hash_insert_alloc_destructor ::
  "ht_alloc \<Rightarrow> byte list switch_hash \<Rightarrow> string \<Rightarrow> nat \<Rightarrow> nat option \<Rightarrow>
   (byte list option \<times> byte list switch_hash \<times> (string, byte list) release list) option" where
  "switch_core_hash_insert_alloc_destructor al h k sz destructor =
     (if sz = 0 then Some (None, h, [])
      else (let data = replicate sz 0 in
        case switch_hashtable_insert_destructor al h k (Some data)
               (HASHTABLE_FLAG_FREE_KEY OR HASHTABLE_DUP_CHECK) destructor of
          None \<Rightarrow> None
        | Some (r, h', out) \<Rightarrow>
            if r then Some (Some data, h', out)
            else Some (None, h', out @ [FreeValue data, FreeKey k])))"

definition switch_core_hash_delete ::
  "'v switch_hash \<Rightarrow> string \<Rightarrow> 'v option \<times> 'v switch_hash \<times> (string, 'v) release list" where
  "switch_core_hash_delete h k = switch_hashtable_remove h k"

definition switch_core_hash_find :: "'v switch_hash \<Rightarrow> string \<Rightarrow> 'v option" where
  "switch_core_hash_find h k = switch_hashtable_search h k"

definition switch_core_hash_empty :: "'v switch_hash \<Rightarrow> bool" where
  "switch_core_hash_empty h = (switch_hashtable_first_iter h = None)"

section \<open>Deleting many\<close>

text \<open>
  The keys the callback wants deleted (\<open>None\<close>: all of them), in the order of the iteration.  The fuel is
  the number of entries, which \<open>iterate_all\<close> shows to be enough.
\<close>

definition selected_keys :: "(string \<Rightarrow> 'v option \<Rightarrow> bool) option \<Rightarrow> 'v switch_hash \<Rightarrow> string list" where
  "selected_keys callback h =
     (case iterate (length (concat (table h))) switch_hashtable_this (switch_hashtable_first_iter h) of
        None \<Rightarrow> []
      | Some kvs \<Rightarrow>
          map (\<lambda>(k, v). the k)
            (filter (\<lambda>(k, v). case callback of None \<Rightarrow> True | Some f \<Rightarrow> f (the k) v) kvs))"

text \<open>The keys are remembered as \<^verbatim>\<open>delete\<close> headers of a scratch event.\<close>

definition delete_list :: "string list \<Rightarrow> switch_event" where
  "delete_list ks =
     fold (\<lambda>k. add_string SWITCH_STACK_BOTTOM ''delete'' (Some k)) ks
       (the (snd (switch_event_create_subclass (\<lambda>e. e) SWITCH_EVENT_CLONE None)))"

primrec delete_each ::
  "switch_event_header list \<Rightarrow> 'v switch_hash \<Rightarrow> switch_status \<Rightarrow>
   switch_status \<times> 'v switch_hash \<times> (string, 'v) release list" where
  "delete_each [] h status = (status, h, [])"
| "delete_each (hp # hs) h status =
     (let (v, h', out) = switch_core_hash_delete h (the (h_value hp));
          (status, h'', out') =
            delete_each hs h' (if v \<noteq> None then SWITCH_STATUS_SUCCESS else status)
      in (status, h'', out @ out'))"

definition switch_core_hash_delete_multi ::
  "'v switch_hash \<Rightarrow> (string \<Rightarrow> 'v option \<Rightarrow> bool) option \<Rightarrow>
   switch_status \<times> 'v switch_hash \<times> (string, 'v) release list" where
  "switch_core_hash_delete_multi h callback =
     delete_each (headers (delete_list (selected_keys callback h))) h SWITCH_STATUS_GENERR"

section \<open>Integer-keyed hashes\<close>

type_synonym 'v switch_inthash = "(u32, 'v) switch_hashtable"

definition switch_core_inthash_init :: "'v switch_inthash option \<times> switch_status" where
  "switch_core_inthash_init = switch_create_hashtable 16 switch_hash_default_int switch_hash_equalkeys_int"

definition switch_core_inthash_destroy :: "'v switch_inthash \<Rightarrow> switch_status \<times> (u32, 'v) release list" where
  "switch_core_inthash_destroy h = (SWITCH_STATUS_SUCCESS, switch_hashtable_destroy h)"

text \<open>On failure the copy of the key is not freed here.\<close>

definition switch_core_inthash_insert ::
  "ht_alloc \<Rightarrow> 'v switch_inthash \<Rightarrow> u32 \<Rightarrow> 'v option \<Rightarrow> (u32, 'v) hash_result" where
  "switch_core_inthash_insert al h k data =
     insert_copied al h k data (HASHTABLE_FLAG_FREE_KEY OR HASHTABLE_DUP_CHECK) None []"

definition switch_core_inthash_delete ::
  "'v switch_inthash \<Rightarrow> u32 \<Rightarrow> 'v option \<times> 'v switch_inthash \<times> (u32, 'v) release list" where
  "switch_core_inthash_delete h k = switch_hashtable_remove h k"

definition switch_core_inthash_find :: "'v switch_inthash \<Rightarrow> u32 \<Rightarrow> 'v option" where
  "switch_core_inthash_find h k = switch_hashtable_search h k"

section \<open>The interface of a keyed store\<close>

datatype ('k, 'v) store_op = Put 'k "'v option" | Drop 'k

text \<open>The value a sequence of writes leaves under a key, \<open>v0\<close> being the value before.\<close>

fun last_write :: "('k \<Rightarrow> 'k \<Rightarrow> bool) \<Rightarrow> ('k, 'v) store_op list \<Rightarrow> 'k \<Rightarrow> 'v option \<Rightarrow> 'v option" where
  "last_write eq [] k v0 = v0"
| "last_write eq (Put k' v # ops) k v0 = last_write eq ops k (if eq k' k then v else v0)"
| "last_write eq (Drop k' # ops) k v0 = last_write eq ops k (if eq k' k then None else v0)"

fun run_store :: "('s \<Rightarrow> 'k \<Rightarrow> 'v option \<Rightarrow> 's) \<Rightarrow> ('s \<Rightarrow> 'k \<Rightarrow> 's) \<Rightarrow> ('k, 'v) store_op list \<Rightarrow> 's \<Rightarrow> 's" where
  "run_store put drp [] s = s"
| "run_store put drp (Put k v # ops) s = run_store put drp ops (put s k v)"
| "run_store put drp (Drop k # ops) s = run_store put drp ops (drp s k)"

locale keyed_store =
  fixes eq :: "'k \<Rightarrow> 'k \<Rightarrow> bool" and inv :: "'s \<Rightarrow> bool" and find :: "'s \<Rightarrow> 'k \<Rightarrow> 'v option"
    and put :: "'s \<Rightarrow> 'k \<Rightarrow> 'v option \<Rightarrow> 's" and drop_key :: "'s \<Rightarrow> 'k \<Rightarrow> 's"
  assumes put_inv: "inv s \<Longrightarrow> inv (put s k v)"
    and drop_inv: "inv s \<Longrightarrow> inv (drop_key s k)"
    and find_put: "inv s \<Longrightarrow> find (put s k v) k' = (if eq k k' then v else find s k')"
    and find_drop: "inv s \<Longrightarrow> find (drop_key s k) k' = (if eq k k' then None else find s k')"
begin

lemma run_inv: "inv s \<Longrightarrow> inv (run_store put drop_key ops s)"
proof (induction ops arbitrary: s)
  case (Cons p ops)
  then show ?case by (cases p) (simp_all add: put_inv drop_inv)
qed simp

lemma run_find: "inv s \<Longrightarrow> find (run_store put drop_key ops s) k = last_write eq ops k (find s k)"
proof (induction ops arbitrary: s)
  case (Cons p ops)
  then show ?case by (cases p) (simp_all add: put_inv drop_inv find_put find_drop)
qed simp

end

section \<open>The hashes are keyed stores\<close>

lemma insert_search:
  assumes "ht_inv h" "fl AND HASHTABLE_DUP_CHECK \<noteq> 0"
  obtains h' out where "switch_hashtable_insert_destructor all_memory h k v fl d = Some (True, h', out)"
    "ht_inv h'" "eqfn h' = eqfn h"
    "\<And>k'. switch_hashtable_search h' k' = (if eqfn h k k' then v else switch_hashtable_search h k')"
proof -
  have am: "entry_malloc all_memory" "table_malloc all_memory \<or> \<not> table_realloc all_memory"
    by (simp_all add: all_memory_def)
  have pre: "fl AND HASHTABLE_DUP_CHECK \<noteq> 0 \<or> hashtable_find h k = None" using assms(2) by simp
  obtain h' where h': "switch_hashtable_insert_destructor all_memory h k v fl d =
      Some (entry_malloc all_memory, h', released h k)" "ht_inv h'" "eqfn h' = eqfn h"
    "\<And>k'. hashtable_find h' k' = (if eqfn h k k'
        then (if entry_malloc all_memory then Some (new_entry h k v fl d) else None)
        else hashtable_find h k')"
    using insert_spec [OF assms(1) pre am(2), where v = v and d = d] by blast
  have "switch_hashtable_search h' k' = (if eqfn h k k' then v else switch_hashtable_search h k')" for k'
    by (simp add: switch_hashtable_search_def h'(4) am(1) new_entry_def)
  then show ?thesis using that [of h' "released h k"] h'(1-3) am(1) by simp
qed

lemma remove_search:
  assumes "ht_inv h"
  obtains v h' out where "switch_hashtable_remove h k = (v, h', out)" "ht_inv h'" "eqfn h' = eqfn h"
    "\<And>k'. switch_hashtable_search h' k' = (if eqfn h k k' then None else switch_hashtable_search h k')"
proof -
  obtain h' where h': "switch_hashtable_remove h k =
      (Option.bind (hashtable_find h k) removed_value, h', released h k)" "ht_inv h'" "eqfn h' = eqfn h"
    "\<And>k'. hashtable_find h' k' = (if eqfn h k k' then None else hashtable_find h k')"
    using remove_spec [OF assms, of k] by blast
  have "switch_hashtable_search h' k' = (if eqfn h k k' then None else switch_hashtable_search h k')" for k'
    by (simp add: switch_hashtable_search_def h'(4))
  with h' show ?thesis by (intro that)
qed

text \<open>The stores of a client: what remains of an insertion and a deletion is the hash.\<close>

definition result_hash :: "('k, 'v) switch_hashtable \<Rightarrow> ('k, 'v) hash_result \<Rightarrow> ('k, 'v) switch_hashtable" where
  "result_hash h r = (case r of None \<Rightarrow> h | Some (_, h', _) \<Rightarrow> h')"

definition hash_put :: "'v switch_hash \<Rightarrow> string \<Rightarrow> 'v option \<Rightarrow> 'v switch_hash" where
  "hash_put h k v = result_hash h (switch_core_hash_insert all_memory h k v)"

definition hash_drop :: "'v switch_hash \<Rightarrow> string \<Rightarrow> 'v switch_hash" where
  "hash_drop h k = fst (snd (switch_core_hash_delete h k))"

definition inthash_put :: "'v switch_inthash \<Rightarrow> u32 \<Rightarrow> 'v option \<Rightarrow> 'v switch_inthash" where
  "inthash_put h k v = result_hash h (switch_core_inthash_insert all_memory h k v)"

definition inthash_drop :: "'v switch_inthash \<Rightarrow> u32 \<Rightarrow> 'v switch_inthash" where
  "inthash_drop h k = fst (snd (switch_core_inthash_delete h k))"

definition key_hash :: "('k \<Rightarrow> 'k \<Rightarrow> bool) \<Rightarrow> ('k, 'v) switch_hashtable \<Rightarrow> bool" where
  "key_hash eq h \<longleftrightarrow> ht_inv h \<and> eqfn h = eq"

lemma insert_copied_search:
  assumes "key_hash eq h"
  defines "hk \<equiv> \<lambda>k v d fr. result_hash h
    (insert_copied all_memory h k v (HASHTABLE_FLAG_FREE_KEY OR HASHTABLE_DUP_CHECK) d fr)"
  shows "key_hash eq (hk k v d fr)"
    and "switch_hashtable_search (hk k v d fr) k' = (if eq k k' then v else switch_hashtable_search h k')"
proof -
  have fl: "(HASHTABLE_FLAG_FREE_KEY OR HASHTABLE_DUP_CHECK) AND HASHTABLE_DUP_CHECK \<noteq> 0"
    by (simp add: hashtable_flags)
  obtain h' out where h': "switch_hashtable_insert_destructor all_memory h k v
      (HASHTABLE_FLAG_FREE_KEY OR HASHTABLE_DUP_CHECK) d = Some (True, h', out)"
    "ht_inv h'" "eqfn h' = eqfn h"
    "\<And>k'. switch_hashtable_search h' k' = (if eqfn h k k' then v else switch_hashtable_search h k')"
    using insert_search [OF _ fl, of h k v d] assms unfolding key_hash_def by blast
  then show "key_hash eq (hk k v d fr)"
    "switch_hashtable_search (hk k v d fr) k' = (if eq k k' then v else switch_hashtable_search h k')"
    using assms(1) by (simp_all add: key_hash_def insert_copied_def hk_def result_hash_def)
qed

lemma remove_key_hash:
  assumes "key_hash eq h"
  shows "key_hash eq (fst (snd (switch_hashtable_remove h k)))"
    and "switch_hashtable_search (fst (snd (switch_hashtable_remove h k))) k' =
      (if eq k k' then None else switch_hashtable_search h k')"
proof -
  obtain v h' out where "switch_hashtable_remove h k = (v, h', out)" "ht_inv h'" "eqfn h' = eqfn h"
    "\<And>k'. switch_hashtable_search h' k' = (if eqfn h k k' then None else switch_hashtable_search h k')"
    using remove_search [of h k] assms unfolding key_hash_def by blast
  then show "key_hash eq (fst (snd (switch_hashtable_remove h k)))"
    "switch_hashtable_search (fst (snd (switch_hashtable_remove h k))) k' =
      (if eq k k' then None else switch_hashtable_search h k')"
    using assms by (simp_all add: key_hash_def)
qed

lemmas store_defs = hash_put_def hash_drop_def inthash_put_def inthash_drop_def
  switch_core_hash_insert_def switch_core_hash_insert_destructor_def switch_core_hash_delete_def
  switch_core_inthash_insert_def switch_core_inthash_delete_def switch_core_hash_find_def
  switch_core_inthash_find_def

interpretation str_hash: keyed_store eq "key_hash eq" switch_core_hash_find hash_put hash_drop
  for eq :: "string \<Rightarrow> string \<Rightarrow> bool"
  by unfold_locales (simp_all add: store_defs insert_copied_search remove_key_hash)

interpretation int_hash: keyed_store eq "key_hash eq" switch_core_inthash_find inthash_put inthash_drop
  for eq :: "u32 \<Rightarrow> u32 \<Rightarrow> bool"
  by unfold_locales (simp_all add: store_defs insert_copied_search remove_key_hash)

section \<open>Deleting many\<close>

definition chosen :: "(string \<Rightarrow> 'v option \<Rightarrow> bool) option \<Rightarrow> (string, 'v) entry \<Rightarrow> bool" where
  "chosen callback e \<longleftrightarrow> (case callback of None \<Rightarrow> True | Some f \<Rightarrow> f (e_k e) (e_v e))"

lemma set_selected_keys:
  assumes "ht_inv h"
  shows "set (selected_keys callback h) = {e_k e | e. e \<in># entries h \<and> chosen callback e}"
proof -
  have "length (table h) = tablelength h"
    using assms by (simp add: ht_inv_def ht_shape_def placed_def)
  note it = iterate_all [OF this, of "length (concat (table h))"]
  have "selected_keys callback h = map e_k (filter (chosen callback) (concat (table h)))"
    by (cases callback) (simp_all add: it selected_keys_def filter_map comp_def chosen_def [abs_def])
  then show ?thesis by (auto simp: entries_def)
qed

lemma zero_event_fields: "headers zero_event = []" "flags zero_event = 0"
  by (simp_all add: zero_event_def)

lemma delete_list_fold: "delete_list ks = fold (base_add SWITCH_STACK_BOTTOM ''delete'') ks zero_event"
  by (simp add: delete_list_def switch_event_create_subclass_def event_ids)

lemma delete_name: "plain_name ''delete''"
  by (simp add: plain_name_def)

definition delete_header :: "string \<Rightarrow> switch_event_header" where
  "delete_header k = \<lparr>h_name = ''delete'', h_value = Some k, h_array = [],
     h_hash = switch_ci_hashfunc_default ''delete''\<rparr>"

lemma delete_headers:
  assumes "\<forall>k \<in> set ks. plain_value k" "ev_inv event" "flags event = 0"
  defines "event' \<equiv> fold (base_add SWITCH_STACK_BOTTOM ''delete'') ks event"
  shows "headers event' = headers event @ map delete_header ks \<and> ev_inv event' \<and> flags event' = 0"
  unfolding event'_def using assms(1-3)
proof (induction ks arbitrary: event)
  case (Cons k ks)
  let ?e = "base_add SWITCH_STACK_BOTTOM ''delete'' k event"
  have "headers ?e = headers event @ [delete_header k]" "flags ?e = 0" "ev_inv ?e"
    using base_add_plain [OF delete_name _ pushes_simps(2), of k event] Cons.prems base_add_inv
    by (simp_all add: link_header_spec new_header_def stack_flags delete_header_def)
  with Cons.IH [of ?e] Cons.prems(1) show ?case by simp
qed simp

lemma delete_each_search:
  assumes "key_hash eq h"
  shows "\<exists>st h' out. delete_each hs h status = (st, h', out) \<and> key_hash eq h' \<and>
    (\<forall>k'. switch_core_hash_find h' k' =
       (if \<exists>hp \<in> set hs. eq (the (h_value hp)) k' then None else switch_core_hash_find h k'))"
  using assms
proof (induction hs arbitrary: h status)
  case (Cons hp hs)
  obtain v h1 out1 where r: "switch_hashtable_remove h (the (h_value hp)) = (v, h1, out1)"
    by (cases "switch_hashtable_remove h (the (h_value hp))") auto
  from remove_key_hash [OF Cons.prems, of "the (h_value hp)"] r
  have h1: "key_hash eq h1" "\<And>k'. switch_hashtable_search h1 k' =
      (if eq (the (h_value hp)) k' then None else switch_hashtable_search h k')" by simp_all
  from Cons.IH [OF h1(1), of "if v \<noteq> None then SWITCH_STATUS_SUCCESS else status"]
  obtain st h' out where "delete_each hs h1 (if v \<noteq> None then SWITCH_STATUS_SUCCESS else status) = (st, h', out)"
    "key_hash eq h'" "\<And>k'. switch_core_hash_find h' k' =
       (if \<exists>hp \<in> set hs. eq (the (h_value hp)) k' then None else switch_core_hash_find h1 k')" by blast
  with r h1 show ?case
    by (auto simp: switch_core_hash_delete_def switch_core_hash_find_def Let_def)
qed (simp add: Let_def)

section \<open>Properties\<close>

text \<open>
  C4: A string hash made by \<^verbatim>\<open>switch_core_hash_init_case\<close> remembers exactly the last write: after
  any sequence of insertions and deletions a lookup gives what the last insertion or
  deletion of an equal key left, with equality by or without case as the hash was made.\<close>
theorem core_hash_last_write:
  fixes ops :: "(string, 'v) store_op list"
  shows "\<exists>h :: 'v switch_hash. switch_core_hash_init_case cs = (Some h, SWITCH_STATUS_SUCCESS) \<and>
    switch_core_hash_find (run_store hash_put hash_drop ops h) k =
      last_write (if cs then switch_hash_equalkeys else switch_hash_equalkeys_ci) ops k None"
proof -
  let ?hf = "if cs then switch_hash_default else switch_hash_default_ci"
  let ?eq = "if cs then switch_hash_equalkeys else switch_hash_equalkeys_ci"
  have kl: "hash_keys ?hf ?eq" using str_keys.hash_keys_axioms ci_keys.hash_keys_axioms by simp
  obtain h :: "'v switch_hash" where h: "switch_create_hashtable 16 ?hf ?eq = (Some h, SWITCH_STATUS_SUCCESS)"
    "ht_inv h" "entries h = {#}" "eqfn h = ?eq"
    using create_spec [OF kl, of 16] by auto
  have "hashtable_find h k = None"
    using h(2,3) by (simp add: ht_inv_def find_None)
  then have "switch_core_hash_find h k = None"
    by (simp add: switch_core_hash_find_def switch_hashtable_search_def)
  moreover have "key_hash ?eq h" using h by (simp add: key_hash_def)
  ultimately have "switch_core_hash_find (run_store hash_put hash_drop ops h) k = last_write ?eq ops k None"
    by (simp only: str_hash.run_find)
  moreover have "switch_core_hash_init_case cs = (Some h, SWITCH_STATUS_SUCCESS)"
    using h(1) by (simp add: switch_core_hash_init_case_def split: if_splits)
  ultimately show ?thesis by blast
qed

text \<open>A case-sensitive hash with one entry, for the witness.\<close>

definition sample_hash :: "nat switch_hash" where
  "sample_hash = hash_put (the (fst (switch_core_hash_init_case True))) ''a'' (Some 1)"

lemma sample_hash:
  "ht_inv sample_hash" "eqfn sample_hash = switch_hash_equalkeys"
  "switch_hashtable_search sample_hash ''a'' = Some 1"
  "entries sample_hash \<noteq> {#}"
  "e \<in># entries sample_hash \<Longrightarrow> e_k e = ''a''"
proof -
  obtain h :: "nat switch_hash" where h: "switch_core_hash_init_case True = (Some h, SWITCH_STATUS_SUCCESS)"
    "ht_inv h" "entries h = {#}" "eqfn h = switch_hash_equalkeys"
    using create_spec [OF str_keys.hash_keys_axioms, of 16] by (auto simp: switch_core_hash_init_case_def)
  let ?fl = "HASHTABLE_FLAG_FREE_KEY OR HASHTABLE_DUP_CHECK"
  have pre: "?fl AND HASHTABLE_DUP_CHECK \<noteq> 0 \<or> hashtable_find h ''a'' = None"
    "table_malloc all_memory \<or> \<not> table_realloc all_memory"
    by (simp_all add: hashtable_flags all_memory_def)
  obtain h' where h': "switch_hashtable_insert_destructor all_memory h ''a'' (Some 1) ?fl None =
      Some (entry_malloc all_memory, h', released h ''a'')" "ht_inv h'" "eqfn h' = eqfn h"
    "\<And>k'. hashtable_find h' k' = (if eqfn h ''a'' k'
        then (if entry_malloc all_memory then Some (new_entry h ''a'' (Some 1) ?fl None) else None)
        else hashtable_find h k')"
    using insert_spec [OF h(2) pre, where v = "Some 1" and d = None] by blast
  have am: "entry_malloc all_memory" by (simp add: all_memory_def)
  have s: "sample_hash = h'"
    using h(1) h'(1) am by (simp add: sample_hash_def store_defs insert_copied_def result_hash_def)
  have none: "hashtable_find h k = None" for k using h(2,3) by (simp add: ht_inv_def find_None)
  show "ht_inv sample_hash" "eqfn sample_hash = switch_hash_equalkeys"
    "switch_hashtable_search sample_hash ''a'' = Some 1"
    using h' h(4) am by (simp_all add: s switch_hashtable_search_def switch_hash_equalkeys_def new_entry_def)
  show "entries sample_hash \<noteq> {#}"
    using find_Some [of h' "''a''"] h'(2,4) h(4) am by (auto simp: s ht_inv_def switch_hash_equalkeys_def)
  assume "e \<in># entries sample_hash"
  then have "hashtable_find h' (e_k e) = Some e"
    using h'(2,3) h(4) find_iff [of h' "e_k e" e] by (simp add: s ht_inv_def switch_hash_equalkeys_def)
  then show "e_k e = ''a''"
    using h'(4) [of "e_k e"] none [of "e_k e"] h(4) by (simp add: switch_hash_equalkeys_def split: if_splits)
qed

text \<open>
  \<^verbatim>\<open>switch_core_hash_delete_multi\<close> deletes exactly the entries its callback chooses, when their keys are
  neither empty nor array texts: afterwards the keys equal to a chosen one are absent, all others are
  found as before, and the hash is well formed.\<close>
theorem delete_multi_deletes_chosen:
  fixes h :: "'v switch_hash"
  assumes "ht_inv h" "\<forall>e \<in># entries h. chosen callback e \<longrightarrow> plain_value (e_k e)"
  shows "\<exists>st h' out. switch_core_hash_delete_multi h callback = (st, h', out) \<and> ht_inv h' \<and>
    (\<forall>k. switch_core_hash_find h' k =
       (if \<exists>e \<in># entries h. chosen callback e \<and> eqfn h (e_k e) k then None
        else switch_core_hash_find h k))"
proof -
  let ?ks = "selected_keys callback h"
  let ?hs = "headers (delete_list ?ks)"
  have "\<forall>k \<in> set ?ks. plain_value k"
    using assms(2) by (auto simp: set_selected_keys [OF assms(1)])
  then have "?hs = map delete_header ?ks"
    using delete_headers [of ?ks zero_event] by (simp add: delete_list_fold zero_event_fields)
  then have hs: "map h_value ?hs = map Some ?ks" by (simp add: delete_header_def comp_def)
  have "(\<exists>hp \<in> set ?hs. eqfn h (the (h_value hp)) k) \<longleftrightarrow> (\<exists>x \<in> set (map h_value ?hs). eqfn h (the x) k)" for k
    by auto
  also have "\<dots> k \<longleftrightarrow> (\<exists>e \<in># entries h. chosen callback e \<and> eqfn h (e_k e) k)" for k
    unfolding hs by (auto simp: set_selected_keys [OF assms(1)])
  finally have sel: "(\<exists>hp \<in> set ?hs. eqfn h (the (h_value hp)) k) \<longleftrightarrow>
      (\<exists>e \<in># entries h. chosen callback e \<and> eqfn h (e_k e) k)" for k .
  have "key_hash (eqfn h) h" using assms(1) by (simp add: key_hash_def)
  from delete_each_search [OF this, of ?hs SWITCH_STATUS_GENERR]
  show ?thesis unfolding switch_core_hash_delete_multi_def sel by (auto simp: key_hash_def)
qed

lemma delete_multi_deletes_chosen_witness:
  "ht_inv sample_hash \<and> switch_core_hash_find sample_hash ''a'' = Some 1 \<and>
   (\<exists>st h' out. switch_core_hash_delete_multi sample_hash None = (st, h', out) \<and>
      switch_core_hash_find h' ''a'' = None)"
  using delete_multi_deletes_chosen [OF sample_hash(1), of None] sample_hash
  by (auto simp: plain_value_def switch_hash_equalkeys_def chosen_def switch_core_hash_find_def)

text \<open>
  An empty key that \<^verbatim>\<open>switch_core_hash_delete_multi\<close> meets erases the list of keys collected so far: only the
  chosen keys that the iteration visits after it are deleted.\<close>
theorem delete_list_empty_key:
  assumes "\<forall>k \<in> set ks. plain_value k" "\<forall>k \<in> set ks'. plain_value k"
  shows "map h_value (headers (delete_list (ks @ [] # ks'))) = map Some ks'"
proof -
  let ?e = "fold (base_add SWITCH_STACK_BOTTOM ''delete'') ks zero_event"
  let ?d = "switch_event_del_header ?e ''delete''"
  have e: "headers ?e = map delete_header ks" "ev_inv ?e" "flags ?e = 0"
    using delete_headers [OF assms(1), of zero_event] by (simp_all add: zero_event_fields)
  have "base_add SWITCH_STACK_BOTTOM ''delete'' [] ?e = ?d"
    using delete_name by (subst base_add.simps) (simp add: plain_name_def stack_flags)
  moreover have "headers ?d = []" "flags ?d = 0"
    using e by (simp_all add: del_header_headers del_header_other delete_header_def)
  moreover have "ev_inv ?d"
    using e(2) del_header_inv by (simp add: switch_event_del_header_def)
  ultimately show ?thesis
    using delete_headers [OF assms(2), of ?d]
    by (simp add: delete_list_fold delete_header_def comp_def)
qed

lemma delete_list_empty_key_witness:
  "map h_value (headers (delete_list [''a'', [], ''b''])) = [Some ''b'']"
  using delete_list_empty_key [of "[''a'']" "[''b'']"] by (simp add: plain_value_def)

end
