(* ===== verification/Chanvars.thy ===== *)
theory Chanvars
  imports Channel Corehash
begin

text \<open>
  What a channel keeps outside of its own record, \<^verbatim>\<open>src/switch_channel.c\<close>: the application flags, which
  are cells found by name through a core hash, and the variables that name applications and commands to run when the
  channel rings, has media or is answered.  The interpreters of applications and commands and the expansion of
  variables are parameters.
\<close>

unbundle bit_operations_syntax

section \<open>Application flags\<close>

text \<open>The cells of the session's pool are numbered as they are allocated; the hash holds their numbers.\<close>

record app_flags =
  app_flag_hash :: "nat switch_hash option"
  cells :: "u32 list"

definition no_app_flags :: app_flags where
  "no_app_flags = \<lparr>app_flag_hash = None, cells = []\<rparr>"

definition init_app_flags :: "app_flags \<Rightarrow> app_flags" where
  "init_app_flags s =
     (case app_flag_hash s of None \<Rightarrow> s\<lparr>app_flag_hash := fst (switch_core_hash_init_case True)\<rparr> | Some h \<Rightarrow> s)"

text \<open>The status of the insertion is not looked at.\<close>

definition switch_channel_set_app_flag_key :: "string \<Rightarrow> u32 \<Rightarrow> app_flags \<Rightarrow> app_flags option" where
  "switch_channel_set_app_flag_key nm fls s =
     (let new = (app_flag_hash s = None);
          s = init_app_flags s
      in case app_flag_hash s of None \<Rightarrow> None
         | Some h \<Rightarrow>
             (case (if new then None else switch_core_hash_find h nm) of
                None \<Rightarrow> Some \<lparr>app_flag_hash = Some (hash_put h nm (Some (length (cells s)))), cells = cells s @ [0 OR fls]\<rparr>
              | Some p \<Rightarrow> if p < length (cells s) then Some (s\<lparr>cells := (cells s)[p := cells s ! p OR fls]\<rparr>) else None))"

definition flag_cell :: "string \<Rightarrow> app_flags \<Rightarrow> nat option" where
  "flag_cell nm s = (case app_flag_hash s of None \<Rightarrow> None | Some h \<Rightarrow> switch_core_hash_find h nm)"

definition switch_channel_clear_app_flag_key :: "string \<Rightarrow> u32 \<Rightarrow> app_flags \<Rightarrow> app_flags option" where
  "switch_channel_clear_app_flag_key nm fls s =
     (case flag_cell nm s of None \<Rightarrow> Some s
      | Some p \<Rightarrow> if p < length (cells s)
          then Some (s\<lparr>cells := (cells s)[p := if fls = 0 then 0 else cells s ! p AND NOT fls]\<rparr>) else None)"

definition switch_channel_test_app_flag_key :: "string \<Rightarrow> u32 \<Rightarrow> app_flags \<Rightarrow> u32 option" where
  "switch_channel_test_app_flag_key nm fls s =
     (case flag_cell nm s of None \<Rightarrow> Some 0
      | Some p \<Rightarrow> if p < length (cells s) then Some (cells s ! p AND fls) else None)"

datatype app_flag_op = Set_App_Flag string u32 | Clear_App_Flag string u32

fun app_flag_exec :: "app_flag_op list \<Rightarrow> app_flags \<Rightarrow> app_flags option" where
  "app_flag_exec [] s = Some s"
| "app_flag_exec (Set_App_Flag nm fls # ops) s = Option.bind (switch_channel_set_app_flag_key nm fls s) (app_flag_exec ops)"
| "app_flag_exec (Clear_App_Flag nm fls # ops) s = Option.bind (switch_channel_clear_app_flag_key nm fls s) (app_flag_exec ops)"

text \<open>The specification: a word of flags for every name, at first zero.\<close>

fun flag_spec :: "app_flag_op list \<Rightarrow> (string \<Rightarrow> u32) \<Rightarrow> string \<Rightarrow> u32" where
  "flag_spec [] m = m"
| "flag_spec (Set_App_Flag nm fls # ops) m = flag_spec ops (m(nm := m nm OR fls))"
| "flag_spec (Clear_App_Flag nm fls # ops) m = flag_spec ops (m(nm := if fls = 0 then 0 else m nm AND NOT fls))"

section \<open>Applications and commands run by variables\<close>

text \<open>
  The application, its argument, and whether it is run in the background: the text is cut at the first space
  or single colon; a double colon leaves it whole.
\<close>

fun split_app :: "string \<Rightarrow> string \<times> string option \<times> bool" where
  "split_app [] = ([], None, False)"
| "split_app (c # cs) =
     (let next_colon = (case cs of [] \<Rightarrow> False | d # _ \<Rightarrow> d = CHR '':'')
      in if c = CHR '' '' \<or> c = CHR '':'' \<and> \<not> next_colon then ([], Some cs, False)
         else if c = CHR '':'' then (c # cs, None, True)
         else (let (app, arg, bg) = split_app cs in (c # app, arg, bg)))"

definition strncaseeq :: "string \<Rightarrow> string \<Rightarrow> bool" where
  "strncaseeq var pfx \<longleftrightarrow> strcaseeq (take (length pfx) var) pfx"

text \<open>\<open>execute app arg bg\<close> runs the application, in the background or not.\<close>

definition switch_channel_execute_on_value ::
  "(string \<Rightarrow> string option \<Rightarrow> bool \<Rightarrow> channel \<Rightarrow> channel) \<Rightarrow> string \<Rightarrow> channel \<Rightarrow> channel" where
  "switch_channel_execute_on_value execute variable_value ch =
     (let (app, arg, bg) = split_app variable_value
      in execute app arg (bg \<or> strncaseeq app ''perl'') ch)"

text \<open>\<open>execute app arg\<close> runs the command, \<open>expand\<close> expands the variables of its argument.\<close>

definition do_api_on ::
  "(string \<Rightarrow> string) \<Rightarrow> (string \<Rightarrow> string option \<Rightarrow> channel \<Rightarrow> channel) \<Rightarrow> string \<Rightarrow> channel \<Rightarrow> channel" where
  "do_api_on expand execute v ch =
     (let app = takeWhile (\<lambda>c. c \<noteq> CHR '' '') v;
          arg = (case dropWhile (\<lambda>c. c \<noteq> CHR '' '') v of [] \<Rightarrow> None | _ # rest \<Rightarrow> Some rest)
      in execute app (case arg of None \<Rightarrow> None | Some a \<Rightarrow> Some (if a = [] then a else expand a)) ch)"

text \<open>The values of the variables whose names begin with the prefix, array elements one by one; variables have values.\<close>

definition hook_values :: "string \<Rightarrow> switch_event_header list \<Rightarrow> string list" where
  "hook_values pfx hs =
     concat (map (\<lambda>hp. if strncaseeq (h_name hp) pfx
       then (if h_array hp \<noteq> [] then h_array hp else [the (h_value hp)]) else []) hs)"

definition hook_status :: "string list \<Rightarrow> switch_status" where
  "hook_status vs = (if vs \<noteq> [] then SWITCH_STATUS_SUCCESS else SWITCH_STATUS_FALSE)"

definition switch_channel_api_on ::
  "(string \<Rightarrow> string) \<Rightarrow> (string \<Rightarrow> string option \<Rightarrow> channel \<Rightarrow> channel) \<Rightarrow> switch_event \<Rightarrow> string \<Rightarrow> channel \<Rightarrow>
   switch_status \<times> channel" where
  "switch_channel_api_on expand execute variables pfx ch =
     (let vs = hook_values pfx (headers variables)
      in (hook_status vs, fold (do_api_on expand execute) vs ch))"

definition switch_channel_execute_on ::
  "(string \<Rightarrow> string option \<Rightarrow> bool \<Rightarrow> channel \<Rightarrow> channel) \<Rightarrow> switch_event \<Rightarrow> switch_event \<Rightarrow> string \<Rightarrow> channel \<Rightarrow>
   switch_status \<times> channel" where
  "switch_channel_execute_on execute globals variables pfx ch =
     (let vs = hook_values pfx (headers (switch_event_merge globals variables))
      in (hook_status vs, fold (switch_channel_execute_on_value execute) vs ch))"

text \<open>What the channel runs for the variables \<^verbatim>\<open>execute_on_...\<close> and \<^verbatim>\<open>api_on_...\<close>.\<close>

definition hooks ::
  "(string \<Rightarrow> string option \<Rightarrow> bool \<Rightarrow> channel \<Rightarrow> channel) \<Rightarrow> (string \<Rightarrow> string) \<Rightarrow>
   (string \<Rightarrow> string option \<Rightarrow> channel \<Rightarrow> channel) \<Rightarrow> switch_event \<Rightarrow> switch_event \<Rightarrow> string \<Rightarrow> channel \<Rightarrow> channel" where
  "hooks execute expand api globals variables v ch =
     (if strncaseeq v ''execute_on_'' then snd (switch_channel_execute_on execute globals variables v ch)
      else snd (switch_channel_api_on expand api variables v ch))"

section \<open>The flags by name\<close>

lemma init_hash:
  obtains h :: "'v switch_hash" where "switch_core_hash_init_case True = (Some h, SWITCH_STATUS_SUCCESS)"
    "key_hash switch_hash_equalkeys h" "\<And>k. switch_core_hash_find h k = None"
proof -
  obtain h :: "'v switch_hash" where
    h: "switch_create_hashtable 16 switch_hash_default switch_hash_equalkeys = (Some h, SWITCH_STATUS_SUCCESS)"
      "ht_inv h" "entries h = {#}" "eqfn h = switch_hash_equalkeys"
    using create_spec [OF str_keys.hash_keys_axioms, of 16] by auto
  have "hashtable_find h k = None" for k using h(2,3) by (simp add: ht_inv_def find_None)
  then have "switch_core_hash_find h k = None" for k by (simp add: switch_core_hash_find_def switch_hashtable_search_def)
  then show ?thesis using that [of h] h by (simp add: switch_core_hash_init_case_def key_hash_def)
qed

text \<open>Every name has a cell of its own, and what the cells hold is the word of flags \<open>m\<close>.\<close>

definition shows_flags :: "app_flags \<Rightarrow> (string \<Rightarrow> u32) \<Rightarrow> bool" where
  "shows_flags s m \<longleftrightarrow>
     (case app_flag_hash s of None \<Rightarrow> True | Some h \<Rightarrow> key_hash switch_hash_equalkeys h) \<and>
     (\<forall>k. case flag_cell k s of None \<Rightarrow> m k = 0 | Some p \<Rightarrow> p < length (cells s) \<and> m k = cells s ! p) \<and>
     (\<forall>k k' p. flag_cell k s = Some p \<longrightarrow> flag_cell k' s = Some p \<longrightarrow> k = k')"

lemma shows_cell:
  assumes "shows_flags s m"
  shows "flag_cell k s = None \<Longrightarrow> m k = 0" "flag_cell k s = Some p \<Longrightarrow> p < length (cells s) \<and> m k = cells s ! p"
    "flag_cell k s = Some p \<Longrightarrow> flag_cell k' s = Some p \<Longrightarrow> k = k'"
  using assms unfolding shows_flags_def by (force split: option.splits)+

lemma shows_update:
  assumes "shows_flags s m" "flag_cell nm s = Some p"
  shows "shows_flags (s\<lparr>cells := (cells s)[p := w]\<rparr>) (m(nm := w))"
proof -
  have c: "flag_cell k (s\<lparr>cells := (cells s)[p := w]\<rparr>) = flag_cell k s" for k by (simp add: flag_cell_def)
  have "case flag_cell k s of None \<Rightarrow> (m(nm := w)) k = 0
      | Some q \<Rightarrow> q < length (cells s) \<and> (m(nm := w)) k = (cells s)[p := w] ! q" for k
  proof (cases "flag_cell k s")
    case None
    then show ?thesis using assms shows_cell(1) by auto
  next
    case (Some q)
    then show ?thesis using shows_cell(2,3) [OF assms(1)] assms(2) by (cases "k = nm"; cases "q = p") auto
  qed
  then show ?thesis using assms c unfolding shows_flags_def by (simp cong: option.case_cong)
qed

lemma shows_insert:
  assumes "shows_flags s m" "app_flag_hash s = Some h" "switch_core_hash_find h nm = None"
  shows "shows_flags \<lparr>app_flag_hash = Some (hash_put h nm (Some (length (cells s)))), cells = cells s @ [w]\<rparr> (m(nm := w))"
proof -
  let ?s = "\<lparr>app_flag_hash = Some (hash_put h nm (Some (length (cells s)))), cells = cells s @ [w]\<rparr>"
  have h: "key_hash switch_hash_equalkeys h" using assms(1,2) by (simp add: shows_flags_def)
  have c: "flag_cell k ?s = (if k = nm then Some (length (cells s)) else flag_cell k s)" for k
    using str_hash.find_put [OF h] assms(2) by (simp add: flag_cell_def switch_hash_equalkeys_def)
  have lt: "flag_cell k s = Some p \<Longrightarrow> p < length (cells s)" for k p using shows_cell(2) [OF assms(1)] by blast
  have "case flag_cell k ?s of None \<Rightarrow> (m(nm := w)) k = 0
      | Some q \<Rightarrow> q < length (cells ?s) \<and> (m(nm := w)) k = cells ?s ! q" for k
    using shows_cell(1,2) [OF assms(1), of k] unfolding c
    by (cases "flag_cell k s") (auto simp: nth_append)
  moreover have "k = k'" if "flag_cell k ?s = Some p" "flag_cell k' ?s = Some p" for k k' p
    using that lt shows_cell(3) [OF assms(1)] unfolding c by (auto split: if_splits)
  ultimately show ?thesis
    using str_hash.put_inv [OF h] unfolding shows_flags_def by simp
qed

lemma set_shows:
  assumes "shows_flags s m"
  shows "\<exists>s'. switch_channel_set_app_flag_key nm fls s = Some s' \<and> shows_flags s' (m(nm := m nm OR fls))"
proof (cases "app_flag_hash s")
  case None
  obtain h :: "nat switch_hash" where h: "switch_core_hash_init_case True = (Some h, SWITCH_STATUS_SUCCESS)"
    "key_hash switch_hash_equalkeys h" "\<And>k. switch_core_hash_find h k = None"
    by (rule init_hash [where 'v = nat]) blast
  have z: "m k = 0" for k using shows_cell(1) [OF assms, of k] None by (simp add: flag_cell_def)
  have "shows_flags (s\<lparr>app_flag_hash := Some h\<rparr>) m"
    using h z by (simp add: shows_flags_def flag_cell_def)
  from shows_insert [OF this _ h(3), of nm fls] z show ?thesis
    by (simp add: switch_channel_set_app_flag_key_def init_app_flags_def None h(1))
next
  case (Some h)
  then have c: "flag_cell nm s = switch_core_hash_find h nm" by (simp add: flag_cell_def)
  show ?thesis
  proof (cases "switch_core_hash_find h nm")
    case None
    then show ?thesis
      using shows_insert [OF assms Some None, of fls] shows_cell(1) [OF assms, of nm] c Some
      by (simp add: switch_channel_set_app_flag_key_def init_app_flags_def)
  next
    case (Some p)
    then show ?thesis
      using shows_update [OF assms, of nm p "m nm OR fls"] shows_cell(2) [OF assms, of nm p] c \<open>app_flag_hash s = Some h\<close>
      by (simp add: switch_channel_set_app_flag_key_def init_app_flags_def)
  qed
qed

lemma clear_shows:
  assumes "shows_flags s m"
  shows "\<exists>s'. switch_channel_clear_app_flag_key nm fls s = Some s' \<and>
    shows_flags s' (m(nm := if fls = 0 then 0 else m nm AND NOT fls))"
proof (cases "flag_cell nm s")
  case None
  then have "m(nm := if fls = 0 then 0 else m nm AND NOT fls) = m"
    using shows_cell(1) [OF assms, of nm] by (intro ext) simp
  then show ?thesis using assms None by (simp add: switch_channel_clear_app_flag_key_def)
next
  case (Some p)
  then show ?thesis
    using shows_update [OF assms Some] shows_cell(2) [OF assms Some] by (simp add: switch_channel_clear_app_flag_key_def)
qed

lemma exec_shows:
  assumes "shows_flags s m"
  shows "\<exists>s'. app_flag_exec ops s = Some s' \<and> shows_flags s' (flag_spec ops m)"
  using assms
proof (induction ops arbitrary: s m)
  case (Cons x ops)
  show ?case
  proof (cases x)
    case (Set_App_Flag nm fls)
    then show ?thesis using set_shows [OF Cons.prems, of nm fls] Cons.IH by auto
  next
    case (Clear_App_Flag nm fls)
    then show ?thesis using clear_shows [OF Cons.prems, of nm fls] Cons.IH by fastforce
  qed
qed simp

section \<open>Hooks are histories\<close>

lemma fold_history: "(\<And>x ch. history ch (f x ch)) \<Longrightarrow> history ch (fold f xs ch)"
  by (induction xs arbitrary: ch) (auto intro: history.start history_trans)

lemma hooks_history:
  assumes "\<And>app arg bg ch. history ch (execute app arg bg ch)" "\<And>app arg ch. history ch (api app arg ch)"
  shows "history ch (hooks execute expand api globals variables v ch)"
proof -
  have "history ch (switch_channel_execute_on_value execute x ch)" for x ch
    using assms(1) by (simp add: switch_channel_execute_on_value_def split: prod.split)
  moreover have "history ch (do_api_on expand api x ch)" for x ch
    using assms(2) by (simp add: do_api_on_def Let_def)
  ultimately show ?thesis
    by (simp add: hooks_def switch_channel_execute_on_def switch_channel_api_on_def Let_def fold_history)
qed

section \<open>Properties\<close>

text \<open>
  C12: The application flags of a channel: over the hash table of the core, any sequence of settings and clearings
  never uses a cell that is not allocated, and a test of a name afterwards sees exactly the flags that the
  operations on that name left, whatever was done to other names.\<close>
theorem app_flags_by_name:
  "\<exists>s. app_flag_exec ops no_app_flags = Some s \<and>
    switch_channel_test_app_flag_key nm fls s = Some (flag_spec ops (\<lambda>_. 0) nm AND fls)"
proof -
  have "shows_flags no_app_flags (\<lambda>_. 0)" by (simp add: shows_flags_def no_app_flags_def flag_cell_def)
  then obtain s where s: "app_flag_exec ops no_app_flags = Some s" "shows_flags s (flag_spec ops (\<lambda>_. 0))"
    using exec_shows by blast
  have "switch_channel_test_app_flag_key nm fls s = Some (flag_spec ops (\<lambda>_. 0) nm AND fls)"
    using shows_cell(1,2) [OF s(2), of nm]
    by (cases "flag_cell nm s") (simp_all add: switch_channel_test_app_flag_key_def)
  with s(1) show ?thesis by blast
qed

end
