(* ===== verification/Applications.thy ===== *)
theory Applications
  imports Receive Chanvars
begin

text \<open>
  The applications and commands that answering a channel runs: how variables that name them are written, and what the
  hooks of a channel, the merging of the global variables with those of the channel, and the steps of an answer
  make of them.  Applications and commands are parameters that leave a record of their run in the effects of the channel.
\<close>

section \<open>Calls as texts\<close>

text \<open>An application alone, with an argument, or with an argument and to be run in the background.\<close>

datatype app_call = Plain string | With_Argument string string | In_Background string string

fun call_text :: "app_call \<Rightarrow> string" where
  "call_text (Plain app) = app"
| "call_text (With_Argument app arg) = app @ CHR '' '' # arg"
| "call_text (In_Background app arg) = app @ CHR '':'' # CHR '':'' # arg"

definition ok_name :: "string \<Rightarrow> bool" where
  "ok_name app \<longleftrightarrow> CHR '' '' \<notin> set app \<and> CHR '':'' \<notin> set app"

fun ok_call :: "app_call \<Rightarrow> bool" where
  "ok_call (Plain app) \<longleftrightarrow> ok_name app \<and> plain_value app"
| "ok_call (With_Argument app arg) \<longleftrightarrow> ok_name app \<and> plain_value (app @ CHR '' '' # arg)"
| "ok_call (In_Background app arg) \<longleftrightarrow> ok_name app \<and> CHR '' '' \<notin> set arg \<and> plain_value (app @ CHR '':'' # CHR '':'' # arg)"

text \<open>What a call runs as an application and as a command; the name of one in the background is left to the interpreter.\<close>

fun application :: "app_call \<Rightarrow> chan_effect" where
  "application (Plain app) = Run_Application app None (strncaseeq app ''perl'')"
| "application (With_Argument app arg) = Run_Application app (Some arg) (strncaseeq app ''perl'')"
| "application (In_Background app arg) = Run_Application (app @ CHR '':'' # CHR '':'' # arg) None True"

fun command :: "(string \<Rightarrow> string) \<Rightarrow> app_call \<Rightarrow> chan_effect" where
  "command expand (Plain app) = Run_Command app None"
| "command expand (With_Argument app arg) = Run_Command app (Some (if arg = [] then [] else expand arg))"
| "command expand (In_Background app arg) = Run_Command (app @ CHR '':'' # CHR '':'' # arg) None"

text \<open>A variable with one call, or an array of calls.\<close>

type_synonym app_variable = "string \<times> app_call list"

definition var_header :: "app_variable \<Rightarrow> switch_event_header" where
  "var_header = (\<lambda>(nm, calls). \<lparr>h_name = nm, h_value = Some (array_text (map call_text calls)),
     h_array = (if length calls = 1 then [] else map call_text calls), h_hash = switch_ci_hashfunc_default nm\<rparr>)"

definition ok_var :: "app_variable \<Rightarrow> bool" where
  "ok_var = (\<lambda>(nm, calls). plain_name nm \<and> calls \<noteq> [] \<and> list_all ok_call calls)"

definition other_names :: "app_variable list \<Rightarrow> bool" where
  "other_names vars \<longleftrightarrow> sorted_wrt (\<lambda>a b. \<not> strcaseeq (fst a) (fst b)) vars"

text \<open>The calls of the variables whose names begin with the prefix, in the order of the variables.\<close>

definition calls_of :: "string \<Rightarrow> app_variable list \<Rightarrow> app_call list" where
  "calls_of pfx vars = concat (map (\<lambda>(nm, calls). if strncaseeq nm pfx then calls else []) vars)"

section \<open>Reading the texts\<close>

lemma split_app_name:
  assumes "ok_name app"
  shows "split_app (app @ rest) = (case split_app rest of (a, arg, bg) \<Rightarrow> (app @ a, arg, bg))"
  using assms by (induction app) (auto simp: ok_name_def Let_def split: prod.split)

lemma execute_call:
  assumes "ok_call c"
  shows "switch_channel_execute_on_value execute (call_text c) ch =
    (case application c of Run_Application app arg bg \<Rightarrow> execute app arg bg ch | _ \<Rightarrow> ch)"
  using assms split_app_name [of _ "[]"]
  by (cases c) (auto simp: switch_channel_execute_on_value_def split_app_name)

lemma name_blanks:
  assumes "CHR '' '' \<notin> set app"
  shows "takeWhile (\<lambda>c. c \<noteq> CHR '' '') (app @ CHR '' '' # arg) = app" "dropWhile (\<lambda>c. c \<noteq> CHR '' '') (app @ CHR '' '' # arg) = CHR '' '' # arg"
    "takeWhile (\<lambda>c. c \<noteq> CHR '' '') app = app" "dropWhile (\<lambda>c. c \<noteq> CHR '' '') app = []"
  using assms by (induction app) auto

lemma api_call:
  assumes "ok_call c"
  shows "do_api_on expand api (call_text c) ch = (case command expand c of Run_Command app arg \<Rightarrow> api app arg ch | _ \<Rightarrow> ch)"
proof (cases c)
  case (In_Background app arg)
  then have "CHR '' '' \<notin> set (call_text c)" using assms by (simp add: ok_name_def)
  then show ?thesis unfolding do_api_on_def name_blanks(3,4) [OF \<open>CHR '' '' \<notin> set (call_text c)\<close>] by (simp add: In_Background)
qed (use assms in \<open>simp_all add: do_api_on_def ok_name_def name_blanks\<close>)

lemma ok_call_plain: "ok_call c \<Longrightarrow> plain_value (call_text c)"
  by (cases c) simp_all

lemma var_copyable:
  assumes "ok_var v"
  shows "copyable (var_header v)"
proof -
  obtain nm calls where v: "v = (nm, calls)" by fastforce
  then obtain c cs where calls: "calls = c # cs" using assms by (cases calls) (auto simp: ok_var_def)
  have "plain_value (call_text c)" "plain_name nm" using assms ok_call_plain [of c] by (simp_all add: v calls ok_var_def)
  then show ?thesis by (cases cs) (simp_all add: copyable_def var_header_def v calls hash_ok_def array_text_def join_def)
qed

lemma var_values:
  assumes "calls \<noteq> []"
  shows "(if h_array (var_header (nm, calls)) \<noteq> [] then h_array (var_header (nm, calls)) else [the (h_value (var_header (nm, calls)))]) =
    map call_text calls"
proof (cases "tl calls")
  case Nil
  then obtain c where "calls = [c]" using assms by (cases calls) auto
  then show ?thesis by (simp add: var_header_def array_text_def join_def)
next
  case (Cons d ds)
  then have "length calls \<noteq> 1" by (cases calls) auto
  then show ?thesis using assms by (simp add: var_header_def)
qed

lemma values_of:
  assumes "list_all ok_var vars"
  shows "hook_values pfx (map var_header vars) = map call_text (calls_of pfx vars)"
  using assms
proof (induction vars)
  case (Cons v vars)
  obtain nm calls where v: "v = (nm, calls)" by fastforce
  have "calls \<noteq> []" using Cons.prems by (simp add: v ok_var_def)
  moreover have "h_name (var_header (nm, calls)) = nm" by (simp add: var_header_def)
  ultimately show ?case
    using Cons var_values [of calls nm]
    by (cases "strncaseeq nm pfx") (simp_all add: v hook_values_def calls_of_def split del: if_split)
qed (simp add: hook_values_def calls_of_def)

lemma lookup_var: "lookup nm (map var_header vars) = None \<longleftrightarrow> (\<forall>v \<in> set vars. \<not> strcaseeq (fst v) nm)"
  by (induction vars) (auto simp: var_header_def)

lemma merge_vars:
  assumes "ev_inv globals" "headers globals = map var_header gvars" "headers variables = map var_header cvars"
    "list_all ok_var cvars" "other_names (gvars @ cvars)"
  shows "headers (switch_event_merge globals variables) = map var_header (gvars @ cvars)"
proof -
  have n: "h_name (var_header v) = fst v" for v by (simp add: var_header_def case_prod_beta)
  have "\<forall>hp \<in> set (map var_header cvars). lookup (h_name hp) (headers globals) = None"
    using assms(5) by (auto simp: assms(2) lookup_var other_names_def sorted_wrt_append n)
  moreover have "sorted_wrt (\<lambda>a b. \<not> strcaseeq (h_name a) (h_name b)) (map var_header cvars)"
    using assms(5) by (simp add: other_names_def sorted_wrt_append sorted_wrt_map n)
  ultimately show ?thesis
    using copy_headers_append [OF assms(1), of "map var_header cvars"] assms(4) var_copyable
    by (simp add: switch_event_merge_def assms(2,3) list_all_iff)
qed

section \<open>What is run\<close>

fun is_run :: "chan_effect \<Rightarrow> bool" where
  "is_run (Run_Application app arg bg) = True"
| "is_run (Run_Command app arg) = True"
| "is_run _ = False"

definition runs :: "channel \<Rightarrow> chan_effect list" where
  "runs ch = filter is_run (effects ch)"

text \<open>From \<open>a\<close> to \<open>b\<close> exactly \<open>es\<close> was run, and the mark of early media is the same.\<close>

definition ran :: "chan_effect list \<Rightarrow> channel \<Rightarrow> channel \<Rightarrow> bool" where
  "ran es a b \<longleftrightarrow> runs b = runs a @ es \<and> switch_channel_test_flag b CF_EARLY_MEDIA = switch_channel_test_flag a CF_EARLY_MEDIA"

lemma ran_refl: "ran [] a a"
  by (simp add: ran_def)

lemma ran_trans: "ran es a b \<Longrightarrow> ran fs b c \<Longrightarrow> ran (es @ fs) a c"
  by (simp add: ran_def)

lemma ran_more: "ran es a b \<Longrightarrow> ran [] b c \<Longrightarrow> ran es a c"
  using ran_trans [of es a b "[]" c] by simp

lemma ran_emit: "ran es a b \<Longrightarrow> list_all (\<lambda>e. \<not> is_run e) fs \<Longrightarrow> ran es a (emit fs b)"
  by (simp add: ran_def runs_def emit_def switch_channel_test_flag_def list_all_iff)

lemma ran_callstate: "ran es a b \<Longrightarrow> ran es a (switch_channel_perform_set_callstate cs b)"
  by (simp add: ran_def runs_def emit_def switch_channel_test_flag_def switch_channel_perform_set_callstate_def Let_def)

lemma ran_flag:
  "ran es a b \<Longrightarrow> fl \<in> {CF_ANSWERED, CF_VIDEO_MIRROR_INPUT, CF_PASSTHRU_PTIME_MISMATCH, CF_VIDEO_BREAK} \<Longrightarrow>
   ran es a (switch_channel_set_flag_value env fl v b)"
  by (auto simp: set_plain_flag ran_def runs_def switch_channel_test_flag_def flag_numbers CF_EARLY_MEDIA_def)

lemma ran_let: "ran es a v \<Longrightarrow> (\<And>x. ran es a x \<Longrightarrow> ran fs a (f x)) \<Longrightarrow> ran fs a (Let v f)"
  by (simp add: Let_def)

lemmas ran_steps = shape [where R = "ran es" for es] ran_emit ran_flag ran_callstate

text \<open>Applications and commands that record their runs.\<close>

definition recorded ::
  "(string \<Rightarrow> string option \<Rightarrow> bool \<Rightarrow> channel \<Rightarrow> channel) \<Rightarrow> (string \<Rightarrow> string option \<Rightarrow> channel \<Rightarrow> channel) \<Rightarrow> bool" where
  "recorded execute api \<longleftrightarrow> (\<forall>app arg bg ch. ran [Run_Application app arg bg] ch (execute app arg bg ch)) \<and>
     (\<forall>app arg ch. ran [Run_Command app arg] ch (api app arg ch))"

lemma fold_ran: "(\<And>x ch. x \<in> set xs \<Longrightarrow> ran [e x] ch (f x ch)) \<Longrightarrow> ran (map e xs) ch (fold f xs ch)"
proof (induction xs arbitrary: ch)
  case (Cons x xs)
  have "ran (map e xs) (f x ch) (fold f xs (f x ch))" by (rule Cons.IH) (use Cons.prems in simp)
  then show ?case using ran_trans [of "[e x]" ch "f x ch"] Cons.prems [of x ch] by simp
qed (simp add: ran_refl)

lemma calls_ok: "list_all ok_var vars \<Longrightarrow> c \<in> set (calls_of pfx vars) \<Longrightarrow> ok_call c"
  by (auto simp: calls_of_def ok_var_def list_all_iff split: if_splits)

text \<open>What a variable with a prefix stands for in the variables \<open>gvars\<close> of the process and \<open>cvars\<close> of the channel.\<close>

definition hook_runs :: "(string \<Rightarrow> string) \<Rightarrow> app_variable list \<Rightarrow> app_variable list \<Rightarrow> string \<Rightarrow> chan_effect list" where
  "hook_runs expand gvars cvars pfx =
     (if strncaseeq pfx ''execute_on_'' then map application (calls_of pfx (gvars @ cvars))
      else map (command expand) (calls_of pfx cvars))"

lemma hooks_ran:
  assumes "recorded execute api" "headers (switch_event_merge globals variables) = map var_header (gvars @ cvars)"
    "headers variables = map var_header cvars" "list_all ok_var (gvars @ cvars)"
  shows "ran (hook_runs expand gvars cvars pfx) ch (hooks execute expand api globals variables pfx ch)"
proof (cases "strncaseeq pfx ''execute_on_''")
  case True
  have "ran [application c] ch (switch_channel_execute_on_value execute (call_text c) ch)"
    if "c \<in> set (calls_of pfx (gvars @ cvars))" for c ch
    unfolding execute_call [OF calls_ok [OF assms(4) that]] using assms(1) by (cases c) (simp_all add: recorded_def)
  from fold_ran [of "calls_of pfx (gvars @ cvars)" application, OF this] show ?thesis
    using True values_of [OF assms(4)]
    by (simp add: hook_runs_def hooks_def switch_channel_execute_on_def assms(2) fold_map comp_def Let_def)
next
  case False
  have ok: "list_all ok_var cvars" using assms(4) by simp
  have "ran [command expand c] ch (do_api_on expand api (call_text c) ch)" if "c \<in> set (calls_of pfx cvars)" for c ch
    unfolding api_call [OF calls_ok [OF ok that]] using assms(1) by (cases c) (simp_all add: recorded_def)
  from fold_ran [of "calls_of pfx cvars" "command expand", OF this] show ?thesis
    using False values_of [OF ok]
    by (simp add: hook_runs_def hooks_def switch_channel_api_on_def assms(3) fold_map comp_def Let_def)
qed

section \<open>Receivers that run nothing\<close>

definition silent :: "receiver \<Rightarrow> bool" where
  "silent f \<longleftrightarrow> (\<forall>message ch. ran [] ch (snd (f message ch)))"

definition silent_session :: "message_env \<Rightarrow> bool" where
  "silent_session rx \<longleftrightarrow> pred_option silent (media_receive rx) \<and> pred_option silent (endpoint_receive rx) \<and>
     list_all silent (message_hooks rx)"

lemma call_silent: "pred_option silent f \<Longrightarrow> ran es a ch \<Longrightarrow> ran es a (snd (call_receiver f m ch))"
  by (cases f) (auto simp: call_receiver_def silent_def intro: ran_more)

lemma hooks_silent: "list_all silent fs \<Longrightarrow> ran es a ch \<Longrightarrow> ran es a (snd (run_hooks fs m ch))"
proof (induction fs arbitrary: ch)
  case (Cons f fs)
  have "ran [] ch (snd (f m ch))" using Cons.prems(1) by (simp add: silent_def)
  then have "ran es a (snd (f m ch))" by (rule ran_more [OF Cons.prems(2)])
  then show ?case using Cons.IH [of "snd (f m ch)"] Cons.prems(1) by (simp add: case_prod_beta)
qed simp

lemma receive_silent:
  assumes "silent_session rx" "m = INDICATE_ANSWER \<or> m = ANSWER_EVENT"
  shows "ran [] ch (snd (the (switch_core_session_perform_receive_message env rx m ch)))"
proof -
  have d: "ran [] ch (snd (deliver rx m ch))"
    unfolding deliver_def using assms(1) by (intro ran_steps call_silent) (simp_all add: ran_refl silent_session_def)
  have conf: "confirm_transfer env rx m x = x" for x using assms(2) by (auto simp: confirm_transfer_def)
  have after: "ran [] ch (after_message env m x)" if "ran [] ch x" for x
    unfolding after_message_def Let_def using that by (intro ran_steps; simp)
  obtain st b where b: "deliver rx m ch = (st, b)" by fastforce
  have "ran [] ch (snd (run_hooks (message_hooks rx) m b))"
    using hooks_silent [of "message_hooks rx"] assms(1) d b by (simp add: silent_session_def)
  then show ?thesis using d b
    by (auto simp: receive_plain [OF assms(2)] receive_body_def conf ran_refl split: prod.split intro: after)
qed

section \<open>The runs of an answer\<close>

lemma answer_hooks_ran:
  assumes "\<And>v ch. ran (R v) ch (run_hook env v ch)" "ran [] a b"
  shows "ran (R ''execute_on_answer'' @
      (if switch_channel_test_flag a CF_EARLY_MEDIA then [] else R ''execute_on_media'' @ R ''api_on_media'') @ R ''api_on_answer'')
    a (answer_hooks env b)"
proof -
  let ?x = "R ''execute_on_answer''" and ?m = "if switch_channel_test_flag a CF_EARLY_MEDIA then [] else R ''execute_on_media'' @ R ''api_on_media''"
  have media: "ran (?x @ ?m) a (if \<not> switch_channel_test_flag x CF_EARLY_MEDIA
      then run_hook env ''api_on_media'' (run_hook env ''execute_on_media'' x) else x)" if "ran ?x a x" for x
    using that ran_trans [OF that ran_trans [OF assms(1) assms(1)], of "''execute_on_media''" "''api_on_media''"] by (simp add: ran_def)
  have hook: "ran fs a (run_hook env v x)" if "ran es a x" "fs = es @ R v" for es fs v x
    using ran_trans [OF that(1) assms(1)] that(2) by simp
  show ?thesis
    unfolding answer_hooks_def
    apply (rule ran_let [where es = "[]"], (intro ran_steps assms(2); simp))
    apply (rule ran_let [where es = "[]"], (intro ran_steps; simp))
    apply (rule ran_let [where es = "[]"], (intro ran_steps; simp))
    apply (rule ran_let [where es = "[]"], (intro ran_steps; simp))
    apply (rule ran_let [where es = "[]"], (intro ran_steps; simp))
    apply (rule ran_let [where es = ?x], (rule hook, assumption, simp))
    apply (rule ran_let [where es = "?x @ ?m"], (erule media))
    apply (rule ran_let [where es = "?x @ ?m @ R ''api_on_answer''"], (rule hook, assumption, simp))
    apply (intro ran_steps; simp)
    done
qed

lemma answer_ran:
  assumes "\<And>v ch. ran (R v) ch (run_hook env v ch)" "\<And>ch. ran [] ch (snd (receive env ANSWER_EVENT ch))"
    "cstate a < CS_HANGUP" "hangup_cause a = 0" "\<not> switch_channel_test_flag a CF_ANSWERED"
  shows "ran (R ''execute_on_answer'' @
      (if switch_channel_test_flag a CF_EARLY_MEDIA then [] else R ''execute_on_media'' @ R ''api_on_media'') @ R ''api_on_answer'')
    a (snd (switch_channel_perform_mark_answered env a))"
proof -
  have "ran [] a (marked_answered env a)"
    by (simp add: marked_answered_def ran_def runs_def emit_def set_plain_flag flag_numbers switch_channel_test_flag_def
        CF_EARLY_MEDIA_def Let_def)
  note h = ran_callstate [OF answer_hooks_ran [OF assms(1) this]]
  define d where "d = snd (receive env ANSWER_EVENT
    (switch_channel_perform_set_callstate CCS_ACTIVE (answer_hooks env (marked_answered env a))))"
  have d: "ran (R ''execute_on_answer'' @
      (if switch_channel_test_flag a CF_EARLY_MEDIA then [] else R ''execute_on_media'' @ R ''api_on_media'') @ R ''api_on_answer'') a d"
    unfolding d_def by (rule ran_more [OF h assms(2)])
  then have e: "ran (R ''execute_on_answer'' @
      (if switch_channel_test_flag a CF_EARLY_MEDIA then [] else R ''execute_on_media'' @ R ''api_on_media'') @ R ''api_on_answer'')
      a (emit [Check_Autoadj] d)" by (rule ran_emit) simp
  show ?thesis
    unfolding mark_answered_eq [OF assms(3-5)] d_def [symmetric] Let_def
    by (rule if_both, rule ran_emit [OF e]) (simp, rule e)
qed

lemma answer_delay_runs: "\<exists>es. list_all (\<lambda>e. \<not> is_run e) es \<and> answer_delay env ch = emit es ch"
proof -
  have "emit [] ch = ch" by (simp add: emit_def)
  then have "\<exists>es. list_all (\<lambda>e. \<not> is_run e) es \<and> ch = emit es ch" by (intro exI [of _ "[]"]) simp
  moreover have "\<exists>es. list_all (\<lambda>e. \<not> is_run e) es \<and> emit [Sleep_Msec n] ch = emit es ch" for n
    by (intro exI [of _ "[Sleep_Msec n]"]) simp
  ultimately show ?thesis by (simp add: answer_delay_def split: option.split)
qed

lemma hook_prefixes:
  "strncaseeq ''execute_on_answer'' ''execute_on_''" "strncaseeq ''execute_on_media'' ''execute_on_''"
  "\<not> strncaseeq ''api_on_media'' ''execute_on_''" "\<not> strncaseeq ''api_on_answer'' ''execute_on_''"
  by (simp_all add: strncaseeq_def strcaseeq_def c_tolower_def)

end
