(* ===== verification/G711.thy ===== *)
theory G711
  imports Prelude
begin

text \<open>
  The companding of audio samples of \<^verbatim>\<open>include/g711.h\<close> and the transcoding tables of \<^verbatim>\<open>g711.c\<close>.  A C \<^verbatim>\<open>int\<close> is an
  \<open>int\<close>; the callers pass 16-bit samples, with which no operation of the encoders overflows.  The result of a
  decoder is cut to 16 bits as the cast of the source does.  Shown are that both ways of finding the highest and the
  lowest bit agree, that encoding undoes decoding, and how far a sample moves when it is encoded and decoded.
\<close>

unbundle bit_operations_syntax

section \<open>Model\<close>

text \<open>The portable search for the highest and the lowest set bit.\<close>

definition narrow_to :: "u32 \<Rightarrow> int \<Rightarrow> u32 \<times> int \<Rightarrow> u32 \<times> int" where
  "narrow_to m d = (\<lambda>(bits, i). if bits AND m \<noteq> 0 then (bits AND m, i + d) else (bits, i))"

definition top_bit :: "u32 \<Rightarrow> int" where
  "top_bit bits =
     (if bits = 0 then -1
      else snd (narrow_to 0xAAAAAAAA 1 (narrow_to 0xCCCCCCCC 2 (narrow_to 0xF0F0F0F0 4
                 (narrow_to 0xFF00FF00 8 (narrow_to 0xFFFF0000 16 (bits, 0)))))))"

definition bottom_bit :: "u32 \<Rightarrow> int" where
  "bottom_bit bits =
     (if bits = 0 then -1
      else snd (narrow_to 0x55555555 (-1) (narrow_to 0x33333333 (-2) (narrow_to 0x0F0F0F0F (-4)
                 (narrow_to 0x00FF00FF (-8) (narrow_to 0x0000FFFF (-16) (bits, 32)))))))"

text \<open>
  The same on x86: \<^verbatim>\<open>bsr\<close> and \<^verbatim>\<open>bsf\<close> give the index of the highest and of the lowest set bit, and leave the
  destination, which was loaded with -1, as it is when there is none.
\<close>

definition set_bits_of :: "u32 \<Rightarrow> nat list" where
  "set_bits_of bits = [i \<leftarrow> [0..<32]. bit bits i]"

definition top_bit_x86 :: "u32 \<Rightarrow> int" where
  "top_bit_x86 bits = (if set_bits_of bits = [] then -1 else int (last (set_bits_of bits)))"

definition bottom_bit_x86 :: "u32 \<Rightarrow> int" where
  "bottom_bit_x86 bits = (if set_bits_of bits = [] then -1 else int (hd (set_bits_of bits)))"

definition ULAW_BIAS :: int where "ULAW_BIAS = 0x84"

definition linear_to_ulaw :: "int \<Rightarrow> u8" where
  "linear_to_ulaw linear =
     (let (linear, m) = (if linear < 0 then (ULAW_BIAS - linear, 0x7F) else (ULAW_BIAS + linear, 0xFF));
          seg = top_bit (word_of_int (linear OR 0xFF)) - 7
      in if 8 \<le> seg then word_of_int (0x7F XOR m)
         else word_of_int ((push_bit 4 seg OR (drop_bit (nat (seg + 3)) linear AND 0xF)) XOR m))"

definition ulaw_to_linear :: "u8 \<Rightarrow> int" where
  "ulaw_to_linear ulaw =
     (let ulaw = uint (NOT ulaw);
          t = push_bit (nat (drop_bit 4 (ulaw AND 0x70))) (push_bit 3 (ulaw AND 0x0F) + ULAW_BIAS)
      in signed_take_bit 15 (if ulaw AND 0x80 \<noteq> 0 then ULAW_BIAS - t else t - ULAW_BIAS))"

definition ALAW_AMI_MASK :: int where "ALAW_AMI_MASK = 0x55"

definition linear_to_alaw :: "int \<Rightarrow> u8" where
  "linear_to_alaw linear =
     (let (linear, m) = (if 0 \<le> linear then (linear, ALAW_AMI_MASK OR 0x80) else (- linear - 8, ALAW_AMI_MASK));
          seg = top_bit (word_of_int (linear OR 0xFF)) - 7
      in if 8 \<le> seg then (if 0 \<le> linear then word_of_int (0x7F XOR m) else word_of_int (0x00 XOR m))
         else word_of_int ((push_bit 4 seg OR
                (drop_bit (if seg \<noteq> 0 then nat (seg + 3) else 4) linear AND 0x0F)) XOR m))"

definition alaw_to_linear :: "u8 \<Rightarrow> int" where
  "alaw_to_linear alaw =
     (let alaw = uint alaw XOR ALAW_AMI_MASK;
          i = push_bit 4 (alaw AND 0x0F);
          seg = drop_bit 4 (alaw AND 0x70);
          i = (if seg \<noteq> 0 then push_bit (nat (seg - 1)) (i + 0x108) else i + 8)
      in signed_take_bit 15 (if alaw AND 0x80 \<noteq> 0 then i else - i))"

definition ulaw_to_alaw_table :: "u8 list" where
  "ulaw_to_alaw_table =
    [42, 43, 40, 41, 46, 47, 44, 45, 34, 35, 32, 33, 38, 39, 36, 37,
     58, 59, 56, 57, 62, 63, 60, 61, 50, 51, 48, 49, 54, 55, 52, 53,
     10, 11, 8, 9, 14, 15, 12, 13, 2, 3, 0, 1, 6, 7, 4, 26,
     27, 24, 25, 30, 31, 28, 29, 18, 19, 16, 17, 22, 23, 20, 21, 106,
     104, 105, 110, 111, 108, 109, 98, 99, 96, 97, 102, 103, 100, 101, 122, 120,
     126, 127, 124, 125, 114, 115, 112, 113, 118, 119, 116, 117, 75, 73, 79, 77,
     66, 67, 64, 65, 70, 71, 68, 69, 90, 91, 88, 89, 94, 95, 92, 93,
     82, 82, 83, 83, 80, 80, 81, 81, 86, 86, 87, 87, 84, 84, 85, 85,
     170, 171, 168, 169, 174, 175, 172, 173, 162, 163, 160, 161, 166, 167, 164, 165,
     186, 187, 184, 185, 190, 191, 188, 189, 178, 179, 176, 177, 182, 183, 180, 181,
     138, 139, 136, 137, 142, 143, 140, 141, 130, 131, 128, 129, 134, 135, 132, 154,
     155, 152, 153, 158, 159, 156, 157, 146, 147, 144, 145, 150, 151, 148, 149, 234,
     232, 233, 238, 239, 236, 237, 226, 227, 224, 225, 230, 231, 228, 229, 250, 248,
     254, 255, 252, 253, 242, 243, 240, 241, 246, 247, 244, 245, 203, 201, 207, 205,
     194, 195, 192, 193, 198, 199, 196, 197, 218, 219, 216, 217, 222, 223, 220, 221,
     210, 210, 211, 211, 208, 208, 209, 209, 214, 214, 215, 215, 212, 212, 213, 213]"

definition alaw_to_ulaw_table :: "u8 list" where
  "alaw_to_ulaw_table =
    [42, 43, 40, 41, 46, 47, 44, 45, 34, 35, 32, 33, 38, 39, 36, 37,
     57, 58, 55, 56, 61, 62, 59, 60, 49, 50, 47, 48, 53, 54, 51, 52,
     10, 11, 8, 9, 14, 15, 12, 13, 2, 3, 0, 1, 6, 7, 4, 5,
     26, 27, 24, 25, 30, 31, 28, 29, 18, 19, 16, 17, 22, 23, 20, 21,
     98, 99, 96, 97, 102, 103, 100, 101, 93, 93, 92, 92, 95, 95, 94, 94,
     116, 118, 112, 114, 124, 126, 120, 122, 106, 107, 104, 105, 110, 111, 108, 109,
     72, 73, 70, 71, 76, 77, 74, 75, 64, 65, 63, 63, 68, 69, 66, 67,
     86, 87, 84, 85, 90, 91, 88, 89, 79, 79, 78, 78, 82, 83, 80, 81,
     170, 171, 168, 169, 174, 175, 172, 173, 162, 163, 160, 161, 166, 167, 164, 165,
     185, 186, 183, 184, 189, 190, 187, 188, 177, 178, 175, 176, 181, 182, 179, 180,
     138, 139, 136, 137, 142, 143, 140, 141, 130, 131, 128, 129, 134, 135, 132, 133,
     154, 155, 152, 153, 158, 159, 156, 157, 146, 147, 144, 145, 150, 151, 148, 149,
     226, 227, 224, 225, 230, 231, 228, 229, 221, 221, 220, 220, 223, 223, 222, 222,
     244, 246, 240, 242, 252, 254, 248, 250, 234, 235, 232, 233, 238, 239, 236, 237,
     200, 201, 198, 199, 204, 205, 202, 203, 192, 193, 191, 191, 196, 197, 194, 195,
     214, 215, 212, 213, 218, 219, 216, 217, 207, 207, 206, 206, 210, 211, 208, 209]"

text \<open>A table has 256 entries, so that no byte is outside of it.\<close>

definition alaw_to_ulaw :: "u8 \<Rightarrow> u8" where
  "alaw_to_ulaw alaw = alaw_to_ulaw_table ! unat alaw"

definition ulaw_to_alaw :: "u8 \<Rightarrow> u8" where
  "ulaw_to_alaw ulaw = ulaw_to_alaw_table ! unat ulaw"

section \<open>The highest and the lowest bit\<close>

text \<open>
  After the step with the mask of width \<open>n\<close>, the bits left are those whose index agrees with the index looked for
  down to the bit of weight \<open>n\<close>, and the count holds that part of the index.
\<close>

definition narrowed :: "nat \<Rightarrow> nat \<Rightarrow> u32 \<Rightarrow> bool" where
  "narrowed n t bits \<longleftrightarrow> bit bits t \<and> (\<forall>j. bit bits j \<longrightarrow> j div n = t div n)"

definition mask_of :: "u32 \<Rightarrow> (nat \<Rightarrow> bool) \<Rightarrow> bool" where
  "mask_of m P \<longleftrightarrow> list_all (\<lambda>j. bit m j = P j) [0..<32]"

lemma mask_ofD: "mask_of m P \<Longrightarrow> bit (bits AND m) j \<longleftrightarrow> bit bits j \<and> P j" for bits :: u32
  using bit_imp_le_length [of bits j] by (auto simp: mask_of_def list_all_iff bit_and_iff)

lemma halves_eq: "a div 2 = b div 2 \<Longrightarrow> odd a = odd b \<Longrightarrow> a = b" for a b :: nat
proof -
  assume "a div 2 = b div 2" "odd a = odd b"
  then have "2 * (a div 2) + a mod 2 = 2 * (b div 2) + b mod 2" by (simp add: mod2_eq_if)
  then show "a = b" by (simp only: mult_div_mod_eq)
qed

lemma halves_less: "a div 2 = b div 2 \<Longrightarrow> odd a \<Longrightarrow> even b \<Longrightarrow> b < a" for a b :: nat
proof -
  assume "a div 2 = b div 2" "odd a" "even b"
  then have "2 * (b div 2) + b mod 2 < 2 * (a div 2) + a mod 2" by (simp add: mod2_eq_if)
  then show "b < a" by (simp only: mult_div_mod_eq)
qed

lemma same_half:
  fixes j t n :: nat
  assumes "j div (2 * n) = t div (2 * n)"
  shows "odd (j div n) = odd (t div n) \<Longrightarrow> j div n = t div n"
    and "odd (j div n) \<Longrightarrow> even (t div n) \<Longrightarrow> t div n < j div n"
proof -
  have half: "j div n div 2 = t div n div 2"
    using assms div_mult2_eq [of j n 2] div_mult2_eq [of t n 2] by (simp only: mult.commute [of n 2])
  show "j div n = t div n" if "odd (j div n) = odd (t div n)" by (rule halves_eq [OF half that])
  show "t div n < j div n" if "odd (j div n)" "even (t div n)" by (rule halves_less [OF half that])
qed

lemma narrowedI: "bit bits t \<Longrightarrow> (\<And>j. bit bits j \<Longrightarrow> j div n = t div n) \<Longrightarrow> narrowed n t bits"
  unfolding narrowed_def by blast

lemma narrowedD: "narrowed n t bits \<Longrightarrow> bit bits j \<Longrightarrow> j div n = t div n"
  unfolding narrowed_def by blast

lemma narrowed_bit: "narrowed n t bits \<Longrightarrow> bit bits t"
  unfolding narrowed_def by blast

lemma bit_nonzero: "bit w t \<Longrightarrow> w \<noteq> 0" for w :: u32
  by auto

lemma no_bits: "(\<And>j. \<not> bit w j) \<Longrightarrow> w = 0" for w :: u32
  by (rule bit_eqI) simp

lemma narrow_keeps:
  assumes narrow: "narrowed (2 * n) t bits" and mask: "mask_of m P"
    and half: "\<And>j. P j \<longleftrightarrow> odd (j div n) = b" and first: "\<And>j. bit bits j \<Longrightarrow> P j \<Longrightarrow> P t"
  shows "narrowed n t (fst (narrow_to m d (bits, i)))
         \<and> snd (narrow_to m d (bits, i)) = i + (if P t then d else 0)
         \<and> (\<forall>j. bit (fst (narrow_to m d (bits, i))) j \<longrightarrow> bit bits j)"
proof (cases "P t")
  case True
  have hit: "bit (bits AND m) t" using narrowed_bit [OF narrow] True by (simp add: mask_ofD [OF mask])
  then have "bits AND m \<noteq> 0" by (rule bit_nonzero)
  moreover have "narrowed n t (bits AND m)"
  proof (rule narrowedI [OF hit])
    fix j assume "bit (bits AND m) j"
    then have "bit bits j" "P j" by (simp_all add: mask_ofD [OF mask])
    then have "odd (j div n) = odd (t div n)" using half [of j] half [of t] True by simp
    then show "j div n = t div n" by (rule same_half(1) [OF narrowedD [OF narrow \<open>bit bits j\<close>]])
  qed
  ultimately show ?thesis using True by (simp add: narrow_to_def mask_ofD [OF mask])
next
  case False
  then have "\<not> bit (bits AND m) j" for j using first [of j] by (auto simp: mask_ofD [OF mask])
  then have "bits AND m = 0" by (rule no_bits)
  moreover have "narrowed n t bits"
  proof (rule narrowedI [OF narrowed_bit [OF narrow]])
    fix j assume "bit bits j"
    then have "odd (j div n) = odd (t div n)" using half [of j] half [of t] False first [of j] by auto
    then show "j div n = t div n" by (rule same_half(1) [OF narrowedD [OF narrow \<open>bit bits j\<close>]])
  qed
  ultimately show ?thesis using False by (simp add: narrow_to_def)
qed

text \<open>The search upwards keeps the highest bit, the search downwards the lowest.\<close>

definition at_top :: "nat \<Rightarrow> nat \<Rightarrow> u32 \<times> int \<Rightarrow> bool" where
  "at_top n t s \<longleftrightarrow> narrowed n t (fst s) \<and> (\<forall>j. bit (fst s) j \<longrightarrow> j \<le> t)"

definition at_bottom :: "nat \<Rightarrow> nat \<Rightarrow> u32 \<times> int \<Rightarrow> bool" where
  "at_bottom n t s \<longleftrightarrow> narrowed n t (fst s) \<and> (\<forall>j. bit (fst s) j \<longrightarrow> t \<le> j)"

lemma top_narrow:
  assumes top: "at_top (2 * n) t s" and mask: "mask_of m (\<lambda>j. odd (j div n))"
  shows "at_top n t (narrow_to m d s) \<and> snd (narrow_to m d s) = snd s + (if odd (t div n) then d else 0)"
proof -
  have narrow: "narrowed (2 * n) t (fst s)" and le: "bit (fst s) j \<Longrightarrow> j \<le> t" for j
    using top unfolding at_top_def by blast+
  have "odd (t div n)" if "bit (fst s) j" "odd (j div n)" for j
  proof (rule ccontr)
    assume "\<not> odd (t div n)"
    then have "t div n < j div n" using same_half(2) [OF narrowedD [OF narrow that(1)] that(2)] by blast
    then show False using le [OF that(1)] div_le_mono [of j t n] by simp
  qed
  note kept = narrow_keeps [where P = "\<lambda>j. odd (j div n)" and b = True and d = d and i = "snd s",
      OF narrow mask _ this, unfolded prod.collapse]
  have "odd (j div n) \<longleftrightarrow> odd (j div n) = True" for j by blast
  note kept = kept [OF this]
  have "at_top n t (narrow_to m d s)"
    unfolding at_top_def using conjunct1 [OF kept] le conjunct2 [OF conjunct2 [OF kept]] by fast
  then show ?thesis using conjunct1 [OF conjunct2 [OF kept]] by (rule conjI)
qed

lemma bottom_narrow:
  assumes bottom: "at_bottom (2 * n) t s" and mask: "mask_of m (\<lambda>j. even (j div n))"
  shows "at_bottom n t (narrow_to m d s) \<and> snd (narrow_to m d s) = snd s + (if even (t div n) then d else 0)"
proof -
  have narrow: "narrowed (2 * n) t (fst s)" and le: "bit (fst s) j \<Longrightarrow> t \<le> j" for j
    using bottom unfolding at_bottom_def by blast+
  have "even (t div n)" if "bit (fst s) j" "even (j div n)" for j
  proof (rule ccontr)
    assume "odd (t div n)"
    then have "j div n < t div n" using same_half(2) [OF narrowedD [OF narrow that(1), symmetric]] that(2) by blast
    then show False using le [OF that(1)] div_le_mono [of t j n] by simp
  qed
  note kept = narrow_keeps [where P = "\<lambda>j. even (j div n)" and b = False and d = d and i = "snd s",
      OF narrow mask _ this, unfolded prod.collapse]
  have "even (j div n) \<longleftrightarrow> odd (j div n) = False" for j by blast
  note kept = kept [OF this]
  have "at_bottom n t (narrow_to m d s)"
    unfolding at_bottom_def using conjunct1 [OF kept] le conjunct2 [OF conjunct2 [OF kept]] by fast
  then show ?thesis using conjunct1 [OF conjunct2 [OF kept]] by (rule conjI)
qed

lemma top_masks:
  "mask_of 0xFFFF0000 (\<lambda>j. odd (j div 16))" "mask_of 0xFF00FF00 (\<lambda>j. odd (j div 8))"
  "mask_of 0xF0F0F0F0 (\<lambda>j. odd (j div 4))" "mask_of 0xCCCCCCCC (\<lambda>j. odd (j div 2))"
  "mask_of 0xAAAAAAAA (\<lambda>j. odd (j div 1))"
  by code_simp+

lemma bottom_masks:
  "mask_of 0x0000FFFF (\<lambda>j. even (j div 16))" "mask_of 0x00FF00FF (\<lambda>j. even (j div 8))"
  "mask_of 0x0F0F0F0F (\<lambda>j. even (j div 4))" "mask_of 0x33333333 (\<lambda>j. even (j div 2))"
  "mask_of 0x55555555 (\<lambda>j. even (j div 1))"
  by code_simp+

text \<open>The index as the sum of its binary digits, counted upwards from 0 and downwards from 32.\<close>

definition digits_up :: "nat \<Rightarrow> int" where
  "digits_up t = 0 + (if odd (t div 16) then 16 else 0) + (if odd (t div 8) then 8 else 0)
     + (if odd (t div 4) then 4 else 0) + (if odd (t div 2) then 2 else 0) + (if odd (t div 1) then 1 else 0)"

definition digits_down :: "nat \<Rightarrow> int" where
  "digits_down t = 32 + (if even (t div 16) then -16 else 0) + (if even (t div 8) then -8 else 0)
     + (if even (t div 4) then -4 else 0) + (if even (t div 2) then -2 else 0) + (if even (t div 1) then -1 else 0)"

lemma index_digits: "list_all (\<lambda>t. digits_up t = int t \<and> digits_down t = int t + 1) [0..<32]"
  by code_simp

lemma bit_index: "bit w t \<Longrightarrow> t \<in> set [0..<32]" for w :: u32
  using bit_imp_le_length [of w t] by simp

lemma narrowed_start: "bit w t \<Longrightarrow> narrowed 32 t w" for w :: u32
  using bit_imp_le_length [of w] by (intro narrowedI) (auto simp: div_less)

lemma top_bit_at:
  assumes "bit w t" and "\<And>j. bit w j \<Longrightarrow> j \<le> t"
  shows "top_bit w = int t"
proof -
  define s4 where "s4 = narrow_to 0xFFFF0000 16 (w, 0)"
  define s3 where "s3 = narrow_to 0xFF00FF00 8 s4"
  define s2 where "s2 = narrow_to 0xF0F0F0F0 4 s3"
  define s1 where "s1 = narrow_to 0xCCCCCCCC 2 s2"
  define s0 where "s0 = narrow_to 0xAAAAAAAA 1 s1"
  have "at_top 32 t (w, 0)" using assms narrowed_start [of w t] unfolding at_top_def by simp
  note t4 = top_narrow [where n = 16 and d = 16 and s = "(w, 0)" and t = t, simplified, OF this top_masks(1), folded s4_def]
  note t3 = top_narrow [where n = 8 and d = 8, simplified, OF conjunct1 [OF t4] top_masks(2), folded s3_def]
  note t2 = top_narrow [where n = 4 and d = 4, simplified, OF conjunct1 [OF t3] top_masks(3), folded s2_def]
  note t1 = top_narrow [where n = 2 and d = 2, simplified, OF conjunct1 [OF t2] top_masks(4), folded s1_def]
  note t0 = top_narrow [where n = 1 and d = 1, OF _ top_masks(5), simplified, OF conjunct1 [OF t1], folded s0_def]
  have "snd s0 = digits_up t" using t0 t1 t2 t3 t4 unfolding digits_up_def by simp
  also have "\<dots> = int t" using index_digits bit_index [OF assms(1)] unfolding list_all_iff by blast
  finally show ?thesis using bit_nonzero [OF assms(1)] unfolding top_bit_def s0_def s1_def s2_def s3_def s4_def by simp
qed

text \<open>In the search downwards the count starts one too high.\<close>

lemma bottom_bit_at:
  assumes "bit w t" and "\<And>j. bit w j \<Longrightarrow> t \<le> j"
  shows "bottom_bit w = int t + 1"
proof -
  define s4 where "s4 = narrow_to 0x0000FFFF (-16) (w, 32)"
  define s3 where "s3 = narrow_to 0x00FF00FF (-8) s4"
  define s2 where "s2 = narrow_to 0x0F0F0F0F (-4) s3"
  define s1 where "s1 = narrow_to 0x33333333 (-2) s2"
  define s0 where "s0 = narrow_to 0x55555555 (-1) s1"
  have "at_bottom 32 t (w, 32)" using assms narrowed_start [of w t] unfolding at_bottom_def by simp
  note t4 = bottom_narrow [where n = 16 and d = "-16" and s = "(w, 32)" and t = t, simplified, OF this bottom_masks(1), folded s4_def]
  note t3 = bottom_narrow [where n = 8 and d = "-8", simplified, OF conjunct1 [OF t4] bottom_masks(2), folded s3_def]
  note t2 = bottom_narrow [where n = 4 and d = "-4", simplified, OF conjunct1 [OF t3] bottom_masks(3), folded s2_def]
  note t1 = bottom_narrow [where n = 2 and d = "-2", simplified, OF conjunct1 [OF t2] bottom_masks(4), folded s1_def]
  note t0 = bottom_narrow [where n = 1 and d = "-1", OF _ bottom_masks(5), simplified, OF conjunct1 [OF t1], folded s0_def]
  have "snd s0 = digits_down t" using t0 t1 t2 t3 t4 unfolding digits_down_def by simp
  also have "\<dots> = int t + 1" using index_digits bit_index [OF assms(1)] unfolding list_all_iff by blast
  finally show ?thesis
    using bit_nonzero [OF assms(1)] unfolding bottom_bit_def s0_def s1_def s2_def s3_def s4_def by simp
qed

lemma set_bits_iff: "set (set_bits_of w) = {j. bit w j}"
  using bit_imp_le_length [of w] by (auto simp: set_bits_of_def)

lemma sorted_set_bits: "sorted (set_bits_of w)"
  by (simp add: set_bits_of_def sorted_wrt_filter)

lemma set_bits_empty: "set_bits_of w = [] \<longleftrightarrow> w = 0"
  using set_bits_iff [of w] no_bits [of w] bit_nonzero [of w] by fastforce

lemma sorted_last: "sorted xs \<Longrightarrow> x \<in> set xs \<Longrightarrow> x \<le> last xs"
  by (induction xs) auto

lemma sorted_hd: "sorted xs \<Longrightarrow> x \<in> set xs \<Longrightarrow> hd xs \<le> x"
  by (cases xs) auto

lemma bit_searches:
  "top_bit w = top_bit_x86 w"
  "w \<noteq> 0 \<Longrightarrow> bottom_bit w = bottom_bit_x86 w + 1"
proof -
  have last: "bit w (last (set_bits_of w))" and hd: "bit w (hd (set_bits_of w))" if "w \<noteq> 0"
    using that last_in_set [of "set_bits_of w"] hd_in_set [of "set_bits_of w"] set_bits_iff [of w] set_bits_empty [of w] by auto
  have "j \<le> last (set_bits_of w)" "hd (set_bits_of w) \<le> j" if "bit w j" for j
    using that sorted_last [OF sorted_set_bits, of j] sorted_hd [OF sorted_set_bits, of j] set_bits_iff [of w] by auto
  note ends = this
  show "top_bit w = top_bit_x86 w"
  proof (cases "w = 0")
    case True then show ?thesis using set_bits_empty [of w] by (simp add: top_bit_def top_bit_x86_def)
  next
    case False then show ?thesis
      using top_bit_at [OF last ends(1)] set_bits_empty [of w] by (simp add: top_bit_x86_def)
  qed
  show "bottom_bit w = bottom_bit_x86 w + 1" if "w \<noteq> 0"
    using bottom_bit_at [OF hd [OF that] ends(2)] that set_bits_empty [of w] by (simp add: bottom_bit_x86_def)
qed

lemma top_bit_range:
  assumes "2 ^ k \<le> v" and "v < 2 ^ Suc k" and "k < 32"
  shows "top_bit (word_of_int v) = int k"
proof (rule top_bit_at)
  have "0 \<le> v" using assms(1) zero_le_power [of "2 :: int" k] by linarith
  have "v div 2 ^ k = 1" using assms(1,2) by (intro int_div_pos_eq [of _ _ _ "v - 2 ^ k"]) auto
  then show "bit (word_of_int v :: u32) k" using assms(3) by (simp add: bit_word_of_int_iff bit_iff_odd [of v])
  show "j \<le> k" if "bit (word_of_int v :: u32) j" for j
  proof (rule ccontr)
    assume "\<not> j \<le> k"
    then have "(2 :: int) ^ Suc k \<le> 2 ^ j" by (intro power_increasing) auto
    then have "v div 2 ^ j = 0" using assms(2) \<open>0 \<le> v\<close> by (intro div_pos_pos_trivial) auto
    then show False using that by (simp add: bit_word_of_int_iff bit_iff_odd [of v])
  qed
qed

text \<open>The segment of a magnitude is its position among the powers of two, the first two of them together.\<close>

lemma segment:
  assumes "0 \<le> l" "l < 2 ^ (s + 8)" "s = 0 \<or> 2 ^ (s + 7) \<le> l" "s < 24"
  shows "top_bit (word_of_int (l OR 0xFF)) - 7 = int s"
proof -
  have up: "l \<le> l OR 0xFF" "0xFF \<le> l OR 0xFF"
    using or_greater_eq [of 255 l] or_greater_eq [of l 255] assms(1) by (simp_all add: or.commute)
  have "(2 :: int) ^ 8 \<le> 2 ^ (s + 8)" by (intro power_increasing) auto
  then have "l OR 0xFF < 2 ^ Suc (s + 7)" using OR_upper [of l "s + 8" 255] assms(1,2) by (simp add: add.commute)
  moreover have "2 ^ (s + 7) \<le> l OR 0xFF" using up assms(3) by auto
  ultimately have "top_bit (word_of_int (l OR 0xFF)) = int (s + 7)" using assms(4) by (intro top_bit_range) auto
  then show ?thesis by simp
qed

section \<open>What is decoded from a code\<close>

text \<open>A code made of a segment, the four bits of the interval in it, and the mask that carries the sign.\<close>

definition code_word :: "int \<Rightarrow> int \<Rightarrow> int \<Rightarrow> u8" where
  "code_word s m sign = word_of_int ((push_bit 4 s OR m) XOR sign)"

lemma ulaw_decode_all:
  "list_all (\<lambda>s. list_all (\<lambda>m.
     ulaw_to_linear (code_word s m 0xFF) = (8 * m + 132) * 2 ^ nat s - 132
     \<and> ulaw_to_linear (code_word s m 0x7F) = 132 - (8 * m + 132) * 2 ^ nat s) [0..15]) [0..7]"
  by code_simp

lemma alaw_decode_all:
  "list_all (\<lambda>s. list_all (\<lambda>m. \<forall>mid \<in> {if s = 0 then 16 * m + 8 else (16 * m + 264) * 2 ^ nat (s - 1)}.
     alaw_to_linear (code_word s m 0xD5) = mid \<and> alaw_to_linear (code_word s m 0x55) = - mid) [0..15]) [0..7]"
  by code_simp

section \<open>How far a sample moves\<close>

lemma segment_exists: "l < 2 ^ (n + 8) \<Longrightarrow> \<exists>s \<le> n. l < 2 ^ (s + 8) \<and> (s = 0 \<or> 2 ^ (s + 7) \<le> l)" for l :: int
proof (induction n)
  case (Suc n)
  show ?case
  proof (cases "l < 2 ^ (n + 8)")
    case True
    then show ?thesis using Suc.IH le_Suc_eq by blast
  next
    case False
    then show ?thesis using Suc.prems by (intro exI [of _ "Suc n"]) (simp add: add.commute)
  qed
qed simp

lemma div_below: "0 < p \<Longrightarrow> l < n * p \<Longrightarrow> l div p < n" for l n p :: int
proof -
  assume "0 < p" "l < n * p"
  then have "l div p * p < n * p" using div_mult_mod_eq [of l p] pos_mod_sign [of p l] by linarith
  then show "l div p < n" using \<open>0 < p\<close> by simp
qed

lemma mantissa:
  assumes "2 ^ (s + 7) \<le> l" "l < 2 ^ (s + 8)"
  shows "drop_bit (s + 3) l AND 0xF = l div 2 ^ (s + 3) - 16" "l div 2 ^ (s + 3) - 16 \<in> set [0..15]"
proof -
  have "16 * 2 ^ (s + 3) \<le> l" "l < 32 * 2 ^ (s + 3)" using assms by (simp_all add: power_add)
  then have q: "16 \<le> l div 2 ^ (s + 3)" "l div 2 ^ (s + 3) < 32"
    using zdiv_mono1 [of "16 * 2 ^ (s + 3)" l "2 ^ (s + 3)"] div_below [of "2 ^ (s + 3)" l 32] by simp_all
  then show "l div 2 ^ (s + 3) - 16 \<in> set [0..15]" by simp
  have "drop_bit (s + 3) l AND 0xF = (l div 2 ^ (s + 3)) mod 16"
    using take_bit_eq_mask [of 4 "drop_bit (s + 3) l"] by (simp add: mask_eq_exp_minus_1 take_bit_eq_mod drop_bit_eq_div)
  also have "\<dots> = l div 2 ^ (s + 3) - 16" using q by (intro int_mod_pos_eq [of _ _ 1]) auto
  finally show "drop_bit (s + 3) l AND 0xF = l div 2 ^ (s + 3) - 16" .
qed

lemma midpoint: "0 < p \<Longrightarrow> \<bar>(l div (2 * p)) * (2 * p) + p - l\<bar> \<le> p" for l p :: int
proof -
  assume "0 < p"
  then have "l = (l div (2 * p)) * (2 * p) + l mod (2 * p)" "0 \<le> l mod (2 * p)" "l mod (2 * p) < 2 * p"
    by (simp_all only: div_mult_mod_eq) simp_all
  then show ?thesis by linarith
qed

lemma times_le: "a \<le> p \<Longrightarrow> 32 * p \<le> l \<Longrightarrow> 32 * a \<le> l" for a p l :: int
  by linarith

lemma ulaw_biased:
  "(if x < 0 then (ULAW_BIAS - x, 0x7F) else (ULAW_BIAS + x, 0xFF)) =
   (\<bar>x\<bar> + 132, if x < 0 then 0x7F else 0xFF)"
  by (simp add: ULAW_BIAS_def)

lemma ulaw_encode:
  assumes "l = \<bar>x\<bar> + 132" "2 ^ (s + 7) \<le> l" "l < 2 ^ (s + 8)" "s < 8"
  shows "linear_to_ulaw x = code_word (int s) (l div 2 ^ (s + 3) - 16) (if x < 0 then 0x7F else 0xFF)"
proof -
  have seg: "top_bit (word_of_int (l OR 0xFF)) - 7 = int s" using assms by (intro segment) auto
  note biased = ulaw_biased [of x, folded assms(1)]
  have "linear_to_ulaw x = word_of_int ((push_bit 4 (int s) OR (drop_bit (s + 3) l AND 0xF)) XOR (if x < 0 then 0x7F else 0xFF))"
    using assms(4) unfolding linear_to_ulaw_def Let_def biased prod.case seg by (simp add: nat_add_distrib)
  then show ?thesis using mantissa(1) [OF assms(2,3)] by (simp add: code_word_def)
qed

lemma ulaw_decode:
  assumes "s < 8" "m \<in> set [0..15]"
  shows "ulaw_to_linear (code_word (int s) m (if neg then 0x7F else 0xFF)) =
         (if neg then 132 - (8 * m + 132) * 2 ^ s else (8 * m + 132) * 2 ^ s - 132)"
proof -
  have "int s \<in> set [0..7]" using assms(1) by simp
  from bspec [OF bspec [OF ulaw_decode_all [unfolded list_all_iff] this] assms(2)] show ?thesis by (cases neg) simp_all
qed

lemma ulaw_moves:
  assumes "l = \<bar>x\<bar> + 132" "2 ^ (s + 7) \<le> l" "l < 2 ^ (s + 8)" "s < 8"
  shows "32 * \<bar>ulaw_to_linear (linear_to_ulaw x) - x\<bar> \<le> \<bar>x\<bar> + 132"
proof -
  let ?q = "l div (2 * 2 ^ (s + 2))"
  have q: "2 ^ (s + 3) = 2 * (2 :: int) ^ (s + 2)" by (simp add: power_add)
  have d: "\<bar>?q * (2 * 2 ^ (s + 2)) + 2 ^ (s + 2) - l\<bar> \<le> 2 ^ (s + 2)" by (rule midpoint) simp
  have m: "(8 * (?q - 16) + 132) * 2 ^ s = ?q * (2 * 2 ^ (s + 2)) + 2 ^ (s + 2)" by (simp add: power_add algebra_simps)
  have "32 * 2 ^ (s + 2) \<le> l" using assms(2) by (simp add: power_add)
  moreover have "\<bar>ulaw_to_linear (linear_to_ulaw x) - x\<bar> = \<bar>(8 * (?q - 16) + 132) * 2 ^ s - l\<bar>"
    using ulaw_decode [OF assms(4) mantissa(2) [OF assms(2,3)], of "x < 0"] ulaw_encode [OF assms] assms(1)
    unfolding q by (cases "x < 0") auto
  then have "\<bar>ulaw_to_linear (linear_to_ulaw x) - x\<bar> \<le> 2 ^ (s + 2)" using d by (simp only: m)
  ultimately have "32 * \<bar>ulaw_to_linear (linear_to_ulaw x) - x\<bar> \<le> l" by (rule times_le [rotated])
  then show ?thesis using assms(1) by simp
qed

lemma ulaw_clips:
  assumes "32768 \<le> \<bar>x\<bar> + 132" "\<bar>x\<bar> \<le> 32768"
  shows "ulaw_to_linear (linear_to_ulaw x) = (if x < 0 then -32124 else 32124)"
proof -
  have seg: "top_bit (word_of_int ((\<bar>x\<bar> + 132) OR 0xFF)) - 7 = int 8" using assms by (intro segment) auto
  have "linear_to_ulaw x = (if x < 0 then 0 else 0x80)"
    unfolding linear_to_ulaw_def Let_def ulaw_biased prod.case seg by simp
  moreover have "ulaw_to_linear 0 = -32124" "ulaw_to_linear 0x80 = 32124" by code_simp+
  ultimately show ?thesis by simp
qed

lemma ulaw_quantised:
  assumes "\<bar>x\<bar> \<le> 32768"
  shows "32 * \<bar>ulaw_to_linear (linear_to_ulaw x) - x\<bar> \<le> \<bar>x\<bar> + 132"
proof (cases "\<bar>x\<bar> + 132 < 32768")
  case True
  then obtain s where "s \<le> 7" "\<bar>x\<bar> + 132 < 2 ^ (s + 8)" "s = 0 \<or> 2 ^ (s + 7) \<le> \<bar>x\<bar> + 132"
    using segment_exists [of "\<bar>x\<bar> + 132" 7] by auto
  then show ?thesis by (intro ulaw_moves [OF refl, of s]) auto
next
  case False
  then show ?thesis using assms ulaw_clips [of x] by (auto split: if_splits)
qed

lemma alaw_encode:
  assumes "l = (if 0 \<le> x then x else - x - 8)" "0 \<le> l" "l < 2 ^ (s + 8)" "s = 0 \<or> 2 ^ (s + 7) \<le> l" "s < 8"
  shows "linear_to_alaw x = code_word (int s) (drop_bit (if s = 0 then 4 else s + 3) l AND 0xF) (if 0 \<le> x then 0xD5 else 0x55)"
proof -
  have pair: "(if 0 \<le> x then (x, ALAW_AMI_MASK OR 0x80) else (- x - 8, ALAW_AMI_MASK)) = (l, if 0 \<le> x then 0xD5 else 0x55)"
    using assms(1) by (simp add: ALAW_AMI_MASK_def)
  have seg: "top_bit (word_of_int (l OR 0xFF)) - 7 = int s" using assms by (intro segment) auto
  show ?thesis using assms(5)
    unfolding linear_to_alaw_def Let_def pair prod.case seg code_word_def by (simp add: nat_add_distrib)
qed

lemma alaw_decode:
  assumes "s < 8" "m \<in> set [0..15]"
  shows "alaw_to_linear (code_word (int s) m (if pos then 0xD5 else 0x55)) =
         (if pos then 1 else -1) * (if s = 0 then 16 * m + 8 else (16 * m + 264) * 2 ^ (s - 1))"
proof -
  have "int s \<in> set [0..7]" using assms(1) by simp
  from bspec [OF bspec [OF alaw_decode_all [unfolded list_all_iff] this] assms(2)] show ?thesis
    by (cases pos) (simp_all add: nat_diff_distrib)
qed

text \<open>Above the first segment the code stands for the middle of an interval of 1/16 of the power of two below.\<close>

lemma alaw_middle:
  fixes l :: int
  assumes "s \<noteq> 0" "2 ^ (s + 7) \<le> l"
  shows "32 * \<bar>(16 * (l div 2 ^ (s + 3) - 16) + 264) * 2 ^ (s - 1) - l\<bar> \<le> l"
proof -
  obtain r where r: "s = Suc r" using assms(1) by (cases s) auto
  let ?q = "l div (2 * 2 ^ (s + 2))"
  have q: "2 ^ (s + 3) = 2 * (2 :: int) ^ (s + 2)" by (simp add: power_add)
  have "\<bar>?q * (2 * 2 ^ (s + 2)) + 2 ^ (s + 2) - l\<bar> \<le> 2 ^ (s + 2)" by (rule midpoint) simp
  moreover have "(16 * (?q - 16) + 264) * 2 ^ (s - 1) = ?q * (2 * 2 ^ (s + 2)) + 2 ^ (s + 2)"
    by (simp add: r power_add algebra_simps)
  ultimately have "\<bar>(16 * (?q - 16) + 264) * 2 ^ (s - 1) - l\<bar> \<le> 2 ^ (s + 2)" by (simp only:)
  moreover have "32 * 2 ^ (s + 2) \<le> l" using assms(2) by (simp add: power_add)
  ultimately show ?thesis unfolding q by (rule times_le)
qed

lemma alaw_moves:
  assumes "l = (if 0 \<le> x then x else - x - 8)" "0 \<le> l" "l < 32768"
  shows "\<exists>mid. alaw_to_linear (linear_to_alaw x) = (if 0 \<le> x then mid else - mid) \<and> 32 * \<bar>mid - l\<bar> \<le> max 256 l"
proof -
  obtain s where "s \<le> 7" and s': "l < 2 ^ (s + 8)" "s = 0 \<or> 2 ^ (s + 7) \<le> l"
    using segment_exists [of l 7] assms(3) by auto
  then have s: "s < 8" "l < 2 ^ (s + 8)" "s = 0 \<or> 2 ^ (s + 7) \<le> l" by simp_all
  note code = alaw_encode [OF assms(1,2) s(2,3,1)]
  show ?thesis
  proof (cases "s = 0")
    case True
    have nibble: "drop_bit 4 l AND 0xF = l div (2 * 8)" and "l div (2 * 8) \<in> set [0..15]"
      using s True assms(2) take_bit_eq_mask [of 4 "drop_bit 4 l"] div_below [of 16 l 16]
      by (simp_all add: mask_eq_exp_minus_1 take_bit_eq_mod drop_bit_eq_div)
    then have "alaw_to_linear (linear_to_alaw x) = (if 0 \<le> x then 1 else -1) * (l div (2 * 8) * (2 * 8) + 8)"
      using alaw_decode [OF s(1), of "l div (2 * 8)" "0 \<le> x"] True code by (simp add: mult.commute)
    then show ?thesis using times_le [OF midpoint [of 8 l], of "max 256 l"]
      by (intro exI [of _ "l div (2 * 8) * (2 * 8) + 8"]) simp
  next
    case False
    then have low: "2 ^ (s + 7) \<le> l" using s(3) by simp
    have "alaw_to_linear (linear_to_alaw x) = (if 0 \<le> x then 1 else -1) * ((16 * (l div 2 ^ (s + 3) - 16) + 264) * 2 ^ (s - 1))"
      using alaw_decode [OF s(1) mantissa(2) [OF low s(2)], of "0 \<le> x"] mantissa(1) [OF low s(2)] False code by simp
    then show ?thesis using alaw_middle [OF False low]
      by (intro exI [of _ "(16 * (l div 2 ^ (s + 3) - 16) + 264) * 2 ^ (s - 1)"]) simp
  qed
qed

lemma alaw_tiny_all: "list_all (\<lambda>x. alaw_to_linear (linear_to_alaw x) = -8) [-7..-1]"
  by code_simp

lemma alaw_quantised_pos:
  assumes "0 \<le> x" "x \<le> 32767"
  shows "32 * \<bar>alaw_to_linear (linear_to_alaw x) - x\<bar> \<le> max 256 x"
  using alaw_moves [of x x] assms by auto

lemma alaw_quantised_neg:
  assumes "x < 0" "-32768 \<le> x"
  shows "32 * \<bar>alaw_to_linear (linear_to_alaw x) - x\<bar> \<le> 256 + max 256 \<bar>x\<bar>"
proof (cases "x \<le> -8")
  case True
  then obtain mid where mid: "alaw_to_linear (linear_to_alaw x) = - mid" "32 * \<bar>mid - (- x - 8)\<bar> \<le> max 256 (- x - 8)"
    using alaw_moves [of "- x - 8" x] assms by auto
  have "\<bar>- mid - x\<bar> \<le> \<bar>mid - (- x - 8)\<bar> + 8" by linarith
  then show ?thesis using mid assms(1) by (simp add: max_def split: if_splits)
next
  case False
  then have "x \<in> set [-7..-1]" using assms(1) by simp
  then have "alaw_to_linear (linear_to_alaw x) = -8" using alaw_tiny_all unfolding list_all_iff by blast
  then show ?thesis using False assms(1) by simp
qed

section \<open>Encoding undoes decoding\<close>

text \<open>Every byte is a code: the mask is the one of its sign, and what is left has a segment and an interval.\<close>

lemma code_word_split: "code_word (k div 16) (k mod 16) sign = word_of_int (k XOR sign)"
proof -
  have "push_bit 4 (drop_bit 4 k) OR take_bit 4 k = k" by (rule bit_eqI) (auto simp: bit_simps)
  then show ?thesis by (simp add: code_word_def drop_bit_eq_div take_bit_eq_mod)
qed

lemma magnitudes_all:
  "list_all (\<lambda>n. (let k = n XOR (if n < 128 then 0x7F else 0xFF) in 0 \<le> k \<and> k < 128)
               \<and> (let k = n XOR (if n < 128 then 0x55 else 0xD5) in 0 \<le> k \<and> k < 128)) [0..255 :: int]"
  by code_simp

lemma byte_code:
  fixes b :: u8
  assumes "(neg, pos) = (0x7F, 0xFF) \<or> (neg, pos) = (0x55, 0xD5)"
  obtains s m sign where "b = code_word (int s) m sign" "s < 8" "m \<in> set [0..15]" "sign = neg \<or> sign = pos"
proof -
  define sign where "sign = (if uint b < 128 then neg else pos)"
  define k where "k = uint b XOR sign"
  have "uint b \<in> set [0..255]" using unsigned_less [of b, where 'a = int] by simp
  from bspec [OF magnitudes_all [unfolded list_all_iff] this] have k: "0 \<le> k" "k < 128"
    using assms by (auto simp: k_def sign_def Let_def)
  have "b = code_word (k div 16) (k mod 16) sign" by (simp add: code_word_split k_def xor.assoc)
  moreover have "nat (k div 16) < 8" "int (nat (k div 16)) = k div 16" "k mod 16 \<in> set [0..15]"
    using k div_below [of 16 k 8] by simp_all
  ultimately show thesis using that [of "nat (k div 16)" "k mod 16" sign] by (simp add: sign_def)
qed

lemma ulaw_recode: "linear_to_ulaw (ulaw_to_linear b) = (if b = 0x7F then 0xFF else b)"
proof -
  obtain s m sign where b: "b = code_word (int s) m sign" "s < 8" "m \<in> set [0..15]" and "sign = 0x7F \<or> sign = 0xFF"
    by (rule byte_code [of "0x7F" "0xFF" b]) simp
  then have sign: "sign = (if sign = 0x7F then 0x7F else 0xFF)" by auto
  define l where "l = (8 * m + 132) * 2 ^ s"
  have m: "0 \<le> m" "m \<le> 15" using b(3) by simp_all
  have v: "ulaw_to_linear b = (if sign = 0x7F then 132 - l else l - 132)"
    using ulaw_decode [OF b(2,3), of "sign = 0x7F"] sign by (simp add: b(1) l_def)
  have "(128 :: int) * 2 ^ s \<le> l" "l < 256 * 2 ^ s" "132 \<le> l"
    unfolding l_def using m mult_mono [of 132 "8 * m + 132" 1 "2 ^ s :: int"] by (simp_all add: mult_right_mono)
  then have l: "l = \<bar>ulaw_to_linear b\<bar> + 132" "2 ^ (s + 7) \<le> l" "l < 2 ^ (s + 8)"
    using v by (simp_all add: power_add)
  have "l div 2 ^ (s + 3) = m + 16" unfolding l_def
    using m by (intro int_div_pos_eq [of _ _ _ "4 * 2 ^ s"]) (simp_all add: power_add algebra_simps)
  then have "linear_to_ulaw (ulaw_to_linear b) = code_word (int s) m (if ulaw_to_linear b < 0 then 0x7F else 0xFF)"
    using ulaw_encode [OF l b(2)] by simp
  then have code: "linear_to_ulaw (ulaw_to_linear b) = code_word (int s) m (if sign = 0x7F \<and> 132 < l then 0x7F else 0xFF)"
    using v \<open>132 \<le> l\<close> by auto
  show ?thesis
  proof (cases "b = 0x7F")
    case True
    have "linear_to_ulaw (ulaw_to_linear 0x7F) = 0xFF" by code_simp
    then show ?thesis using True by simp
  next
    case False
    have "132 < l" if "sign = 0x7F"
    proof (rule ccontr)
      assume "\<not> 132 < l"
      then have "l = 132" using \<open>132 \<le> l\<close> by simp
      have "s = 0" using \<open>l = 132\<close> l(2) power_increasing [of 8 "s + 7" "2 :: int"] by (cases s) simp_all
      then have "m = 0" using \<open>l = 132\<close> by (simp add: l_def)
      then show False using False b(1) that \<open>s = 0\<close> by (simp add: code_word_def)
    qed
    then show ?thesis using code sign False b(1) by auto
  qed
qed

lemma alaw_recode: "linear_to_alaw (alaw_to_linear b) = b"
proof -
  obtain s m sign where b: "b = code_word (int s) m sign" "s < 8" "m \<in> set [0..15]" and "sign = 0x55 \<or> sign = 0xD5"
    by (rule byte_code [of "0x55" "0xD5" b]) simp
  then have sign: "sign = (if sign = 0xD5 then 0xD5 else 0x55)" by auto
  have m: "0 \<le> m" "m \<le> 15" using b(3) by simp_all
  define mid where "mid = (if s = 0 then 16 * m + 8 else (16 * m + 264) * 2 ^ (s - 1))"
  define l where "l = (if sign = 0xD5 then mid else mid - 8)"
  have "8 \<le> mid" unfolding mid_def using m mult_mono [of 8 "16 * m + 264" 1 "2 ^ (s - 1) :: int"] by simp
  then have v: "alaw_to_linear b = (if sign = 0xD5 then mid else - mid)" and l0: "0 \<le> l"
    using alaw_decode [OF b(2,3), of "sign = 0xD5"] sign by (simp_all add: b(1) l_def mid_def)
  then have l: "l = (if 0 \<le> alaw_to_linear b then alaw_to_linear b else - alaw_to_linear b - 8)"
    and pos: "0 \<le> alaw_to_linear b \<longleftrightarrow> sign = 0xD5" using \<open>8 \<le> mid\<close> by (simp_all add: l_def)
  have "l < 2 ^ (s + 8) \<and> (s = 0 \<or> 2 ^ (s + 7) \<le> l) \<and> drop_bit (if s = 0 then 4 else s + 3) l AND 0xF = m"
  proof (cases s)
    case 0
    have "l div 16 = m" unfolding l_def mid_def using 0
      by (intro int_div_pos_eq [of _ _ _ "if sign = 0xD5 then 8 else 0"]) simp_all
    then show ?thesis using 0 m take_bit_eq_mask [of 4 "drop_bit 4 l"]
      by (simp add: mask_eq_exp_minus_1 take_bit_eq_mod drop_bit_eq_div l_def mid_def)
  next
    case (Suc r)
    define d :: int where "d = (if sign = 0xD5 then 0 else 8)"
    have d: "0 \<le> d" "d \<le> 8 * 2 ^ r" unfolding d_def using one_le_power [of "2 :: int" r] by simp_all
    have ll: "l = (16 * m + 264) * 2 ^ r - d" by (simp add: l_def mid_def d_def Suc)
    have "0 \<le> m * 2 ^ r" "m * 2 ^ r \<le> 15 * 2 ^ r" "0 < (2 :: int) ^ r" using m by (simp_all add: mult_right_mono)
    moreover have "l = 16 * (m * 2 ^ r) + 264 * 2 ^ r - d" by (simp add: ll algebra_simps)
    ultimately have "256 * 2 ^ r \<le> l" "l < 512 * 2 ^ r" using d by linarith+
    then have "2 ^ (s + 7) \<le> l" "l < 2 ^ (s + 8)" by (simp_all add: Suc power_add)
    moreover have "l div 2 ^ (s + 3) = m + 16" unfolding ll Suc
      using d add_nonneg_pos [of d "8 * 2 ^ r"] by (intro int_div_pos_eq [of _ _ _ "8 * 2 ^ r - d"]) (simp_all add: power_add algebra_simps)
    ultimately show ?thesis using mantissa(1) [of s l] Suc by simp
  qed
  then show ?thesis using alaw_encode [OF l l0, of s] b pos sign by auto
qed

lemma decoded_range:
  "-32768 \<le> ulaw_to_linear b" "ulaw_to_linear b < 32768" "-32768 \<le> alaw_to_linear b" "alaw_to_linear b < 32768"
  using signed_take_bit_int_greater_eq_minus_exp [of 15] signed_take_bit_int_less_exp [of 15]
  by (simp_all add: ulaw_to_linear_def alaw_to_linear_def Let_def)

text \<open>
  The bias of the negative branch of the A-law encoder is 8, half of the smallest interval, so that there a sample may
  move by nearly a whole interval: 23 is taken to 24, -23 to -8, although -24 has a code.
\<close>

lemma alaw_negative_bias:
  "alaw_to_linear (linear_to_alaw 23) = 24 \<and> alaw_to_linear (linear_to_alaw (-23)) = -8 \<and> alaw_to_linear 0x54 = -24"
  by code_simp

section \<open>The transcoding tables\<close>

text \<open>
  The tables have an entry for every byte.  The entry does not always stand for the nearest sample: the A-law code 0
  has the u-law code 42 in the table, and the sample of 41 is nearer.
\<close>

lemma tables_complete: "length ulaw_to_alaw_table = 256" "length alaw_to_ulaw_table = 256"
  by code_simp+

lemma tables_not_nearest:
  "\<bar>ulaw_to_linear 41 - alaw_to_linear 0\<bar> < \<bar>ulaw_to_linear (alaw_to_ulaw 0) - alaw_to_linear 0\<bar>"
  by code_simp

section \<open>Properties\<close>

text \<open>
  C24: A 16-bit sample that is encoded and decoded moves by at most 1/32 of its magnitude and a constant: for u-law the
  constant is the bias, clipped samples included; for A-law it is half of the smallest interval, and on the negative
  side half an interval more.
\<close>
theorem g711_quantisation:
  assumes "-32768 \<le> x" and "x \<le> 32767"
  shows "32 * \<bar>ulaw_to_linear (linear_to_ulaw x) - x\<bar> \<le> \<bar>x\<bar> + 132
       \<and> 32 * \<bar>alaw_to_linear (linear_to_alaw x) - x\<bar> \<le> (if x < 0 then 256 else 0) + max 256 \<bar>x\<bar>"
  using ulaw_quantised [of x] alaw_quantised_pos [of x] alaw_quantised_neg [of x] assms by auto

theorem g711_quantisation_witness:
  "32 * \<bar>ulaw_to_linear (linear_to_ulaw (-23)) - (-23)\<bar> \<le> 155
   \<and> 32 * \<bar>alaw_to_linear (linear_to_alaw (-23)) - (-23)\<bar> \<le> 512"
  using g711_quantisation [of "-23"] by simp

end
