(* ===== verification/Pcm.thy ===== *)
theory Pcm
  imports G711 Ascii
begin

text \<open>
  The built-in codecs of \<^verbatim>\<open>switch_pcm.c\<close> (u-law, A-law, linear and pass-through), their registration with
  \<^verbatim>\<open>switch_core_codec_add_implementation\<close> of \<^verbatim>\<open>include/switch_loadable_module.h\<close>, and the calls of
  \<^verbatim>\<open>switch_core_codec.c\<close> that choose an implementation and encode and decode packets with it.  Packets are memory
  blocks, an access outside of a block is \<open>None\<close>.  Shown are what the registered implementations have in common, that
  packets survive decoding and encoding, and for which packets the size check in front of the decoder is enough.
\<close>

unbundle bit_operations_syntax

section \<open>Model: implementations and codecs\<close>

datatype switch_codec_type =
    SWITCH_CODEC_TYPE_AUDIO | SWITCH_CODEC_TYPE_VIDEO | SWITCH_CODEC_TYPE_T38 | SWITCH_CODEC_TYPE_APP

text \<open>The four functions of an implementation: \<^verbatim>\<open>switch_raw_*\<close>, \<^verbatim>\<open>switch_proxy_*\<close>, \<^verbatim>\<open>switch_g711u_*\<close>, \<^verbatim>\<open>switch_g711a_*\<close>.\<close>

datatype codec_routines = Raw | Proxy | G711u | G711a

text \<open>The numbers of an implementation are 32-bit; where the code computes with them the wrap-around is written out.\<close>

record switch_codec_implementation =
  codec_type :: switch_codec_type
  ianacode :: nat
  iananame :: string
  samples_per_second :: nat
  actual_samples_per_second :: nat
  bits_per_second :: int
  microseconds_per_packet :: int
  samples_per_packet :: nat
  decoded_bytes_per_packet :: nat
  encoded_bytes_per_packet :: nat
  number_of_channels :: nat
  codec_frames_per_packet :: int
  routines :: codec_routines
  codec_id :: u32
  impl_id :: u32

record switch_codec_interface =
  interface_name :: string
  implementations :: "switch_codec_implementation list"
  interface_codec_id :: u32

record switch_codec =
  codec_interface :: "switch_codec_interface option"
  implementation :: "switch_codec_implementation option"
  fmtp_in :: "string option"
  codec_flags :: u32
  codec_mutex :: bool

definition SWITCH_CODEC_FLAG_ENCODE :: u32 where "SWITCH_CODEC_FLAG_ENCODE = 1"
definition SWITCH_CODEC_FLAG_DECODE :: u32 where "SWITCH_CODEC_FLAG_DECODE = 2"
definition SWITCH_CODEC_FLAG_SILENCE :: u32 where "SWITCH_CODEC_FLAG_SILENCE = 16"
definition SWITCH_CODEC_FLAG_FREE_POOL :: u32 where "SWITCH_CODEC_FLAG_FREE_POOL = 32"
definition SWITCH_CODEC_FLAG_READY :: u32 where "SWITCH_CODEC_FLAG_READY = 256"

definition SWITCH_RECOMMENDED_BUFFER_SIZE :: nat where "SWITCH_RECOMMENDED_BUFFER_SIZE = 8192"

section \<open>Model: the functions of the codecs\<close>

text \<open>The status, the block written to and its used length.\<close>

type_synonym codec_result = "(switch_status \<times> byte list \<times> nat) option"

text \<open>A \<^verbatim>\<open>short\<close> in memory has its low byte first.\<close>

definition short_bytes :: "int \<Rightarrow> byte list" where
  "short_bytes v = [word_of_int v, word_of_int (v div 256)]"

definition short_of :: "byte list \<Rightarrow> int" where
  "short_of bs = signed_take_bit 15 (uint (bs ! 0) + 256 * uint (bs ! 1))"

text \<open>\<^verbatim>\<open>switch_raw_init\<close>, \<^verbatim>\<open>switch_g711u_init\<close> and \<^verbatim>\<open>switch_g711a_init\<close> have the same body.\<close>

definition pcm_init :: "u32 \<Rightarrow> switch_status" where
  "pcm_init flags =
     (let encoding = flags AND SWITCH_CODEC_FLAG_ENCODE; decoding = flags AND SWITCH_CODEC_FLAG_DECODE
      in if \<not> (encoding \<noteq> 0 \<or> decoding \<noteq> 0) then SWITCH_STATUS_FALSE else SWITCH_STATUS_SUCCESS)"

definition switch_proxy_init :: "u32 \<Rightarrow> switch_status" where
  "switch_proxy_init flags = SWITCH_STATUS_SUCCESS"

definition switch_raw_init :: "u32 \<Rightarrow> switch_status" where
  "switch_raw_init = pcm_init"

definition switch_g711u_init :: "u32 \<Rightarrow> switch_status" where
  "switch_g711u_init = pcm_init"

definition switch_g711a_init :: "u32 \<Rightarrow> switch_status" where
  "switch_g711a_init = pcm_init"

definition codec_init :: "codec_routines \<Rightarrow> u32 \<Rightarrow> switch_status" where
  "codec_init f =
     (case f of Raw \<Rightarrow> switch_raw_init | Proxy \<Rightarrow> switch_proxy_init | G711u \<Rightarrow> switch_g711u_init | G711a \<Rightarrow> switch_g711a_init)"

definition rates_differ :: "switch_codec option \<Rightarrow> switch_codec option \<Rightarrow> bool" where
  "rates_differ codec other_codec =
     (case (Option.bind codec implementation, Option.bind other_codec implementation) of
        (Some i, Some j) \<Rightarrow> actual_samples_per_second i \<noteq> actual_samples_per_second j
      | _ \<Rightarrow> False)"

text \<open>\<^verbatim>\<open>switch_raw_encode\<close> and \<^verbatim>\<open>switch_raw_decode\<close>: a copy when the rates differ, nothing otherwise.\<close>

definition raw_copy ::
  "switch_codec \<Rightarrow> switch_codec option \<Rightarrow> byte list \<Rightarrow> nat \<Rightarrow> byte list \<Rightarrow> nat \<Rightarrow> codec_result" where
  "raw_copy codec other_codec src src_len dst dst_len =
     (if rates_differ (Some codec) other_codec
      then Option.bind (mem_read src 0 src_len) (\<lambda>bs.
             map_option (\<lambda>dst. (SWITCH_STATUS_RESAMPLE, dst, src_len)) (mem_write dst 0 bs))
      else Some (SWITCH_STATUS_NOOP, dst, dst_len))"

definition switch_raw_encode ::
  "switch_codec \<Rightarrow> switch_codec option \<Rightarrow> byte list \<Rightarrow> nat \<Rightarrow> byte list \<Rightarrow> nat \<Rightarrow> codec_result" where
  "switch_raw_encode = raw_copy"

definition switch_raw_decode ::
  "switch_codec \<Rightarrow> switch_codec option \<Rightarrow> byte list \<Rightarrow> nat \<Rightarrow> byte list \<Rightarrow> nat \<Rightarrow> codec_result" where
  "switch_raw_decode = raw_copy"

definition switch_proxy_encode :: "byte list \<Rightarrow> nat \<Rightarrow> codec_result" where
  "switch_proxy_encode encoded_data encoded_data_len = Some (SWITCH_STATUS_FALSE, encoded_data, encoded_data_len)"

definition switch_proxy_decode :: "byte list \<Rightarrow> nat \<Rightarrow> codec_result" where
  "switch_proxy_decode decoded_data decoded_data_len = Some (SWITCH_STATUS_FALSE, decoded_data, decoded_data_len)"

function encode_loop :: "(int \<Rightarrow> u8) \<Rightarrow> byte list \<Rightarrow> byte list \<Rightarrow> nat \<Rightarrow> nat \<Rightarrow> byte list option" where
  "encode_loop linear_to_law dbuf ebuf i n =
     (if i < n
      then Option.bind (mem_read dbuf (2 * i) 2) (\<lambda>bs.
           Option.bind (mem_write ebuf i [linear_to_law (short_of bs)]) (\<lambda>ebuf.
           encode_loop linear_to_law dbuf ebuf (Suc i) n))
      else Some ebuf)"
  by pat_completeness auto
termination by (relation "measure (\<lambda>(f, src, dst, i, n). n - i)") auto

function decode_loop :: "(u8 \<Rightarrow> int) \<Rightarrow> byte list \<Rightarrow> byte list \<Rightarrow> nat \<Rightarrow> nat \<Rightarrow> byte list option" where
  "decode_loop law_to_linear ebuf dbuf i n =
     (if i < n
      then Option.bind (mem_read ebuf i 1) (\<lambda>bs.
           Option.bind (mem_write dbuf (2 * i) (short_bytes (law_to_linear (bs ! 0)))) (\<lambda>dbuf.
           decode_loop law_to_linear ebuf dbuf (Suc i) n))
      else Some dbuf)"
  by pat_completeness auto
termination by (relation "measure (\<lambda>(f, src, dst, i, n). n - i)") auto

declare encode_loop.simps [simp del] decode_loop.simps [simp del]

definition g711_encode :: "(int \<Rightarrow> u8) \<Rightarrow> byte list \<Rightarrow> nat \<Rightarrow> byte list \<Rightarrow> codec_result" where
  "g711_encode linear_to_law dbuf decoded_data_len ebuf =
     map_option (\<lambda>ebuf. (SWITCH_STATUS_SUCCESS, ebuf, decoded_data_len div 2))
       (encode_loop linear_to_law dbuf ebuf 0 (decoded_data_len div 2))"

definition g711_decode ::
  "(u8 \<Rightarrow> int) \<Rightarrow> nat \<Rightarrow> byte list \<Rightarrow> nat \<Rightarrow> byte list \<Rightarrow> u32 \<Rightarrow> codec_result" where
  "g711_decode law_to_linear bytes_per_packet ebuf encoded_data_len dbuf flag =
     (if flag AND SWITCH_CODEC_FLAG_SILENCE \<noteq> 0
      then map_option (\<lambda>dbuf. (SWITCH_STATUS_SUCCESS, dbuf, bytes_per_packet))
             (mem_write dbuf 0 (replicate bytes_per_packet 0))
      else map_option (\<lambda>dbuf. (SWITCH_STATUS_SUCCESS, dbuf, (encoded_data_len * 2) mod 2 ^ 32))
             (decode_loop law_to_linear ebuf dbuf 0 encoded_data_len))"

definition switch_g711u_encode :: "byte list \<Rightarrow> nat \<Rightarrow> byte list \<Rightarrow> codec_result" where
  "switch_g711u_encode = g711_encode linear_to_ulaw"

definition switch_g711u_decode :: "nat \<Rightarrow> byte list \<Rightarrow> nat \<Rightarrow> byte list \<Rightarrow> u32 \<Rightarrow> codec_result" where
  "switch_g711u_decode = g711_decode ulaw_to_linear"

definition switch_g711a_encode :: "byte list \<Rightarrow> nat \<Rightarrow> byte list \<Rightarrow> codec_result" where
  "switch_g711a_encode = g711_encode linear_to_alaw"

definition switch_g711a_decode :: "nat \<Rightarrow> byte list \<Rightarrow> nat \<Rightarrow> byte list \<Rightarrow> u32 \<Rightarrow> codec_result" where
  "switch_g711a_decode = g711_decode alaw_to_linear"

definition implementation_encode ::
  "switch_codec_implementation \<Rightarrow> switch_codec \<Rightarrow> switch_codec option \<Rightarrow> byte list \<Rightarrow> nat \<Rightarrow> byte list \<Rightarrow> nat \<Rightarrow>
   codec_result" where
  "implementation_encode impl codec other_codec dbuf dlen ebuf elen =
     (case routines impl of
        Raw \<Rightarrow> switch_raw_encode codec other_codec dbuf dlen ebuf elen
      | Proxy \<Rightarrow> switch_proxy_encode ebuf elen
      | G711u \<Rightarrow> switch_g711u_encode dbuf dlen ebuf
      | G711a \<Rightarrow> switch_g711a_encode dbuf dlen ebuf)"

definition implementation_decode ::
  "switch_codec_implementation \<Rightarrow> switch_codec \<Rightarrow> switch_codec option \<Rightarrow> byte list \<Rightarrow> nat \<Rightarrow> byte list \<Rightarrow> nat \<Rightarrow>
   u32 \<Rightarrow> codec_result" where
  "implementation_decode impl codec other_codec ebuf elen dbuf dlen flag =
     (case routines impl of
        Raw \<Rightarrow> switch_raw_decode codec other_codec ebuf elen dbuf dlen
      | Proxy \<Rightarrow> switch_proxy_decode dbuf dlen
      | G711u \<Rightarrow> switch_g711u_decode (decoded_bytes_per_packet impl) ebuf elen dbuf flag
      | G711a \<Rightarrow> switch_g711a_decode (decoded_bytes_per_packet impl) ebuf elen dbuf flag)"

section \<open>Model: registration\<close>

text \<open>\<open>rejected\<close> has the names in the log lines of rejected implementations, and \<open>CODEC_ID\<close> is the counter of the core.\<close>

record codec_module =
  codec_interfaces :: "switch_codec_interface list"
  CODEC_ID :: u32
  rejected :: "string list"

definition switch_core_codec_next_id :: "codec_module \<Rightarrow> u32 \<times> codec_module" where
  "switch_core_codec_next_id m = (CODEC_ID m, m\<lparr>CODEC_ID := CODEC_ID m + 1\<rparr>)"

definition switch_check_interval :: "nat \<Rightarrow> nat \<Rightarrow> bool" where
  "switch_check_interval rate ptime =
     (let (max_ms, ptime_div) =
            (if rate = 48000 \<or> rate = 44100 then (40, 2)
             else if rate = 32000 \<or> rate = 24000 \<or> rate = 16000 then (60, 2)
             else if rate = 12000 then (100, 2)
             else if rate = 8000 then (120, 2)
             else (0, 0))
      in if (rate = 22050 \<or> rate = 11025) \<and> ptime < 120 then True
         else max_ms \<noteq> 0 \<and> ptime_div \<noteq> 0 \<and> (ptime \<le> max_ms \<and> ptime mod ptime_div = 0)
              \<and> (rate div 1000 * ptime) mod 2 ^ 32 < SWITCH_RECOMMENDED_BUFFER_SIZE)"

text \<open>\<^verbatim>\<open>microseconds_per_packet / 1000\<close>, which C rounds towards zero.\<close>

definition packet_ms :: "switch_codec_implementation \<Rightarrow> int" where
  "packet_ms impl = (let us = microseconds_per_packet impl in if us < 0 then - (- us div 1000) else us div 1000)"

definition switch_core_codec_add_implementation ::
  "switch_codec_implementation \<Rightarrow> switch_codec_interface \<times> codec_module \<Rightarrow> switch_codec_interface \<times> codec_module" where
  "switch_core_codec_add_implementation impl = (\<lambda>(ci, m).
     if decoded_bytes_per_packet impl > SWITCH_RECOMMENDED_BUFFER_SIZE
     then (ci, m\<lparr>rejected := rejected m @ [iananame impl]\<rparr>)
     else if codec_type impl = SWITCH_CODEC_TYPE_VIDEO
             \<or> switch_check_interval (actual_samples_per_second impl) (nat (packet_ms impl mod 2 ^ 32))
     then let impl = impl\<lparr>codec_id := interface_codec_id ci\<rparr>;
              (i, m) = switch_core_codec_next_id m;
              impl = impl\<lparr>impl_id := i\<rparr>
          in (ci\<lparr>implementations := impl # implementations ci\<rparr>, m)
     else (ci, m\<lparr>rejected := rejected m @ [iananame impl]\<rparr>))"

definition SWITCH_ADD_CODEC :: "string \<Rightarrow> codec_module \<Rightarrow> switch_codec_interface \<times> codec_module" where
  "SWITCH_ADD_CODEC int_name m =
     (let (i, m) = switch_core_codec_next_id m
      in (\<lparr>interface_name = int_name, implementations = [], interface_codec_id = i\<rparr>, m))"

text \<open>The arguments of a call of \<^verbatim>\<open>switch_core_codec_add_implementation\<close>; the ids are given by the call.\<close>

definition impl_args ::
  "switch_codec_type \<Rightarrow> nat \<Rightarrow> string \<Rightarrow> nat \<Rightarrow> int \<Rightarrow> int \<Rightarrow> nat \<Rightarrow> nat \<Rightarrow> nat \<Rightarrow> nat \<Rightarrow> int \<Rightarrow> codec_routines \<Rightarrow>
   switch_codec_implementation" where
  "impl_args ty iana name rate bps us samples decoded encoded channels frames funs =
     \<lparr>codec_type = ty, ianacode = iana, iananame = name, samples_per_second = rate,
      actual_samples_per_second = rate, bits_per_second = bps, microseconds_per_packet = us,
      samples_per_packet = samples, decoded_bytes_per_packet = decoded, encoded_bytes_per_packet = encoded,
      number_of_channels = channels, codec_frames_per_packet = frames, routines = funs, codec_id = 0, impl_id = 0\<rparr>"

definition pcmu :: "nat \<Rightarrow> int \<Rightarrow> int \<Rightarrow> nat \<Rightarrow> nat \<Rightarrow> nat \<Rightarrow> nat \<Rightarrow> int \<Rightarrow> switch_codec_implementation" where
  "pcmu rate bps us samples decoded encoded channels frames =
     impl_args SWITCH_CODEC_TYPE_AUDIO 0 ''PCMU'' rate bps us samples decoded encoded channels frames G711u"

definition pcma :: "nat \<Rightarrow> int \<Rightarrow> int \<Rightarrow> nat \<Rightarrow> nat \<Rightarrow> nat \<Rightarrow> nat \<Rightarrow> int \<Rightarrow> switch_codec_implementation" where
  "pcma rate bps us samples decoded encoded channels frames =
     impl_args SWITCH_CODEC_TYPE_AUDIO 8 ''PCMA'' rate bps us samples decoded encoded channels frames G711a"

definition l16 :: "nat \<Rightarrow> int \<Rightarrow> int \<Rightarrow> nat \<Rightarrow> nat \<Rightarrow> nat \<Rightarrow> nat \<Rightarrow> int \<Rightarrow> switch_codec_implementation" where
  "l16 rate bps us samples decoded encoded channels frames =
     impl_args SWITCH_CODEC_TYPE_AUDIO 100 ''L16'' rate bps us samples decoded encoded channels frames Raw"

text \<open>\<^verbatim>\<open>mod_g711_load\<close>: the bodies of its two loops, for \<open>count\<close> from 12 down to 1.\<close>

fun pcmu_loop :: "nat \<Rightarrow> switch_codec_implementation list" where
  "pcmu_loop 0 = []"
| "pcmu_loop (Suc n) =
     (let count = Suc n; us = 10000 * int count in
      [pcmu 8000 64000 us (80 * count) (160 * count) (80 * count) 1 (80 * int count)] @
      (if 4 < count then []
       else [pcmu 48000 (64000 * 6) us (80 * count * 6) (160 * count * 6) (80 * count * 6) 1 (80 * int count * 6),
             pcmu 48000 (64000 * 6 * 2) us (80 * count * 6) (160 * count * 6 * 2) (80 * count * 6 * 2) 2
               (80 * int count * 6 * 2)]) @
      pcmu_loop n)"

fun pcma_loop :: "nat \<Rightarrow> switch_codec_implementation list" where
  "pcma_loop 0 = []"
| "pcma_loop (Suc n) =
     (let count = Suc n in
      pcma 8000 64000 (10000 * int count) (80 * count) (160 * count) (80 * count) 1 (80 * int count) # pcma_loop n)"

definition g711_codecs :: "(string \<times> switch_codec_implementation list) list" where
  "g711_codecs = [(''G.711 ulaw'', pcmu_loop 12), (''G.711 alaw'', pcma_loop 12)]"

text \<open>\<^verbatim>\<open>core_pcm_load\<close>: the pass-through codecs, then the linear ones.\<close>

definition proxy_codecs :: "(string \<times> switch_codec_implementation list) list" where
  "proxy_codecs =
     [(''PROXY VIDEO PASS-THROUGH'',
       [impl_args SWITCH_CODEC_TYPE_VIDEO 31 ''PROXY-VID'' 90000 0 0 0 0 0 1 1 Proxy]),
      (''PROXY PASS-THROUGH'',
       [impl_args SWITCH_CODEC_TYPE_AUDIO 0 ''PROXY'' 8000 0 20000 160 320 0 1 1 Proxy,
        impl_args SWITCH_CODEC_TYPE_AUDIO 0 ''PROXY'' 8000 0 20000 160 (320 * 2) 0 2 1 Proxy])]"

fun l16_counts :: "nat \<Rightarrow> nat \<Rightarrow> int \<Rightarrow> nat \<Rightarrow> nat \<Rightarrow> nat \<Rightarrow> switch_codec_implementation list" where
  "l16_counts 0 rate bps spf bpf ebpf = []"
| "l16_counts (Suc n) rate bps spf bpf ebpf =
     (let countb = Suc n; us = 10000 * int countb in
      [l16 rate bps us (spf * countb) (bpf * countb) (ebpf * countb) 1 (int (spf * countb)),
       l16 rate bps us (spf * countb) (bpf * countb * 2) (ebpf * countb) 2 (int (spf * countb))] @
      l16_counts n rate bps spf bpf ebpf)"

fun l16_rates :: "nat \<Rightarrow> nat \<Rightarrow> int \<Rightarrow> nat \<Rightarrow> nat \<Rightarrow> nat \<Rightarrow> switch_codec_implementation list" where
  "l16_rates 0 rate bps spf bpf ebpf = []"
| "l16_rates (Suc n) rate bps spf bpf ebpf =
     (let countb = (if rate = 8000 then 12 else 6) in
      l16_counts countb rate bps spf bpf ebpf @
      l16_rates n (rate * 2) (bps * 2) (spf * 2) (bpf * 2) (ebpf * 2))"

text \<open>The two calls in the body of each of the further loops, and such a loop: \<open>n\<close> times, with growing packets.\<close>

definition l16_pair :: "nat \<Rightarrow> int \<Rightarrow> int \<Rightarrow> int \<Rightarrow> nat \<Rightarrow> nat \<Rightarrow> switch_codec_implementation list" where
  "l16_pair rate bps bps2 us samples bytes =
     [l16 rate bps us samples bytes bytes 1 1, l16 rate bps2 us samples (bytes * 2) (bytes * 2) 2 1]"

fun l16_loop ::
  "nat \<Rightarrow> nat \<Rightarrow> int \<Rightarrow> int \<Rightarrow> int \<Rightarrow> int \<Rightarrow> nat \<Rightarrow> nat \<Rightarrow> nat \<Rightarrow> nat \<Rightarrow> switch_codec_implementation list" where
  "l16_loop 0 rate bps bps2 ms dms samples dsamples bytes dbytes = []"
| "l16_loop (Suc n) rate bps bps2 ms dms samples dsamples bytes dbytes =
     l16_pair rate bps bps2 ms samples bytes @
     l16_loop n rate bps bps2 (ms + dms) dms (samples + dsamples) dsamples (bytes + dbytes) dbytes"

definition l16_12000 :: "switch_codec_implementation list" where
  "l16_12000 = l16_loop 5 12000 192000 (192000 * 2) 20000 20000 240 240 480 480"

definition l16_24000 :: "switch_codec_implementation list" where
  "l16_24000 = l16_loop 3 24000 384000 (384000 * 2) 20000 20000 480 480 960 960"

definition l16_48000_short :: "switch_codec_implementation list" where
  "l16_48000_short = l16_loop 5 48000 768000 (768000 * 2) 2000 2000 96 96 192 192"

definition l16_8000_short :: "switch_codec_implementation list" where
  "l16_8000_short = l16_loop 4 8000 128000 (128000 * 2) 2000 2000 16 16 32 32"

definition l16_16000_short :: "switch_codec_implementation list" where
  "l16_16000_short = l16_loop 4 16000 256000 (256000 * 2) 2000 2000 32 32 64 64"

definition l16_32000_short :: "switch_codec_implementation list" where
  "l16_32000_short = l16_loop 4 32000 512000 (512000 * 2) 2000 2000 64 64 128 128"

definition l16_48000 :: "switch_codec_implementation list" where
  "l16_48000 = l16_loop 3 48000 768000 (768000 * 2) 20000 10000 960 480 1920 960"

definition l16_44100 :: "switch_codec_implementation list" where
  "l16_44100 = l16_loop 3 44100 705600 705600 10000 10000 441 441 882 882"

definition l16_22050_11025 :: "switch_codec_implementation list" where
  "l16_22050_11025 =
     l16_pair 22050 352800 (352800 * 2) 20000 441 882 @
     l16_pair 11025 176400 (176400 * 2) 40000 441 882 @
     l16_pair 11025 176400 (176400 * 2) 32000 256 512"

definition pcm_codecs :: "(string \<times> switch_codec_implementation list) list" where
  "pcm_codecs =
     proxy_codecs @
     [(''RAW Signed Linear (16 bit)'',
       l16_rates 3 8000 128000 80 160 160 @ l16_12000 @ l16_24000 @ l16_48000_short @ l16_8000_short @
       l16_16000_short @ l16_32000_short @ l16_48000 @ l16_44100 @ l16_22050_11025)] @
     g711_codecs"

text \<open>A new interface is put at the end of the list of the module.\<close>

definition load_codec :: "string \<times> switch_codec_implementation list \<Rightarrow> codec_module \<Rightarrow> codec_module" where
  "load_codec = (\<lambda>(name, impls) m.
     let (ci, m) = fold switch_core_codec_add_implementation impls (SWITCH_ADD_CODEC name m)
     in m\<lparr>codec_interfaces := codec_interfaces m @ [ci]\<rparr>)"

definition core_pcm_load :: "u32 \<Rightarrow> switch_status \<times> codec_module" where
  "core_pcm_load next_id =
     (SWITCH_STATUS_SUCCESS,
      fold load_codec pcm_codecs \<lparr>codec_interfaces = [], CODEC_ID = next_id, rejected = []\<rparr>)"

definition core_pcm_shutdown :: switch_status where
  "core_pcm_shutdown = SWITCH_STATUS_NOUNLOAD"

section \<open>Model: choosing an implementation, encoding and decoding\<close>

definition no_codec :: switch_codec where
  "no_codec = \<lparr>codec_interface = None, implementation = None, fmtp_in = None, codec_flags = 0, codec_mutex = False\<rparr>"

definition matches :: "string \<Rightarrow> nat \<Rightarrow> nat \<Rightarrow> int \<Rightarrow> int \<Rightarrow> switch_codec_implementation \<Rightarrow> bool" where
  "matches codec_name rate bitrate ms channels iptr =
     (let crate = (if strcaseeq codec_name ''g722'' then samples_per_second iptr else actual_samples_per_second iptr)
      in (rate = 0 \<or> rate = crate)
         \<and> (bitrate = 0 \<or> bitrate = nat (bits_per_second iptr mod 2 ^ 32))
         \<and> (ms = 0 \<or> ms = packet_ms iptr)
         \<and> (channels = 0 \<or> channels = int (number_of_channels iptr)))"

definition choose_implementation ::
  "switch_codec_interface \<Rightarrow> string \<Rightarrow> nat \<Rightarrow> int \<Rightarrow> int \<Rightarrow> nat \<Rightarrow> switch_codec_implementation option" where
  "choose_implementation ci codec_name rate ms channels bitrate =
     (if strcaseeq (take 5 codec_name) ''PROXY''
      then find (\<lambda>iptr. channels = 0 \<or> channels = int (number_of_channels iptr)) (implementations ci)
      else case (if ms = 0 then find (matches codec_name rate bitrate 20 channels) (implementations ci) else None) of
             Some iptr \<Rightarrow> Some iptr
           | None \<Rightarrow> find (matches codec_name rate bitrate ms channels) (implementations ci))"

text \<open>
  \<open>interfaces\<close> finds a codec interface by the name of the codec and of the module.  \<open>pool\<close> tells whether a memory
  pool was given, \<open>new_pool\<close> is the status of creating one.  The status of the initialising function is not looked at.
\<close>

definition switch_core_codec_init_with_bitrate ::
  "(string \<Rightarrow> string option \<Rightarrow> switch_codec_interface option) \<Rightarrow> string \<Rightarrow> string option \<Rightarrow> string option \<Rightarrow>
   nat \<Rightarrow> int \<Rightarrow> int \<Rightarrow> nat \<Rightarrow> u32 \<Rightarrow> bool \<Rightarrow> switch_status \<Rightarrow> switch_status \<times> switch_codec" where
  "switch_core_codec_init_with_bitrate interfaces codec_name modname fmtp rate ms channels bitrate flags pool new_pool =
     (let codec = no_codec;
          (codec_name, modname) =
            (if CHR ''.'' \<in> set codec_name
             then (tl (dropWhile (\<lambda>c. c \<noteq> CHR ''.'') codec_name), Some (takeWhile (\<lambda>c. c \<noteq> CHR ''.'') codec_name))
             else (codec_name, modname))
      in case interfaces codec_name modname of
           None \<Rightarrow> (SWITCH_STATUS_GENERR, codec)
         | Some ci \<Rightarrow>
             (case choose_implementation ci codec_name rate ms channels bitrate of
                None \<Rightarrow> (SWITCH_STATUS_NOTIMPL, codec)
              | Some impl \<Rightarrow>
                  (let codec = codec\<lparr>codec_interface := Some ci, implementation := Some impl, codec_flags := flags\<rparr>
                   in if \<not> pool \<and> new_pool \<noteq> SWITCH_STATUS_SUCCESS then (new_pool, codec)
                      else let codec = (if pool then codec
                                        else codec\<lparr>codec_flags := switch_set_flag flags SWITCH_CODEC_FLAG_FREE_POOL\<rparr>);
                               codec = codec\<lparr>fmtp_in := fmtp\<rparr>;
                               _ = codec_init (routines impl) flags;
                               codec = codec\<lparr>codec_mutex := True\<rparr>
                           in (SWITCH_STATUS_SUCCESS,
                               codec\<lparr>codec_flags := switch_set_flag (codec_flags codec) SWITCH_CODEC_FLAG_READY\<rparr>))))"

definition switch_core_codec_ready :: "switch_codec \<Rightarrow> bool" where
  "switch_core_codec_ready codec \<longleftrightarrow>
     switch_test_flag (codec_flags codec) SWITCH_CODEC_FLAG_READY \<and> codec_mutex codec
     \<and> codec_interface codec \<noteq> None \<and> implementation codec \<noteq> None"

definition switch_core_codec_encode ::
  "switch_codec \<Rightarrow> switch_codec option \<Rightarrow> byte list \<Rightarrow> nat \<Rightarrow> byte list \<Rightarrow> nat \<Rightarrow> codec_result" where
  "switch_core_codec_encode codec other_codec dbuf dlen ebuf elen =
     (case implementation codec of
        None \<Rightarrow> Some (SWITCH_STATUS_NOT_INITALIZED, ebuf, elen)
      | Some impl \<Rightarrow>
          if \<not> switch_core_codec_ready codec then Some (SWITCH_STATUS_NOT_INITALIZED, ebuf, elen)
          else if \<not> switch_test_flag (codec_flags codec) SWITCH_CODEC_FLAG_ENCODE
          then Some (SWITCH_STATUS_NOT_INITALIZED, ebuf, elen)
          else implementation_encode impl codec other_codec dbuf dlen ebuf elen)"

text \<open>The size check: \<open>None\<close> is the division by zero of an implementation without channels.\<close>

definition too_small :: "switch_codec_implementation \<Rightarrow> nat \<Rightarrow> nat \<Rightarrow> bool option" where
  "too_small impl elen dlen =
     (if encoded_bytes_per_packet impl = 0 then Some False
      else if number_of_channels impl = 0 then None
      else let frames = elen div encoded_bytes_per_packet impl div number_of_channels impl
           in Some (frames \<noteq> 0 \<and> (decoded_bytes_per_packet impl * frames) mod 2 ^ 32 > dlen))"

definition switch_core_codec_decode ::
  "switch_codec \<Rightarrow> switch_codec option \<Rightarrow> byte list \<Rightarrow> nat \<Rightarrow> byte list \<Rightarrow> nat \<Rightarrow> u32 \<Rightarrow> codec_result" where
  "switch_core_codec_decode codec other_codec ebuf elen dbuf dlen flag =
     (case implementation codec of
        None \<Rightarrow> Some (SWITCH_STATUS_NOT_INITALIZED, dbuf, dlen)
      | Some impl \<Rightarrow>
          if \<not> switch_core_codec_ready codec then Some (SWITCH_STATUS_NOT_INITALIZED, dbuf, dlen)
          else if \<not> switch_test_flag (codec_flags codec) SWITCH_CODEC_FLAG_DECODE
          then Some (SWITCH_STATUS_NOT_INITALIZED, dbuf, dlen)
          else Option.bind (too_small impl elen dlen) (\<lambda>small.
                 if small
                 then map_option (\<lambda>dbuf. (SWITCH_STATUS_SUCCESS, dbuf, decoded_bytes_per_packet impl))
                        (mem_write dbuf 0 (replicate (decoded_bytes_per_packet impl) 255))
                 else implementation_decode impl codec other_codec ebuf elen dbuf dlen flag))"

definition switch_core_codec_destroy :: "switch_codec \<Rightarrow> switch_status \<times> switch_codec" where
  "switch_core_codec_destroy codec =
     (if switch_core_codec_ready codec then (SWITCH_STATUS_SUCCESS, no_codec)
      else (SWITCH_STATUS_NOT_INITALIZED, codec))"

section \<open>Loops over samples\<close>

lemma short_roundtrip:
  assumes "-32768 \<le> v" "v < 32768"
  shows "short_of (short_bytes v) = v"
proof -
  have "v mod 256 + 256 * (v div 256 mod 256) = v mod (256 * 256)"
    using zmod_zmult2_eq [of 256 v 256] by simp
  then have "uint (word_of_int v :: byte) + 256 * uint (word_of_int (v div 256) :: byte) = take_bit 16 v"
    by (simp add: take_bit_eq_mod uint_word_of_int)
  then have "short_of (short_bytes v) = signed_take_bit 15 (take_bit 16 v)"
    by (simp add: short_of_def short_bytes_def)
  also have "\<dots> = v" using assms by (simp add: signed_take_bit_take_bit signed_take_bit_int_eq_self)
  finally show ?thesis .
qed

lemma length_short_bytes [simp]: "length (short_bytes v) = 2"
  by (simp add: short_bytes_def)

lemma mem_write_length: "mem_write blk off src = Some blk' \<Longrightarrow> length blk' = length blk"
  by (auto simp: mem_write_def split: if_splits)

text \<open>A write changes what is before its end only by its bytes, and nothing behind its end.\<close>

lemma written:
  assumes "off + length src \<le> length blk"
  obtains blk' where "mem_write blk off src = Some blk'" "length blk' = length blk"
    "take (off + length src) blk' = take off blk @ src"
    "\<And>k. off + length src \<le> k \<Longrightarrow> drop k blk' = drop k blk"
proof -
  let ?blk = "take off blk @ src @ drop (off + length src) blk"
  have "drop k ?blk = drop k blk" if "off + length src \<le> k" for k using assms that by simp
  then show thesis using that [of ?blk] assms by (simp add: mem_simps)
qed

lemma encode_loop_Some:
  assumes "i \<le> n" "2 * n \<le> length dbuf" "n \<le> length ebuf"
  shows "encode_loop f dbuf ebuf i n =
         Some (take i ebuf @ map (\<lambda>k. f (short_of (take 2 (drop (2 * k) dbuf)))) [i..<n] @ drop n ebuf)"
  using assms
proof (induction f dbuf ebuf i n rule: encode_loop.induct)
  case (1 f dbuf ebuf i n)
  show ?case
  proof (cases "i < n")
    case True
    let ?x = "f (short_of (take 2 (drop (2 * i) dbuf)))"
    obtain ebuf' where w: "mem_write ebuf i [?x] = Some ebuf'" "length ebuf' = length ebuf"
        "take (Suc i) ebuf' = take i ebuf @ [?x]" "drop n ebuf' = drop n ebuf"
    proof (rule written [of i "[?x]" ebuf])
      show "i + length [?x] \<le> length ebuf" using True 1(4) by simp
      fix blk' assume "mem_write ebuf i [?x] = Some blk'" "length blk' = length ebuf"
        "take (i + length [?x]) blk' = take i ebuf @ [?x]"
        "\<And>k. i + length [?x] \<le> k \<Longrightarrow> drop k blk' = drop k ebuf"
      then show thesis using that [of blk'] True by simp
    qed
    have r: "mem_read dbuf (2 * i) 2 = Some (take 2 (drop (2 * i) dbuf))" using True 1(3) by (simp add: mem_simps)
    show ?thesis using 1(1) [OF True r w(1)] 1(3,4) True w
      by (subst encode_loop.simps) (simp add: r upt_conv_Cons)
  next
    case False
    then show ?thesis using 1 by (subst encode_loop.simps) simp
  qed
qed

definition decoded_bytes :: "(u8 \<Rightarrow> int) \<Rightarrow> byte list \<Rightarrow> byte list" where
  "decoded_bytes f bs = concat (map (\<lambda>b. short_bytes (f b)) bs)"

lemma length_decoded_bytes [simp]: "length (decoded_bytes f bs) = 2 * length bs"
  by (induction bs) (simp_all add: decoded_bytes_def)

lemma decode_loop_Some:
  assumes "i \<le> n" "2 * n \<le> length dbuf" "n \<le> length ebuf"
  shows "decode_loop f ebuf dbuf i n =
         Some (take (2 * i) dbuf @ decoded_bytes f (take (n - i) (drop i ebuf)) @ drop (2 * n) dbuf)"
  using assms
proof (induction f ebuf dbuf i n rule: decode_loop.induct)
  case (1 f ebuf dbuf i n)
  show ?case
  proof (cases "i < n")
    case True
    let ?x = "short_bytes (f (ebuf ! i))"
    have next_byte: "take (n - i) (drop i ebuf) = ebuf ! i # take (n - Suc i) (drop (Suc i) ebuf)"
      using 1(4) True by (metis Cons_nth_drop_Suc Suc_diff_Suc less_le_trans take_Suc_Cons)
    obtain dbuf' where w: "mem_write dbuf (2 * i) ?x = Some dbuf'" "length dbuf' = length dbuf"
        "take (2 * Suc i) dbuf' = take (2 * i) dbuf @ ?x" "drop (2 * n) dbuf' = drop (2 * n) dbuf"
    proof (rule written [of "2 * i" ?x dbuf])
      show "2 * i + length ?x \<le> length dbuf" using True 1(3) by simp
      fix blk' assume "mem_write dbuf (2 * i) ?x = Some blk'" "length blk' = length dbuf"
        "take (2 * i + length ?x) blk' = take (2 * i) dbuf @ ?x"
        "\<And>k. 2 * i + length ?x \<le> k \<Longrightarrow> drop k blk' = drop k dbuf"
      then show thesis using that [of blk'] True by simp
    qed
    have r: "mem_read ebuf i 1 = Some [ebuf ! i]"
      using True 1(4) by (simp add: mem_simps take_Suc_conv_app_nth hd_drop_conv_nth take_Suc)
    have "decode_loop f ebuf dbuf i n = decode_loop f ebuf dbuf' (Suc i) n"
      using True w(1) by (subst decode_loop.simps) (simp add: r [simplified])
    also have "\<dots> = Some (take (2 * Suc i) dbuf' @ decoded_bytes f (take (n - Suc i) (drop (Suc i) ebuf)) @ drop (2 * n) dbuf')"
      using 1(1) [OF True r, of dbuf'] w 1(3,4) True by simp
    finally show ?thesis unfolding next_byte w(3,4) by (simp add: decoded_bytes_def)
  next
    case False
    then show ?thesis using 1 by (subst decode_loop.simps) (simp add: decoded_bytes_def)
  qed
qed

text \<open>A loop over more samples than the block has room for leaves the block.\<close>

lemma decode_loop_None:
  assumes "i \<le> n" "length dbuf < 2 * n" "2 * i \<le> length dbuf"
  shows "decode_loop f ebuf dbuf i n = None"
  using assms
proof (induction f ebuf dbuf i n rule: decode_loop.induct)
  case (1 f ebuf dbuf i n)
  then have "i < n" by simp
  show ?case
  proof (rule ccontr)
    assume "decode_loop f ebuf dbuf i n \<noteq> None"
    then obtain bs dbuf' where r: "mem_read ebuf i 1 = Some bs" and
        w: "mem_write dbuf (2 * i) (short_bytes (f (bs ! 0))) = Some dbuf'" and
        more: "decode_loop f ebuf dbuf' (Suc i) n \<noteq> None"
      using \<open>i < n\<close> by (subst (asm) decode_loop.simps) (auto simp: bind_eq_Some_conv)
    have "2 * Suc i \<le> length dbuf" using w by (simp add: mem_write_def split: if_splits)
    then show False using 1(1) [OF \<open>i < n\<close> r w] mem_write_length [OF w] 1(3) \<open>i < n\<close> more by simp
  qed
qed

section \<open>What is registered\<close>

definition accepted :: "switch_codec_implementation \<Rightarrow> bool" where
  "accepted impl \<longleftrightarrow>
     decoded_bytes_per_packet impl \<le> SWITCH_RECOMMENDED_BUFFER_SIZE
     \<and> (codec_type impl = SWITCH_CODEC_TYPE_VIDEO
        \<or> switch_check_interval (actual_samples_per_second impl) (nat (packet_ms impl mod 2 ^ 32)))"

definition erase_ids :: "switch_codec_implementation \<Rightarrow> switch_codec_implementation" where
  "erase_ids impl = impl\<lparr>codec_id := 0, impl_id := 0\<rparr>"

lemma add_accepted:
  "accepted impl \<Longrightarrow> switch_core_codec_add_implementation impl (ci, m) =
     (ci\<lparr>implementations := impl\<lparr>codec_id := interface_codec_id ci, impl_id := CODEC_ID m\<rparr> # implementations ci\<rparr>,
      m\<lparr>CODEC_ID := CODEC_ID m + 1\<rparr>)"
  by (auto simp: switch_core_codec_add_implementation_def accepted_def switch_core_codec_next_id_def)

lemma add_rejected:
  "\<not> accepted impl \<Longrightarrow> switch_core_codec_add_implementation impl (ci, m) =
     (ci, m\<lparr>rejected := rejected m @ [iananame impl]\<rparr>)"
  unfolding switch_core_codec_add_implementation_def accepted_def prod.case by (auto simp only: not_le split: if_split)

lemma fold_add_accepted:
  assumes "list_all accepted impls" "list_all (\<lambda>a. erase_ids a = a) impls"
    and "fold switch_core_codec_add_implementation impls (ci, m) = (ci', m')"
  shows "interface_name ci' = interface_name ci \<and> rejected m' = rejected m \<and> codec_interfaces m' = codec_interfaces m
    \<and> map erase_ids (implementations ci') = rev impls @ map erase_ids (implementations ci)"
  using assms
proof (induction impls arbitrary: ci m)
  case (Cons a impls)
  let ?ci = "ci\<lparr>implementations := a\<lparr>codec_id := interface_codec_id ci, impl_id := CODEC_ID m\<rparr> # implementations ci\<rparr>"
  have "fold switch_core_codec_add_implementation impls (?ci, m\<lparr>CODEC_ID := CODEC_ID m + 1\<rparr>) = (ci', m')"
    using Cons.prems(1,3) by (simp add: add_accepted)
  note Cons.IH [OF _ _ this]
  moreover have "erase_ids (a\<lparr>codec_id := interface_codec_id ci, impl_id := CODEC_ID m\<rparr>) = a"
    using Cons.prems(2) by (simp add: erase_ids_def)
  ultimately show ?case using Cons.prems(1,2) by simp
qed simp

definition interface_view :: "codec_module \<Rightarrow> (string \<times> switch_codec_implementation list) list" where
  "interface_view m = map (\<lambda>ci. (interface_name ci, map erase_ids (implementations ci))) (codec_interfaces m)"

definition all_accepted :: "(string \<times> switch_codec_implementation list) list \<Rightarrow> bool" where
  "all_accepted = list_all (\<lambda>(name, impls). list_all accepted impls \<and> list_all (\<lambda>a. erase_ids a = a) impls)"

lemma load_codec_accepted:
  assumes "all_accepted [(name, impls)]"
  shows "interface_view (load_codec (name, impls) m) = interface_view m @ [(name, rev impls)]
       \<and> rejected (load_codec (name, impls) m) = rejected m"
proof -
  obtain ci m' where f: "fold switch_core_codec_add_implementation impls (SWITCH_ADD_CODEC name m) = (ci, m')"
    by (cases "fold switch_core_codec_add_implementation impls (SWITCH_ADD_CODEC name m)")
  from fold_add_accepted [OF _ _ f [unfolded SWITCH_ADD_CODEC_def switch_core_codec_next_id_def Let_def prod.case]]
  show ?thesis using assms f by (simp add: load_codec_def interface_view_def all_accepted_def)
qed

lemma load_codecs_accepted:
  "all_accepted cs \<Longrightarrow> interface_view (fold load_codec cs m) = interface_view m @ map (\<lambda>(name, impls). (name, rev impls)) cs
   \<and> rejected (fold load_codec cs m) = rejected m"
proof (induction cs arbitrary: m)
  case (Cons c cs)
  obtain name impls where c: "c = (name, impls)" by (cases c)
  show ?case using Cons load_codec_accepted [of name impls m] by (simp add: c all_accepted_def)
qed simp

text \<open>Evaluation of the loops on numerals.\<close>

named_theorems pcm_eval "evaluating the registered implementations"

lemma loop_numerals [pcm_eval]:
  "pcmu_loop (numeral v) =
     (let count = numeral v; us = 10000 * int count in
      [pcmu 8000 64000 us (80 * count) (160 * count) (80 * count) 1 (80 * int count)] @
      (if 4 < count then []
       else [pcmu 48000 (64000 * 6) us (80 * count * 6) (160 * count * 6) (80 * count * 6) 1 (80 * int count * 6),
             pcmu 48000 (64000 * 6 * 2) us (80 * count * 6) (160 * count * 6 * 2) (80 * count * 6 * 2) 2
               (80 * int count * 6 * 2)]) @
      pcmu_loop (pred_numeral v))"
  "pcma_loop (numeral v) =
     (let count = numeral v in
      pcma 8000 64000 (10000 * int count) (80 * count) (160 * count) (80 * count) 1 (80 * int count) # pcma_loop (pred_numeral v))"
  "l16_counts (numeral v) rate bps spf bpf ebpf =
     (let countb = numeral v; us = 10000 * int countb in
      [l16 rate bps us (spf * countb) (bpf * countb) (ebpf * countb) 1 (int (spf * countb)),
       l16 rate bps us (spf * countb) (bpf * countb * 2) (ebpf * countb) 2 (int (spf * countb))] @
      l16_counts (pred_numeral v) rate bps spf bpf ebpf)"
  "l16_rates (numeral v) rate bps spf bpf ebpf =
     (let countb = (if rate = 8000 then 12 else 6) in
      l16_counts countb rate bps spf bpf ebpf @
      l16_rates (pred_numeral v) (rate * 2) (bps * 2) (spf * 2) (bpf * 2) (ebpf * 2))"
  "l16_loop (numeral v) rate bps bps2 ms dms samples dsamples bytes dbytes =
     l16_pair rate bps bps2 ms samples bytes @
     l16_loop (pred_numeral v) rate bps bps2 (ms + dms) dms (samples + dsamples) dsamples (bytes + dbytes) dbytes"
  unfolding numeral_eq_Suc [of v] by (simp_all only: pcmu_loop.simps pcma_loop.simps l16_counts.simps l16_rates.simps l16_loop.simps)

declare l16_12000_def [pcm_eval] l16_24000_def [pcm_eval] l16_48000_short_def [pcm_eval] l16_8000_short_def [pcm_eval]
  l16_16000_short_def [pcm_eval] l16_32000_short_def [pcm_eval] l16_48000_def [pcm_eval] l16_44100_def [pcm_eval]
  l16_22050_11025_def [pcm_eval] l16_pair_def [pcm_eval] l16_def [pcm_eval] pcmu_def [pcm_eval] pcma_def [pcm_eval]
  impl_args_def [pcm_eval] proxy_codecs_def [pcm_eval] g711_codecs_def [pcm_eval] pcm_codecs_def [pcm_eval]
  SWITCH_RECOMMENDED_BUFFER_SIZE_def [pcm_eval] packet_ms_def [pcm_eval] switch_check_interval_def [pcm_eval]
  Let_def [pcm_eval]

lemma pcm_all_accepted: "all_accepted pcm_codecs"
  by (simp add: pcm_eval all_accepted_def accepted_def erase_ids_def)

subsection \<open>Numbers of interfaces and implementations\<close>

text \<open>At most \<open>n\<close> numbers have been given since the counter was \<open>c\<close>, and all of them are different.\<close>

definition ids_given :: "u32 \<Rightarrow> nat \<Rightarrow> u32 list \<Rightarrow> u32 \<Rightarrow> bool" where
  "ids_given c n ids next_id \<longleftrightarrow>
     (\<exists>k \<le> n. distinct ids \<and> set ids \<subseteq> (\<lambda>j. c + of_nat j) ` {..<k} \<and> next_id = c + of_nat k)"

lemma ids_given_next:
  assumes "ids_given c n ids next_id" "n < 2 ^ 32"
  shows "ids_given c (Suc n) (next_id # ids) (next_id + 1)"
proof -
  obtain k where k: "k \<le> n" "distinct ids" "set ids \<subseteq> (\<lambda>j. c + of_nat j) ` {..<k}" "next_id = c + of_nat k"
    using assms(1) unfolding ids_given_def by blast
  have "(of_nat k :: u32) \<noteq> of_nat j" if "j < k" for j
    using that k(1) assms(2) take_bit_nat_eq_self [of k 32] take_bit_nat_eq_self [of j 32] by (simp add: word_of_nat_eq_iff)
  then have "next_id \<notin> set ids" using k(3,4) by fastforce
  then show ?thesis unfolding ids_given_def using k by (intro exI [of _ "Suc k"]) (auto simp: lessThan_Suc)
qed

lemma ids_given_more: "ids_given c n ids next_id \<Longrightarrow> n \<le> n' \<Longrightarrow> ids_given c n' ids next_id"
  unfolding ids_given_def using le_trans by blast

lemma ids_given_perm: "ids_given c n ids next_id \<Longrightarrow> mset ids' = mset ids \<Longrightarrow> ids_given c n ids' next_id"
  unfolding ids_given_def using mset_eq_imp_distinct_iff mset_eq_setD by metis

definition interface_ids :: "switch_codec_interface \<Rightarrow> u32 list" where
  "interface_ids ci = interface_codec_id ci # map impl_id (implementations ci)"

definition module_ids :: "codec_module \<Rightarrow> u32 list" where
  "module_ids m = concat (map interface_ids (codec_interfaces m))"

lemma add_ids:
  assumes "ids_given c n (interface_ids ci @ module_ids m) (CODEC_ID m)" "n < 2 ^ 32"
    and "switch_core_codec_add_implementation impl (ci, m) = (ci', m')"
  shows "ids_given c (Suc n) (interface_ids ci' @ module_ids m') (CODEC_ID m')"
proof (cases "accepted impl")
  case True
  then show ?thesis using assms(3) ids_given_perm [OF ids_given_next [OF assms(1,2)]]
    by (auto simp: add_accepted interface_ids_def module_ids_def)
next
  case False
  then have "ci' = ci" "CODEC_ID m' = CODEC_ID m" "codec_interfaces m' = codec_interfaces m"
    using assms(3) by (auto simp: add_rejected)
  then show ?thesis using ids_given_more [OF assms(1), of "Suc n"] by (simp add: module_ids_def)
qed

lemma fold_add_ids:
  "ids_given c n (interface_ids ci @ module_ids m) (CODEC_ID m) \<Longrightarrow> n + length impls \<le> 2 ^ 32 \<Longrightarrow>
   fold switch_core_codec_add_implementation impls (ci, m) = (ci', m') \<Longrightarrow>
   ids_given c (n + length impls) (interface_ids ci' @ module_ids m') (CODEC_ID m')"
proof (induction impls arbitrary: n ci m)
  case (Cons a impls)
  obtain ci1 m1 where a: "switch_core_codec_add_implementation a (ci, m) = (ci1, m1)"
    by (cases "switch_core_codec_add_implementation a (ci, m)")
  show ?case using Cons.IH [OF add_ids [OF Cons.prems(1) _ a]] Cons.prems(2,3) a by simp
qed simp

lemma load_ids:
  assumes "ids_given c n (module_ids m) (CODEC_ID m)" "n + Suc (length impls) \<le> 2 ^ 32"
  shows "ids_given c (n + Suc (length impls)) (module_ids (load_codec (name, impls) m)) (CODEC_ID (load_codec (name, impls) m))"
proof -
  obtain ci m1 where s: "SWITCH_ADD_CODEC name m = (ci, m1)" by (cases "SWITCH_ADD_CODEC name m")
  obtain ci' m' where f: "fold switch_core_codec_add_implementation impls (ci, m1) = (ci', m')"
    by (cases "fold switch_core_codec_add_implementation impls (ci, m1)")
  have "ids_given c (Suc n) (interface_ids ci @ module_ids m1) (CODEC_ID m1)"
    using ids_given_next [OF assms(1)] assms(2) s
    by (auto simp: SWITCH_ADD_CODEC_def switch_core_codec_next_id_def interface_ids_def module_ids_def)
  from fold_add_ids [OF this _ f] have "ids_given c (Suc n + length impls) (interface_ids ci' @ module_ids m') (CODEC_ID m')"
    using assms(2) by simp
  from ids_given_perm [OF this, of "module_ids m' @ interface_ids ci'"] show ?thesis
    using s f by (simp add: load_codec_def module_ids_def)
qed

lemma load_all_ids:
  "ids_given c n (module_ids m) (CODEC_ID m) \<Longrightarrow> n + sum_list (map (\<lambda>(name, impls). Suc (length impls)) cs) \<le> 2 ^ 32 \<Longrightarrow>
   distinct (module_ids (fold load_codec cs m))"
proof (induction cs arbitrary: n m)
  case Nil
  then show ?case by (auto simp: ids_given_def)
next
  case (Cons x cs)
  obtain name impls where x: "x = (name, impls)" by (cases x)
  show ?case using Cons.IH [OF load_ids [OF Cons.prems(1), of impls name]] Cons.prems(2) by (simp add: x)
qed

lemma pcm_codecs_number: "sum_list (map (\<lambda>(name, impls). Suc (length impls)) pcm_codecs) \<le> 1000"
  by (simp add: pcm_eval)

subsection \<open>Sizes\<close>

text \<open>
  What the fields of an implementation mean: a decoded packet has two bytes for each sample of each channel and fits
  into the buffers of the core, its time has as many samples as the rate makes in it, linear packets are encoded as
  they are and companded ones with one byte for each sample, and the bit rate is that of the encoded samples.  The
  pass-through codecs have no encoded size.
\<close>

definition impl_consistent :: "switch_codec_implementation \<Rightarrow> bool" where
  "impl_consistent impl \<longleftrightarrow>
     decoded_bytes_per_packet impl \<le> SWITCH_RECOMMENDED_BUFFER_SIZE
     \<and> (number_of_channels impl = 1 \<or> number_of_channels impl = 2)
     \<and> (if routines impl = Proxy then encoded_bytes_per_packet impl = 0
        else 0 < encoded_bytes_per_packet impl
          \<and> decoded_bytes_per_packet impl = 2 * samples_per_packet impl * number_of_channels impl
          \<and> microseconds_per_packet impl * int (actual_samples_per_second impl) = 1000000 * int (samples_per_packet impl)
          \<and> decoded_bytes_per_packet impl = (if routines impl = Raw then 1 else 2) * encoded_bytes_per_packet impl
          \<and> bits_per_second impl =
              (if routines impl = Raw then 16 else 8) * int (actual_samples_per_second impl) * int (number_of_channels impl))"

text \<open>
  The registered implementations that are not, in the order of their registration: the packets of 32 ms at 11025 Hz,
  whose 256 samples make 23 ms; the stereo ones at 44100 Hz, with the bit rate of mono; and the stereo ones of the first
  loops, with the encoded size and the bit rate of mono.
\<close>

definition wrong_implementations :: "switch_codec_implementation list" where
  "wrong_implementations =
     [l16 11025 352800 32000 256 1024 1024 2 1, l16 11025 176400 32000 256 512 512 1 1] @
     map (\<lambda>n. l16 44100 705600 (10000 * int n) (441 * n) (1764 * n) (1764 * n) 2 1) [3, 2, 1] @
     map (\<lambda>n. l16 32000 512000 (10000 * int n) (320 * n) (1280 * n) (640 * n) 2 (320 * int n)) [1, 2, 3, 4, 5, 6] @
     map (\<lambda>n. l16 16000 256000 (10000 * int n) (160 * n) (640 * n) (320 * n) 2 (160 * int n)) [1, 2, 3, 4, 5, 6] @
     map (\<lambda>n. l16 8000 128000 (10000 * int n) (80 * n) (320 * n) (160 * n) 2 (80 * int n)) [1, 2, 3, 4, 5, 6, 7, 8, 9, 10, 11, 12]"

lemma pcm_wrong:
  "filter (\<lambda>impl. \<not> impl_consistent impl) (concat (map (\<lambda>(name, impls). rev impls) pcm_codecs)) = wrong_implementations"
  by (simp add: pcm_eval impl_consistent_def wrong_implementations_def)

lemma wrong_are_linear: "impl \<in> set wrong_implementations \<Longrightarrow> routines impl = Raw"
  by (auto simp: wrong_implementations_def l16_def impl_args_def)

lemma consistent_erase [simp]: "impl_consistent (erase_ids impl) = impl_consistent impl"
  "routines (erase_ids impl) = routines impl"
  by (simp_all add: impl_consistent_def erase_ids_def)

lemma pcm_view: "interface_view (snd (core_pcm_load next_id)) = map (\<lambda>(name, impls). (name, rev impls)) pcm_codecs"
  and pcm_none_rejected: "rejected (snd (core_pcm_load next_id)) = []"
  using load_codecs_accepted [OF pcm_all_accepted] by (simp_all add: core_pcm_load_def interface_view_def)

lemma pcm_view_wrong:
  "filter (\<lambda>impl. \<not> impl_consistent impl) (concat (map snd (interface_view (snd (core_pcm_load next_id))))) = wrong_implementations"
proof -
  have "map snd (interface_view (snd (core_pcm_load next_id))) = map (\<lambda>(name, impls). rev impls) pcm_codecs"
    unfolding pcm_view by (simp add: case_prod_beta)
  then show ?thesis using pcm_wrong by simp
qed

lemma pcm_g711_consistent:
  assumes "ci \<in> set (codec_interfaces (snd (core_pcm_load next_id)))" "impl \<in> set (implementations ci)"
    and "routines impl \<noteq> Raw"
  shows "impl_consistent impl"
proof (rule ccontr)
  assume "\<not> impl_consistent impl"
  moreover have "erase_ids impl \<in> set (concat (map snd (interface_view (snd (core_pcm_load next_id)))))"
    using assms(1,2) by (auto simp: interface_view_def)
  ultimately have "erase_ids impl \<in> set (filter (\<lambda>impl. \<not> impl_consistent impl)
      (concat (map snd (interface_view (snd (core_pcm_load next_id))))))" by simp
  then have "routines (erase_ids impl) = Raw" unfolding pcm_view_wrong by (rule wrong_are_linear)
  then show False using assms(3) by simp
qed

lemma pcm_g711_sizes:
  assumes "ci \<in> set (codec_interfaces (snd (core_pcm_load next_id)))" "impl \<in> set (implementations ci)"
    and "routines impl = G711u \<or> routines impl = G711a"
  shows "0 < encoded_bytes_per_packet impl" "decoded_bytes_per_packet impl = 2 * encoded_bytes_per_packet impl"
    "0 < number_of_channels impl"
  using pcm_g711_consistent [OF assms(1,2)] assms(3) by (auto simp: impl_consistent_def)

text \<open>The packet of 20 ms in u-law, as it is found after the registration.\<close>

lemma pcm_has_pcmu:
  obtains ci impl where "ci \<in> set (codec_interfaces (snd (core_pcm_load 1)))" "impl \<in> set (implementations ci)"
    "routines impl = G711u" "number_of_channels impl = 1" "encoded_bytes_per_packet impl = 160" "decoded_bytes_per_packet impl = 320"
proof -
  have "(''G.711 ulaw'', rev (pcmu_loop 12)) \<in> set (interface_view (snd (core_pcm_load 1)))"
    unfolding pcm_view by (simp add: pcm_codecs_def g711_codecs_def)
  then obtain ci where ci: "ci \<in> set (codec_interfaces (snd (core_pcm_load 1)))" "map erase_ids (implementations ci) = rev (pcmu_loop 12)"
    by (auto simp: interface_view_def)
  have "pcmu 8000 64000 20000 160 320 160 1 160 \<in> set (rev (pcmu_loop 12))" by (simp add: loop_numerals Let_def)
  then obtain impl where impl: "impl \<in> set (implementations ci)" "erase_ids impl = pcmu 8000 64000 20000 160 320 160 1 160"
    unfolding ci(2) [symmetric] by auto
  have "routines (erase_ids impl) = routines impl" "number_of_channels (erase_ids impl) = number_of_channels impl"
    "encoded_bytes_per_packet (erase_ids impl) = encoded_bytes_per_packet impl"
    "decoded_bytes_per_packet (erase_ids impl) = decoded_bytes_per_packet impl" by (simp_all add: erase_ids_def)
  then show thesis using that [OF ci(1) impl(1)] by (simp add: impl(2) pcmu_def impl_args_def)
qed

section \<open>Encoding and decoding of packets\<close>

lemma g711_decode_ok:
  assumes "flag AND SWITCH_CODEC_FLAG_SILENCE = 0" "n \<le> length ebuf" "2 * n \<le> length dbuf"
  shows "g711_decode f bytes ebuf n dbuf flag =
         Some (SWITCH_STATUS_SUCCESS, decoded_bytes f (take n ebuf) @ drop (2 * n) dbuf, (2 * n) mod 2 ^ 32)"
  using decode_loop_Some [of 0 n dbuf ebuf f] assms by (simp add: g711_decode_def mult.commute)

lemma g711_decode_silence:
  assumes "flag AND SWITCH_CODEC_FLAG_SILENCE \<noteq> 0" "bytes \<le> length dbuf"
  shows "g711_decode f bytes ebuf n dbuf flag =
         Some (SWITCH_STATUS_SUCCESS, replicate bytes 0 @ drop bytes dbuf, bytes)"
  using assms by (simp add: g711_decode_def mem_simps)

lemma g711_decode_overruns:
  assumes "flag AND SWITCH_CODEC_FLAG_SILENCE = 0" "length dbuf < 2 * n"
  shows "g711_decode f bytes ebuf n dbuf flag = None"
  using decode_loop_None [of 0 n dbuf f ebuf] assms by (simp add: g711_decode_def)

lemma decoded_sample:
  "k < length bs \<Longrightarrow> take 2 (drop (2 * k) (decoded_bytes f bs @ rest)) = short_bytes (f (bs ! k))"
proof (induction bs arbitrary: k)
  case (Cons b bs)
  show ?case
  proof (cases k)
    case 0
    then show ?thesis by (simp add: decoded_bytes_def)
  next
    case (Suc j)
    have "drop (2 * k) (decoded_bytes f (b # bs) @ rest) = drop (2 * j) (decoded_bytes f bs @ rest)"
      by (simp add: Suc decoded_bytes_def)
    then show ?thesis using Cons Suc by simp
  qed
qed simp

lemma g711_encode_decoded:
  assumes "\<And>b. b \<in> set bs \<Longrightarrow> encode (f b) = b" "\<And>b. -32768 \<le> f b \<and> f b < 32768" "length bs \<le> length ebuf"
  shows "g711_encode encode (decoded_bytes f bs @ rest) (2 * length bs) ebuf =
         Some (SWITCH_STATUS_SUCCESS, bs @ drop (length bs) ebuf, length bs)"
proof -
  have "map (\<lambda>k. encode (short_of (take 2 (drop (2 * k) (decoded_bytes f bs @ rest))))) [0..<length bs] = bs"
    using assms(1,2) by (intro nth_equalityI) (simp_all add: decoded_sample short_roundtrip del: drop_append take_append)
  then show ?thesis using encode_loop_Some [of 0 "length bs" "decoded_bytes f bs @ rest" ebuf encode] assms(3)
    by (simp add: g711_encode_def)
qed

lemma test_flag_set: "switch_test_flag flags f \<Longrightarrow> switch_test_flag (switch_set_flag flags g) f"
  by (auto simp: switch_test_flag_def switch_set_flag_def bit_eq_iff bit_simps)

lemma init_ready:
  assumes "switch_core_codec_init_with_bitrate interfaces name modname fmtp rate ms channels bitrate flags pool new_pool =
           (SWITCH_STATUS_SUCCESS, codec)"
  shows "switch_core_codec_ready codec" "switch_test_flag flags f \<Longrightarrow> switch_test_flag (codec_flags codec) f"
proof -
  have ready: "switch_test_flag (switch_set_flag fl SWITCH_CODEC_FLAG_READY) SWITCH_CODEC_FLAG_READY" for fl
    by (rule test_set_flag) (simp add: SWITCH_CODEC_FLAG_READY_def)
  show "switch_core_codec_ready codec" using assms ready
    by (auto simp: switch_core_codec_init_with_bitrate_def switch_core_codec_ready_def Let_def
        split: option.splits prod.splits if_splits)
  show "switch_test_flag (codec_flags codec) f" if "switch_test_flag flags f" using assms that
    by (auto simp: switch_core_codec_init_with_bitrate_def Let_def test_flag_set
        split: option.splits prod.splits if_splits)
qed

text \<open>The result of the initialising function is lost: a codec that can neither encode nor decode is reported as ready.\<close>

lemma init_ignores_failure:
  assumes "interfaces name modname = Some ci" "CHR ''.'' \<notin> set name"
    and "choose_implementation ci name rate ms channels bitrate = Some impl" "routines impl = G711u"
  shows "codec_init (routines impl) 0 = SWITCH_STATUS_FALSE
         \<and> fst (switch_core_codec_init_with_bitrate interfaces name modname fmtp rate ms channels bitrate 0 True new_pool)
           = SWITCH_STATUS_SUCCESS"
  using assms by (simp add: codec_init_def switch_g711u_init_def pcm_init_def switch_core_codec_init_with_bitrate_def Let_def)

lemma decode_ready:
  assumes "implementation codec = Some impl" "switch_core_codec_ready codec"
    and "switch_test_flag (codec_flags codec) SWITCH_CODEC_FLAG_DECODE" "too_small impl elen dlen = Some False"
  shows "switch_core_codec_decode codec other ebuf elen dbuf dlen flag =
         implementation_decode impl codec other ebuf elen dbuf dlen flag"
  using assms by (simp add: switch_core_codec_decode_def)

lemma encode_ready:
  assumes "implementation codec = Some impl" "switch_core_codec_ready codec"
    and "switch_test_flag (codec_flags codec) SWITCH_CODEC_FLAG_ENCODE"
  shows "switch_core_codec_encode codec other dbuf dlen ebuf elen =
         implementation_encode impl codec other dbuf dlen ebuf elen"
  using assms by (simp add: switch_core_codec_encode_def)

lemma implementation_recode:
  assumes "routines impl = G711a \<or> routines impl = G711u \<and> 0x7F \<notin> set packet"
    and "flag AND SWITCH_CODEC_FLAG_SILENCE = 0" "length packet < 2 ^ 31"
    and "2 * length packet \<le> length dbuf" "length packet \<le> length ebuf"
  shows "\<exists>dbuf' ebuf'.
    implementation_decode impl codec other packet (length packet) dbuf dlen flag =
      Some (SWITCH_STATUS_SUCCESS, dbuf', 2 * length packet)
    \<and> length dbuf' = length dbuf
    \<and> implementation_encode impl codec other dbuf' (2 * length packet) ebuf elen =
      Some (SWITCH_STATUS_SUCCESS, ebuf', length packet)
    \<and> take (length packet) ebuf' = packet"
proof -
  have ok: "\<exists>dbuf' ebuf'. g711_decode f bytes packet (length packet) dbuf flag = Some (SWITCH_STATUS_SUCCESS, dbuf', 2 * length packet)
      \<and> length dbuf' = length dbuf
      \<and> g711_encode e dbuf' (2 * length packet) ebuf = Some (SWITCH_STATUS_SUCCESS, ebuf', length packet)
      \<and> take (length packet) ebuf' = packet"
    if "\<And>b. b \<in> set packet \<Longrightarrow> e (f b) = b" "\<And>b. -32768 \<le> f b \<and> f b < 32768" for e f bytes
    using g711_decode_ok [OF assms(2), of "length packet" packet dbuf f bytes]
      g711_encode_decoded [of packet e f ebuf "drop (2 * length packet) dbuf", OF that] assms(3-5) by simp
  show ?thesis using assms(1)
  proof
    assume "routines impl = G711a"
    then show ?thesis using ok [of linear_to_alaw alaw_to_linear] alaw_recode decoded_range
      by (simp add: implementation_decode_def implementation_encode_def switch_g711a_decode_def switch_g711a_encode_def)
  next
    assume "routines impl = G711u \<and> 0x7F \<notin> set packet"
    moreover from this have "linear_to_ulaw (ulaw_to_linear b) = b" if "b \<in> set packet" for b
      using that by (auto simp: ulaw_recode)
    ultimately show ?thesis using ok [of linear_to_ulaw ulaw_to_linear] decoded_range
      by (simp add: implementation_decode_def implementation_encode_def switch_g711u_decode_def switch_g711u_encode_def)
  qed
qed

section \<open>Properties\<close>

text \<open>
  C33: Loading the built-in codecs registers every implementation of the module, in the reverse order of the calls,
  and rejects none; all interfaces and implementations get different numbers, even if the counter wraps around; and
  sizes, time and bit rate of a registered implementation fit together, except for exactly the 29 linear ones listed
  in \<^const>\<open>wrong_implementations\<close>.
\<close>
theorem pcm_codecs_registered:
  "fst (core_pcm_load next_id) = SWITCH_STATUS_SUCCESS
   \<and> rejected (snd (core_pcm_load next_id)) = []
   \<and> interface_view (snd (core_pcm_load next_id)) = map (\<lambda>(name, impls). (name, rev impls)) pcm_codecs
   \<and> distinct (module_ids (snd (core_pcm_load next_id)))
   \<and> filter (\<lambda>impl. \<not> impl_consistent impl) (concat (map snd (interface_view (snd (core_pcm_load next_id))))) = wrong_implementations
   \<and> length wrong_implementations = 29"
proof -
  let ?m = "\<lparr>codec_interfaces = [], CODEC_ID = next_id, rejected = []\<rparr>"
  have "ids_given next_id 0 (module_ids ?m) (CODEC_ID ?m)" by (simp add: ids_given_def module_ids_def)
  moreover have "0 + sum_list (map (\<lambda>(name, impls). Suc (length impls)) pcm_codecs) \<le> 2 ^ 32"
    unfolding add_0 by (rule order_trans [OF pcm_codecs_number]) simp
  ultimately have "distinct (module_ids (snd (core_pcm_load next_id)))"
    unfolding core_pcm_load_def snd_conv by (rule load_all_ids)
  moreover have "length wrong_implementations = 29" by (simp add: wrong_implementations_def)
  ultimately show ?thesis
    using pcm_view [of next_id] pcm_none_rejected [of next_id] pcm_view_wrong [of next_id] by (simp add: core_pcm_load_def)
qed

text \<open>
  C21: A packet that passes the size check is decoded by a codec that was set up for it, and encoding what was decoded
  gives the packet again: for every A-law packet, and for every u-law packet without the code of the negative zero.
  Neither buffer is left.
\<close>
theorem g711_packets_roundtrip:
  assumes "switch_core_codec_init_with_bitrate interfaces name modname fmtp rate ms channels bitrate flags pool new_pool =
           (SWITCH_STATUS_SUCCESS, codec)"
    and "implementation codec = Some impl"
    and "routines impl = G711a \<or> routines impl = G711u \<and> 0x7F \<notin> set packet"
    and "switch_test_flag flags SWITCH_CODEC_FLAG_ENCODE" and "switch_test_flag flags SWITCH_CODEC_FLAG_DECODE"
    and "too_small impl (length packet) dlen = Some False" and "flag AND SWITCH_CODEC_FLAG_SILENCE = 0"
    and "length packet < 2 ^ 31" and "2 * length packet \<le> length dbuf" and "length packet \<le> length ebuf"
  shows "\<exists>dbuf' ebuf'.
    switch_core_codec_decode codec other packet (length packet) dbuf dlen flag =
      Some (SWITCH_STATUS_SUCCESS, dbuf', 2 * length packet)
    \<and> length dbuf' = length dbuf
    \<and> switch_core_codec_encode codec other dbuf' (2 * length packet) ebuf elen =
      Some (SWITCH_STATUS_SUCCESS, ebuf', length packet)
    \<and> take (length packet) ebuf' = packet"
  using implementation_recode [OF assms(3,7-10)] init_ready [OF assms(1)]
  by (simp add: decode_ready [OF assms(2) _ _ assms(6)] encode_ready [OF assms(2)] assms(4,5))

definition sample_interface :: switch_codec_interface where
  "sample_interface = \<lparr>interface_name = ''G.711 alaw'', implementations = pcma_loop 2, interface_codec_id = 7\<rparr>"

definition sample_codec :: switch_codec where
  "sample_codec = \<lparr>codec_interface = Some sample_interface, implementation = Some (pcma 8000 64000 20000 160 320 160 1 160),
     fmtp_in = None, codec_flags = 0x103, codec_mutex = True\<rparr>"

lemma sample_init:
  "switch_core_codec_init_with_bitrate (\<lambda>name modname. Some sample_interface) ''PCMA'' None None 8000 20 1 0 3 True SWITCH_STATUS_SUCCESS
   = (SWITCH_STATUS_SUCCESS, sample_codec)"
  by (simp add: switch_core_codec_init_with_bitrate_def choose_implementation_def matches_def sample_interface_def sample_codec_def
      strcaseeq_def c_tolower_def no_codec_def switch_set_flag_def SWITCH_CODEC_FLAG_READY_def pcm_eval)

theorem g711_packets_roundtrip_witness:
  "\<exists>dbuf' ebuf'.
    switch_core_codec_decode sample_codec None [0x10, 0xD5, 0xFF] 3 (replicate 8 0) 8 0 = Some (SWITCH_STATUS_SUCCESS, dbuf', 6)
    \<and> length dbuf' = 8
    \<and> switch_core_codec_encode sample_codec None dbuf' 6 (replicate 4 0) 0 = Some (SWITCH_STATUS_SUCCESS, ebuf', 3)
    \<and> take 3 ebuf' = [0x10, 0xD5, 0xFF]"
proof -
  let ?impl = "pcma 8000 64000 20000 160 320 160 1 160" and ?packet = "[0x10, 0xD5, 0xFF] :: byte list"
  have facts: "implementation sample_codec = Some ?impl" "routines ?impl = G711a \<or> routines ?impl = G711u \<and> 0x7F \<notin> set ?packet"
    "switch_test_flag 3 SWITCH_CODEC_FLAG_ENCODE" "switch_test_flag 3 SWITCH_CODEC_FLAG_DECODE"
    "too_small ?impl (length ?packet) 8 = Some False" "0 AND SWITCH_CODEC_FLAG_SILENCE = 0"
    by (simp_all add: sample_codec_def pcma_def impl_args_def switch_test_flag_def SWITCH_CODEC_FLAG_ENCODE_def
        SWITCH_CODEC_FLAG_DECODE_def too_small_def)
  have lengths: "length ?packet < 2 ^ 31" "2 * length ?packet \<le> length (replicate 8 (0 :: byte))"
    "length ?packet \<le> length (replicate 4 (0 :: byte))" by simp_all
  have "length ?packet = 3" "2 * length ?packet = 6" by simp_all
  with g711_packets_roundtrip [OF sample_init facts lengths, of None 0] show ?thesis by (simp only: length_replicate)
qed

text \<open>
  C16: For the mono companded implementations of the module, a decoder that is given a whole number of packets and a buffer
  with room for at least one decoded packet never
  leaves the buffer: it fills at most the length it was given, whatever its flags are and whether it is ready or not.
\<close>
theorem codec_decode_in_bounds:
  assumes "ci \<in> set (codec_interfaces (snd (core_pcm_load next_id)))" and "impl \<in> set (implementations ci)"
    and "routines impl = G711u \<or> routines impl = G711a" and "number_of_channels impl = 1"
    and "implementation codec = Some impl"
    and "encoded_bytes_per_packet impl dvd elen" and "elen \<le> length ebuf" and "elen < 2 ^ 31"
    and "decoded_bytes_per_packet impl \<le> dlen" and "dlen \<le> length dbuf"
  shows "\<exists>status dbuf' dlen'. switch_core_codec_decode codec other ebuf elen dbuf dlen flag = Some (status, dbuf', dlen')
           \<and> length dbuf' = length dbuf \<and> dlen' \<le> dlen"
proof -
  note sizes = pcm_g711_sizes [OF assms(1-3)]
  obtain frames where frames: "elen = encoded_bytes_per_packet impl * frames" using assms(6) by blast
  have all: "decoded_bytes_per_packet impl * frames = 2 * elen" by (simp add: frames sizes(2))
  have "elen div encoded_bytes_per_packet impl div number_of_channels impl = frames" using sizes assms(4) by (simp add: frames)
  then have check: "too_small impl elen dlen = Some (frames \<noteq> 0 \<and> dlen < 2 * elen)"
    using sizes(1,3) assms(8) by (simp add: too_small_def Let_def all)
  have fits: "\<exists>status dbuf' dlen'. implementation_decode impl codec other ebuf elen dbuf dlen flag = Some (status, dbuf', dlen')
      \<and> length dbuf' = length dbuf \<and> dlen' \<le> dlen" if "2 * elen \<le> dlen"
    using assms(3,7-10) that g711_decode_ok [of flag elen ebuf dbuf] g711_decode_silence [of flag "decoded_bytes_per_packet impl" dbuf]
    by (cases "flag AND SWITCH_CODEC_FLAG_SILENCE = 0")
       (auto simp: implementation_decode_def switch_g711u_decode_def switch_g711a_decode_def)
  show ?thesis
  proof (cases "frames \<noteq> 0 \<and> dlen < 2 * elen")
    case True
    then show ?thesis using assms(5,9,10) check by (auto simp: switch_core_codec_decode_def mem_simps)
  next
    case False
    then have "2 * elen \<le> dlen" using frames by auto
    from fits [OF this] show ?thesis using False assms(5) check by (auto simp: switch_core_codec_decode_def)
  qed
qed

definition pcmu_codec :: "switch_codec_interface \<Rightarrow> switch_codec_implementation \<Rightarrow> switch_codec" where
  "pcmu_codec ci impl = \<lparr>codec_interface = Some ci, implementation = Some impl, fmtp_in = None, codec_flags = 0x103, codec_mutex = True\<rparr>"

lemma pcmu_codec_simps [simp]:
  "implementation (pcmu_codec ci impl) = Some impl" "switch_core_codec_ready (pcmu_codec ci impl)"
  "switch_test_flag (codec_flags (pcmu_codec ci impl)) SWITCH_CODEC_FLAG_DECODE"
  by (simp_all add: pcmu_codec_def switch_core_codec_ready_def switch_test_flag_def SWITCH_CODEC_FLAG_READY_def
      SWITCH_CODEC_FLAG_DECODE_def)

theorem codec_decode_in_bounds_witness:
  "\<exists>ci impl status dbuf' dlen'. impl \<in> set (implementations ci) \<and> number_of_channels impl = 1
     \<and> switch_core_codec_decode (pcmu_codec ci impl) None (replicate 320 0) 320 (replicate 640 0) 640 0 = Some (status, dbuf', dlen')
     \<and> length dbuf' = 640 \<and> dlen' \<le> 640"
proof -
  obtain ci impl where i: "ci \<in> set (codec_interfaces (snd (core_pcm_load 1)))" "impl \<in> set (implementations ci)"
    "routines impl = G711u" "number_of_channels impl = 1" "encoded_bytes_per_packet impl = 160" "decoded_bytes_per_packet impl = 320"
    by (rule pcm_has_pcmu)
  then have "\<exists>status dbuf' dlen'.
      switch_core_codec_decode (pcmu_codec ci impl) None (replicate 320 0) 320 (replicate 640 0) 640 0 = Some (status, dbuf', dlen')
      \<and> length dbuf' = 640 \<and> dlen' \<le> 640"
    using codec_decode_in_bounds [OF i(1,2), of "pcmu_codec ci impl" 320 "replicate 320 0" 640 "replicate 640 0" None 0] by simp
  then show ?thesis using i(2,4) by blast
qed

text \<open>
  C37: The size check counts whole packets only, and divides by the number of channels although the encoded size has
  all channels in it.  When the rest makes the packet larger than the buffer, the decoder writes behind its end.
\<close>
theorem codec_decode_overruns:
  assumes "ci \<in> set (codec_interfaces (snd (core_pcm_load next_id)))" and "impl \<in> set (implementations ci)"
    and "routines impl = G711u \<or> routines impl = G711a"
    and "implementation codec = Some impl" and "switch_core_codec_ready codec"
    and "switch_test_flag (codec_flags codec) SWITCH_CODEC_FLAG_DECODE" and "flag AND SWITCH_CODEC_FLAG_SILENCE = 0"
    and "elen < 2 ^ 31" and "length dbuf = dlen" and "dlen < 2 * elen"
    and "decoded_bytes_per_packet impl * (elen div encoded_bytes_per_packet impl div number_of_channels impl) \<le> dlen"
  shows "switch_core_codec_decode codec other ebuf elen dbuf dlen flag = None"
proof -
  note sizes = pcm_g711_sizes [OF assms(1-3)]
  have "too_small impl elen dlen = Some False"
    using sizes assms(8,10,11) by (simp add: too_small_def Let_def)
  moreover have "g711_decode f (decoded_bytes_per_packet impl) ebuf elen dbuf flag = None" for f
    using assms(9,10) by (intro g711_decode_overruns [OF assms(7)]) simp
  ultimately show ?thesis using assms(3) decode_ready [OF assms(4-6)]
    by (auto simp: implementation_decode_def switch_g711u_decode_def switch_g711a_decode_def)
qed

theorem codec_decode_overruns_witness:
  "\<exists>ci impl. impl \<in> set (implementations ci) \<and> decoded_bytes_per_packet impl = 320
     \<and> switch_core_codec_decode (pcmu_codec ci impl) None (replicate 319 0) 319 (replicate 320 0) 320 0 = None"
proof -
  obtain ci impl where i: "ci \<in> set (codec_interfaces (snd (core_pcm_load 1)))" "impl \<in> set (implementations ci)"
    "routines impl = G711u" "number_of_channels impl = 1" "encoded_bytes_per_packet impl = 160" "decoded_bytes_per_packet impl = 320"
    by (rule pcm_has_pcmu)
  then have "switch_core_codec_decode (pcmu_codec ci impl) None (replicate 319 0) 319 (replicate 320 0) 320 0 = None"
    using codec_decode_overruns [OF i(1,2), of "pcmu_codec ci impl" 0 319 "replicate 320 0" 320 None "replicate 319 0"] by simp
  then show ?thesis using i(2,6) by blast
qed

end
